(* ===== verification/Http_Prelude.thy ===== *)
theory Http_Prelude
  imports Main "HOL-Library.Word"
begin

text \<open>
  Shared vocabulary of the development: how an execution of a piece of C can
  stop, the sequencing of executions, the conversions between the integer
  types of the source, the results of system calls, and the generic lemmas on
  lists that the components use.
\<close>

named_theorems exec_simps \<open>unfolding rules for executions and C primitives\<close>
named_theorems cint_simps \<open>C integer conversions that do not change the value\<close>

section \<open>Executions\<close>

text \<open>
  An execution that does not run to the end of its function stops: the
  program exits (\<open>exit\<close> as called by \<open>unix_error\<close>, \<open>err_dump\<close>, \<open>check\<close>), it
  performs an access the C standard leaves undefined, it waits for a system
  call that never completes, or it enters the endless loop of a worker
  process (\<open>jump_task_pool_obj\<close> does not return).
\<close>

datatype ub = NullDeref | ReadOOB | WriteOOB | BadPointer | Uninit

datatype stop = Exited int | Undef ub | Blocked | WorkerLoop

type_synonym 'a exec = "stop + 'a"

definition bindE :: "'a exec \<Rightarrow> ('a \<Rightarrow> 'b exec) \<Rightarrow> 'b exec" where
  "bindE m f = (case m of Inl e \<Rightarrow> Inl e | Inr x \<Rightarrow> f x)"

lemma bindE_simps [simp, exec_simps]:
  "bindE (Inl e) f = Inl e"
  "bindE (Inr x) f = f x"
  by (simp_all add: bindE_def)

lemma bindE_eq_Inr: "bindE m f = Inr y \<longleftrightarrow> (\<exists>x. m = Inr x \<and> f x = Inr y)"
  by (cases m) auto

lemma bindE_eq_Inl:
  "bindE m f = Inl e \<longleftrightarrow> m = Inl e \<or> (\<exists>x. m = Inr x \<and> f x = Inl e)"
  by (cases m) auto

lemma bindE_cong [fundef_cong]:
  "m = m' \<Longrightarrow> (\<And>x. m' = Inr x \<Longrightarrow> f x = g x) \<Longrightarrow> bindE m f = bindE m' g"
  by (cases m') auto

lemma bindE_assoc: "bindE (bindE m f) g = bindE m (\<lambda>x. bindE (f x) g)"
  by (cases m) auto

section \<open>Loops\<close>

text \<open>
  A run of a piece of C with loops: \<open>None\<close> is a run that does not end.  The loop
  \<open>c_loop\<close> performs its body until the body says that the loop is left; the
  condition of a \<open>while\<close> is part of the body.
\<close>

type_synonym 'a run = "'a exec option"

definition bindR :: "'a run \<Rightarrow> ('a \<Rightarrow> 'b run) \<Rightarrow> 'b run" where
  "bindR m f = (case m of None \<Rightarrow> None | Some (Inl e) \<Rightarrow> Some (Inl e) | Some (Inr x) \<Rightarrow> f x)"

lemma bindR_simps [simp, exec_simps]:
  "bindR None f = None"
  "bindR (Some (Inl e)) f = Some (Inl e)"
  "bindR (Some (Inr x)) f = f x"
  by (simp_all add: bindR_def)

lemma bindR_eq_ok: "bindR m f = Some (Inr y) \<longleftrightarrow> (\<exists>x. m = Some (Inr x) \<and> f x = Some (Inr y))"
  by (cases m rule: option.exhaust; cases "the m") (auto simp: bindR_def split: sum.splits)

partial_function (option) c_loop :: "('s \<Rightarrow> ('s \<times> bool) run) \<Rightarrow> 's \<Rightarrow> 's run" where
  "c_loop body s =
     (case body s of
        None \<Rightarrow> None
      | Some (Inl e) \<Rightarrow> Some (Inl e)
      | Some (Inr (s', leave)) \<Rightarrow> if leave then Some (Inr s') else c_loop body s')"

text \<open>Total correctness of a loop by an invariant that carries a decreasing bound.\<close>

lemma c_loop_rule:
  fixes I :: "nat \<Rightarrow> 's \<Rightarrow> bool"
  assumes step: "\<And>n s. I n s \<Longrightarrow> \<exists>s' leave. body s = Some (Inr (s', leave)) \<and>
      (if leave then Q s' else \<exists>n'<n. I n' s')"
    and init: "I n s"
  shows "\<exists>s'. c_loop body s = Some (Inr s') \<and> Q s'"
  using init
proof (induction n arbitrary: s rule: less_induct)
  case (less n)
  from step [OF less.prems] obtain s' leave where body: "body s = Some (Inr (s', leave))"
    and next_state: "if leave then Q s' else \<exists>n'<n. I n' s'" by blast
  show ?case
  proof (cases leave)
    case True
    with body next_state show ?thesis by (simp add: c_loop.simps [of body s])
  next
    case False
    with next_state less.IH [of _ s'] obtain s'' where "c_loop body s' = Some (Inr s'')" "Q s''" by auto
    with body False show ?thesis by (simp add: c_loop.simps [of body s])
  qed
qed

text \<open>A loop whose body keeps a state that never leaves it does not end.\<close>

lemma c_loop_diverges:
  assumes step: "\<And>s. I s \<Longrightarrow> \<exists>s'. body s = Some (Inr (s', False)) \<and> I s'"
    and init: "I s"
  shows "c_loop body s = None"
proof -
  have "b = body \<longrightarrow> \<not> I s" if "c_loop b s = Some r" for b s r
    using that
  proof (rule c_loop.raw_induct [rotated])
    fix f b s r
    assume hyp: "\<And>b s r. f b s = Some r \<Longrightarrow> b = body \<longrightarrow> \<not> I s"
      and eq: "(case b s of None \<Rightarrow> None | Some (Inl e) \<Rightarrow> Some (Inl e)
        | Some (Inr (s', leave)) \<Rightarrow> if leave then Some (Inr s') else f b s') = Some r"
    show "b = body \<longrightarrow> \<not> I s"
    proof (intro impI notI)
      assume b: "b = body" and "I s"
      with step obtain s' where "body s = Some (Inr (s', False))" "I s'" by blast
      with eq hyp [of body s' r] b show False by simp
    qed
  qed
  with init show ?thesis by (cases "c_loop body s") auto
qed

section \<open>Heaps\<close>

text \<open>
  Structures linked by pointers live in a partial map from addresses to cells,
  with address 0 as the NULL pointer; reading or writing where no cell is
  stops the run.
\<close>

definition fetch :: "(nat \<rightharpoonup> 'c) \<Rightarrow> nat \<Rightarrow> 'c exec" where
  "fetch h p = (case h p of
      None \<Rightarrow> Inl (Undef (if p = 0 then NullDeref else BadPointer))
    | Some e \<Rightarrow> Inr e)"

definition modify :: "(nat \<rightharpoonup> 'c) \<Rightarrow> nat \<Rightarrow> ('c \<Rightarrow> 'c) \<Rightarrow> (nat \<rightharpoonup> 'c) exec" where
  "modify h p f = bindE (fetch h p) (\<lambda>e. Inr (h(p \<mapsto> f e)))"

lemma fetch_ok [simp]: "h p = Some e \<Longrightarrow> fetch h p = Inr e"
  by (simp add: fetch_def)

lemma fetch_eq_Inr: "fetch h p = Inr e \<longleftrightarrow> h p = Some e"
  by (simp add: fetch_def split: option.splits)

lemma modify_ok [simp]: "h p = Some e \<Longrightarrow> modify h p f = Inr (h(p \<mapsto> f e))"
  by (simp add: modify_def)

section \<open>Integers of the source\<close>

text \<open>
  Values of C integer types are HOL integers in the range of the type; the
  conversions below are the ones an assignment performs (\<open>int\<close> is 32 bits,
  \<open>size_t\<close> and \<open>ssize_t\<close> are 64 bits).
\<close>

definition to_int :: "int \<Rightarrow> int" where
  "to_int x = signed_take_bit 31 x"

definition to_size :: "int \<Rightarrow> int" where
  "to_size x = take_bit 64 x"

definition to_ssize :: "int \<Rightarrow> int" where
  "to_ssize x = signed_take_bit 63 x"

lemma to_int_id [cint_simps]: "- (2 ^ 31) \<le> x \<Longrightarrow> x < 2 ^ 31 \<Longrightarrow> to_int x = x"
  by (simp add: to_int_def signed_take_bit_int_eq_self)

lemma to_size_id [cint_simps]: "0 \<le> x \<Longrightarrow> x < 2 ^ 64 \<Longrightarrow> to_size x = x"
  by (simp add: to_size_def take_bit_int_eq_self)

lemma to_ssize_id [cint_simps]: "- (2 ^ 63) \<le> x \<Longrightarrow> x < 2 ^ 63 \<Longrightarrow> to_ssize x = x"
  by (simp add: to_ssize_def signed_take_bit_int_eq_self)

lemma to_size_nonneg [simp]: "0 \<le> to_size x"
  by (simp add: to_size_def)

lemma to_size_less: "to_size x < 2 ^ 64"
  unfolding to_size_def by (rule take_bit_int_less_exp)

lemma to_size_minus_one [simp]: "to_size (- 1) = 2 ^ 64 - 1"
  by (simp add: to_size_def take_bit_minus_one_eq_mask mask_eq_exp_minus_1)

lemma to_int_range: "- (2 ^ 31) \<le> to_int x" "to_int x < 2 ^ 31"
  using signed_take_bit_int_greater_eq_minus_exp [of 31 x]
    signed_take_bit_int_less_exp [of 31 x]
  by (simp_all add: to_int_def)

section \<open>Results of system calls\<close>

text \<open>
  The values of \<open>errno\<close> the program tests; every other one is
  \<open>EOTHER\<close> with its number.
\<close>

datatype errno = EINTR | EAGAIN | EWOULDBLOCK | E2BIG | EOTHER nat

text \<open>
  What the kernel does on a \<open>write\<close>/\<open>send\<close>: it accepts at most the given
  number of bytes (of the bytes offered), or fails.  What it does on a
  \<open>read\<close>/\<open>recv\<close>: it delivers at most the bytes requested of those given
  (none at end of file), or fails.
\<close>

datatype wr_ret = WrN nat | WrErr errno
datatype rd_ret = RdData string | RdErr errno

text \<open>A call that either yields a non-negative value or fails with an \<open>errno\<close>.\<close>

datatype sys_ret = SysOk int | SysErr errno

definition sys_val :: "sys_ret \<Rightarrow> int" where
  "sys_val r = (case r of SysOk v \<Rightarrow> v | SysErr _ \<Rightarrow> - 1)"

lemma sys_val_simps [simp, exec_simps]:
  "sys_val (SysOk v) = v"
  "sys_val (SysErr e) = - 1"
  by (simp_all add: sys_val_def)

section \<open>Lists\<close>

lemma takeWhile_append_stop [simp]:
  "\<forall>x\<in>set xs. P x \<Longrightarrow> \<not> P y \<Longrightarrow> takeWhile P (xs @ y # ys) = xs"
  by (simp add: takeWhile_append2)

lemma dropWhile_append_stop [simp]:
  "\<forall>x\<in>set xs. P x \<Longrightarrow> \<not> P y \<Longrightarrow> dropWhile P (xs @ y # ys) = y # ys"
  by (simp add: dropWhile_append2)

lemma drop_length_takeWhile: "drop (length (takeWhile P xs)) xs = dropWhile P xs"
  by (simp add: dropWhile_eq_drop)

lemma takeWhile_length_eq: "length (takeWhile P xs) = length xs \<longleftrightarrow> (\<forall>x\<in>set xs. P x)"
proof
  assume "length (takeWhile P xs) = length xs"
  then have "takeWhile P xs = xs"
    by (metis take_all_iff takeWhile_eq_take order_refl)
  then show "\<forall>x\<in>set xs. P x"
    by (simp only: takeWhile_eq_all_conv)
qed (metis takeWhile_eq_all_conv)

end
