(* ===== verification/Sys_Calls.thy ===== *)
theory Sys_Calls
  imports Http_Prelude
begin

text \<open>
  The system-call wrappers of \<open>inc/sock.h\<close>, \<open>inc/epoll_inc.h\<close>, \<open>inc/http_ipc.h\<close>,
  \<open>utils/utils.h\<close> and \<open>utils/rio_r_w.h\<close>.  A world holds the results the kernel
  will give to the successive calls and the calls made so far, so a statement
  about every world is a statement about every behaviour of the kernel.  The
  locale \<open>checked_call\<close> is the contract of a wrapper: it returns what the call
  returned or ends the program; every wrapper of that kind is an
  interpretation.
\<close>

section \<open>Worlds\<close>

datatype call =
    CSocket int int int | CConnect int nat | CBind int nat | CListen int int | CAccept int
  | CGetaddrinfo string string int | CGetnameinfo nat | CSetsockopt int int int | CSigaction int | CSigprocmask int
  | CSocketpair | CSendmsg int int | CFcntlGet int | CFcntlSet int int | CClose int | CFork | CPipe | CDup int
  | CSelect int | CEpollCreate int | CEpollCtl int int int | CEpollWait int int
  | COpen string | CFstat int
  | CFtok int | CMsgget int | CMsgsnd int int | CMsgrcv int int int | CMsgctlRm int
  | CDup2 int int | COpenMode string int int | CStat string | CFcntlLock int int
  | CMunmap nat nat | CMsync nat nat int | CMprotect nat nat int
  | CShmOpen string int int | CShmUnlink string | CFtruncate int int
  | CSetsid | CGetrlimit int | CSetrlimit int

record world =
  outcomes :: "sys_ret list"
  trace :: "(call \<times> sys_ret) list"

definition sys :: "call \<Rightarrow> world \<Rightarrow> (sys_ret \<times> world) exec" where
  "sys c w =
     (case outcomes w of
        [] \<Rightarrow> Inl Blocked
      | r # rs \<Rightarrow> Inr (r, w\<lparr>outcomes := rs, trace := trace w @ [(c, r)]\<rparr>))"

text \<open>\<open>unix_error\<close> and the macro \<open>check\<close> print a message and call \<open>exit(0)\<close>.\<close>

definition unix_error :: "'a exec" where
  "unix_error = Inl (Exited 0)"

definition check :: "'a exec" where
  "check = Inl (Exited 0)"

text \<open>\<open>inc/http_error.h\<close> has another copy of the first.\<close>

definition inline_unix_error :: "'a exec" where
  "inline_unix_error = Inl (Exited 0)"

definition http_unix_error :: "'a exec" where
  "http_unix_error = inline_unix_error"

lemma unix_error_copies: "http_unix_error = unix_error"
  by (simp add: http_unix_error_def inline_unix_error_def unix_error_def)

text \<open>Constants of the system headers.\<close>

definition AF_INET :: int where "AF_INET = 2"
definition SOCK_STREAM :: int where "SOCK_STREAM = 1"
definition SOL_SOCKET :: int where "SOL_SOCKET = 1"
definition SO_REUSEADDR :: int where "SO_REUSEADDR = 2"
definition AI_PASSIVE :: int where "AI_PASSIVE = 1"
definition AI_ADDRCONFIG :: int where "AI_ADDRCONFIG = 32"
definition AI_NUMERICSERV :: int where "AI_NUMERICSERV = 1024"

section \<open>The wrappers\<close>

definition Socket :: "int \<Rightarrow> int \<Rightarrow> int \<Rightarrow> world \<Rightarrow> (int \<times> world) exec" where
  "Socket domain type protocol w =
     bindE (sys (CSocket AF_INET SOCK_STREAM 0) w) (\<lambda>(r, w).
     if sys_val r < 0 then unix_error else Inr (sys_val r, w))"

definition Connnect :: "int \<Rightarrow> nat \<Rightarrow> world \<Rightarrow> (int \<times> world) exec" where
  "Connnect clientfd addr w =
     bindE (sys (CConnect clientfd addr) w) (\<lambda>(r, w).
     if sys_val r < 0 then unix_error else Inr (sys_val r, w))"

definition Bind :: "int \<Rightarrow> nat \<Rightarrow> world \<Rightarrow> (int \<times> world) exec" where
  "Bind sockfd addr w =
     bindE (sys (CBind sockfd addr) w) (\<lambda>(r, w).
     if sys_val r < 0 then unix_error else Inr (sys_val r, w))"

definition Listen :: "int \<Rightarrow> int \<Rightarrow> world \<Rightarrow> (int \<times> world) exec" where
  "Listen listenfd num w =
     bindE (sys (CListen listenfd num) w) (\<lambda>(r, w).
     if sys_val r < 0 then unix_error else Inr (sys_val r, w))"

definition Getaddrinfo :: "string \<Rightarrow> string \<Rightarrow> int \<Rightarrow> world \<Rightarrow> (int \<times> world) exec" where
  "Getaddrinfo hostname service flags w =
     bindE (sys (CGetaddrinfo hostname service flags) w) (\<lambda>(r, w).
     if sys_val r < 0 then unix_error else Inr (sys_val r, w))"

definition Getnameinfo :: "nat \<Rightarrow> world \<Rightarrow> (int \<times> world) exec" where
  "Getnameinfo sa w =
     bindE (sys (CGetnameinfo sa) w) (\<lambda>(r, w).
     if sys_val r < 0 then unix_error else Inr (sys_val r, w))"

definition Setsockopt :: "int \<Rightarrow> int \<Rightarrow> int \<Rightarrow> world \<Rightarrow> (int \<times> world) exec" where
  "Setsockopt sock level optname w =
     bindE (sys (CSetsockopt sock level optname) w) (\<lambda>(r, w).
     if sys_val r < 0 then unix_error else Inr (sys_val r, w))"

text \<open>\<open>Signal\<close> returns the former handler \<open>old\<close>.\<close>

definition Signal :: "int \<Rightarrow> 'h \<Rightarrow> world \<Rightarrow> ('h \<times> world) exec" where
  "Signal signum old w =
     bindE (sys (CSigaction signum) w) (\<lambda>(r, w).
     if sys_val r < 0 then unix_error else Inr (old, w))"

definition Sigprocmask :: "int \<Rightarrow> world \<Rightarrow> (int \<times> world) exec" where
  "Sigprocmask how w =
     bindE (sys (CSigprocmask how) w) (\<lambda>(r, w).
     if sys_val r < 0 then unix_error else Inr (sys_val r, w))"

definition S_pipe :: "world \<Rightarrow> (int \<times> world) exec" where
  "S_pipe w = bindE (sys CSocketpair w) (\<lambda>(r, w). Inr (sys_val r, w))"

definition Setnoblock :: "int \<Rightarrow> int \<Rightarrow> world \<Rightarrow> (int \<times> world) exec" where
  "Setnoblock fd status w =
     bindE (sys (CFcntlGet fd) w) (\<lambda>(r, w).
     if sys_val r < 0 then unix_error
     else
       bindE (sys (CFcntlSet fd (or (sys_val r) status)) w) (\<lambda>(r, w).
       if sys_val r < 0 then unix_error else Inr (0, w)))"

text \<open>\<open>Accept\<close> of \<open>inc/sock.h\<close>.\<close>

definition Accept :: "int \<Rightarrow> world \<Rightarrow> (int \<times> world) exec" where
  "Accept listenfd w =
     bindE (sys (CAccept listenfd) w) (\<lambda>(r, w).
     if sys_val r < 0 then
       (if r = SysErr EAGAIN \<or> r = SysErr EWOULDBLOCK then Inr (0, w) else Inr (- 1, w))
     else Inr (sys_val r, w))"

definition Fork :: "world \<Rightarrow> (int \<times> world) exec" where
  "Fork w =
     bindE (sys CFork w) (\<lambda>(r, w). if sys_val r < 0 then unix_error else Inr (sys_val r, w))"

text \<open>The copy in \<open>utils/rio_r_w.h\<close>.\<close>

definition Rio_Fork :: "world \<Rightarrow> (int \<times> world) exec" where
  "Rio_Fork w =
     bindE (sys CFork w) (\<lambda>(r, w). if sys_val r < 0 then unix_error else Inr (sys_val r, w))"

definition Pipe :: "world \<Rightarrow> (int \<times> world) exec" where
  "Pipe w =
     bindE (sys CPipe w) (\<lambda>(r, w). if sys_val r < 0 then unix_error else Inr (sys_val r, w))"

definition Dup :: "int \<Rightarrow> world \<Rightarrow> (int \<times> world) exec" where
  "Dup newfd w =
     bindE (sys (CDup newfd) w) (\<lambda>(r, w). if sys_val r < 0 then unix_error else Inr (sys_val r, w))"

text \<open>\<open>Select\<close> also warns when the time is up, which does not change the result.\<close>

definition Select :: "int \<Rightarrow> world \<Rightarrow> (int \<times> world) exec" where
  "Select maxfd w =
     bindE (sys (CSelect maxfd) w) (\<lambda>(r, w).
     if sys_val r < 0 then unix_error else Inr (sys_val r, w))"

definition Epoll_create :: "int \<Rightarrow> world \<Rightarrow> (int \<times> world) exec" where
  "Epoll_create sz w =
     bindE (sys (CEpollCreate sz) w) (\<lambda>(r, w).
     if sys_val r < 0 then unix_error else Inr (sys_val r, w))"

definition Epoll_ctl :: "int \<Rightarrow> int \<Rightarrow> int \<Rightarrow> world \<Rightarrow> (int \<times> world) exec" where
  "Epoll_ctl efd op fd w =
     bindE (sys (CEpollCtl efd op fd) w) (\<lambda>(r, w).
     if sys_val r = - 1 then Inr (- 1, w) else Inr (sys_val r, w))"

definition Epoll_wait :: "int \<Rightarrow> int \<Rightarrow> world \<Rightarrow> (int \<times> world) exec" where
  "Epoll_wait efd maxeven w =
     bindE (sys (CEpollWait efd maxeven) w) (\<lambda>(r, w).
     if sys_val r < 0 then unix_error else Inr (sys_val r, w))"

text \<open>The message queues of \<open>inc/http_ipc.h\<close>.\<close>

definition Ftok :: "int \<Rightarrow> world \<Rightarrow> (int \<times> world) exec" where
  "Ftok i w =
     bindE (sys (CFtok i) w) (\<lambda>(r, w). if sys_val r = - 1 then check else Inr (sys_val r, w))"

text \<open>Memory: \<open>None\<close> is the NULL that the allocator returned.\<close>

definition Malloc :: "'a option \<Rightarrow> 'a exec" where
  "Malloc p = (case p of None \<Rightarrow> unix_error | Some a \<Rightarrow> Inr a)"

definition Calloc :: "'a option \<Rightarrow> 'a exec" where
  "Calloc p = (case p of None \<Rightarrow> unix_error | Some a \<Rightarrow> Inr a)"

text \<open>\<open>Realloc\<close> frees the old block (\<open>True\<close>) when there is no new one.\<close>

definition Realloc :: "'a option \<Rightarrow> 'a option \<times> bool" where
  "Realloc p = (case p of None \<Rightarrow> (None, True) | Some a \<Rightarrow> (Some a, False))"

definition Fdopen :: "'a option \<Rightarrow> 'a exec" where
  "Fdopen p = (case p of None \<Rightarrow> unix_error | Some a \<Rightarrow> Inr a)"

definition Fgets :: "'a option \<Rightarrow> 'a exec" where
  "Fgets p = (case p of None \<Rightarrow> unix_error | Some a \<Rightarrow> Inr a)"

text \<open>
  \<open>get_file_length\<close>: \<open>st_size\<close> is what \<open>fstat\<close> reports; after the assignment of
  the length the control flow reaches the label \<open>err\<close>.
\<close>

definition get_file_length :: "string \<Rightarrow> int \<Rightarrow> world \<Rightarrow> (int \<times> world) exec" where
  "get_file_length path st_size w =
     bindE (sys (COpen path) w) (\<lambda>(r, w).
     if sys_val r < 0 then unix_error
     else
       bindE (sys (CFstat (sys_val r)) w) (\<lambda>(s, w).
       if sys_val s < 0 then unix_error
       else bindE (sys (CClose (sys_val r)) w) (\<lambda>(_, w). unix_error)))"


section \<open>The contract of a checked call\<close>

lemma sys_simps [simp, exec_simps]:
  "outcomes w = r # rs \<Longrightarrow> sys c w = Inr (r, w\<lparr>outcomes := rs, trace := trace w @ [(c, r)]\<rparr>)"
  "outcomes w = [] \<Longrightarrow> sys c w = Inl Blocked"
  by (simp_all add: sys_def)

lemma sys_Inr:
  "sys c w = Inr (r, w') \<longleftrightarrow> (\<exists>rs. outcomes w = r # rs \<and> w' = w\<lparr>outcomes := rs, trace := trace w @ [(c, r)]\<rparr>)"
  by (auto simp: sys_def split: list.splits)

lemma sys_Inl: "sys c w = Inl e \<longleftrightarrow> outcomes w = [] \<and> e = Blocked"
  by (auto simp: sys_def split: list.splits)

text \<open>Results of the kernel: a failing call is \<open>SysErr\<close>, every other value is not negative.\<close>

definition kernel_ok :: "world \<Rightarrow> bool" where
  "kernel_ok w = list_all (\<lambda>r. case r of SysOk v \<Rightarrow> 0 \<le> v | SysErr e \<Rightarrow> True) (outcomes w)"

text \<open>
  The wrapper makes one call.  It returns the result of a call that did not fail if
  it is one of those it takes for a success, and ends the program otherwise.
\<close>

locale checked_result =
  fixes wrap :: "world \<Rightarrow> (int \<times> world) exec" and c :: call and good :: "int \<Rightarrow> bool"
  assumes returns_good: "outcomes w = SysOk v # rs \<Longrightarrow> 0 \<le> v \<Longrightarrow> good v \<Longrightarrow>
      wrap w = Inr (v, w\<lparr>outcomes := rs, trace := trace w @ [(c, SysOk v)]\<rparr>)"
    and refuses: "outcomes w = SysOk v # rs \<Longrightarrow> 0 \<le> v \<Longrightarrow> \<not> good v \<Longrightarrow> wrap w = Inl (Exited 0)"
    and fails: "outcomes w = SysErr e # rs \<Longrightarrow> wrap w = Inl (Exited 0)"
    and blocks: "outcomes w = [] \<Longrightarrow> wrap w = Inl Blocked"
begin

lemma by_cases:
  assumes "kernel_ok w"
  shows "wrap w =
    (case outcomes w of
       [] \<Rightarrow> Inl Blocked
     | SysErr e # rs \<Rightarrow> Inl (Exited 0)
     | SysOk v # rs \<Rightarrow> if good v then Inr (v, w\<lparr>outcomes := rs, trace := trace w @ [(c, SysOk v)]\<rparr>) else Inl (Exited 0))"
proof (cases "outcomes w")
  case Nil
  with blocks show ?thesis by simp
next
  case (Cons r rs)
  with assms returns_good [of w _ rs] refuses [of w _ rs] fails [of w _ rs] show ?thesis
    by (cases r) (auto simp: kernel_ok_def)
qed

end

text \<open>The usual kind takes every result that is not negative for a success.\<close>

locale checked_call =
  fixes wrap :: "world \<Rightarrow> (int \<times> world) exec" and c :: call
  assumes returns: "outcomes w = SysOk v # rs \<Longrightarrow> 0 \<le> v \<Longrightarrow>
      wrap w = Inr (v, w\<lparr>outcomes := rs, trace := trace w @ [(c, SysOk v)]\<rparr>)"
    and exits: "outcomes w = SysErr e # rs \<Longrightarrow> wrap w = Inl (Exited 0)"
    and waits: "outcomes w = [] \<Longrightarrow> wrap w = Inl Blocked"

sublocale checked_call \<subseteq> checked_result wrap c "\<lambda>v. True"
  by unfold_locales (auto simp: returns exits waits)

context checked_call begin

lemma result:
  assumes "kernel_ok w" "wrap w = Inr (v, w')"
  shows "0 \<le> v \<and> kernel_ok w' \<and> trace w' = trace w @ [(c, SysOk v)] \<and> outcomes w = SysOk v # outcomes w'"
proof (cases "outcomes w")
  case Nil
  with waits assms(2) show ?thesis by auto
next
  case (Cons r rs)
  show ?thesis
  proof (cases r)
    case (SysOk x)
    with Cons assms(1) have "0 \<le> x" by (simp add: kernel_ok_def)
    with returns [of w x rs] Cons SysOk assms show ?thesis
      by (auto simp: kernel_ok_def)
  next
    case (SysErr e)
    with exits [of w e rs] Cons assms(2) show ?thesis by auto
  qed
qed

lemma stops: "wrap w = Inl e \<Longrightarrow> kernel_ok w \<Longrightarrow> e = Exited 0 \<or> e = Blocked"
proof (cases "outcomes w")
  case Nil
  with waits [of w] show "wrap w = Inl e \<Longrightarrow> kernel_ok w \<Longrightarrow> e = Exited 0 \<or> e = Blocked" by auto
next
  case (Cons r rs)
  then show "wrap w = Inl e \<Longrightarrow> kernel_ok w \<Longrightarrow> e = Exited 0 \<or> e = Blocked"
    using returns [of w _ rs] exits [of w _ rs] by (cases r) (auto simp: kernel_ok_def)
qed

end

text \<open>Each wrapper that ends the program on a failure meets the contract.\<close>

lemmas wrapper_defs = Socket_def Connnect_def Bind_def Listen_def Getaddrinfo_def Getnameinfo_def
  Setsockopt_def Sigprocmask_def Fork_def Rio_Fork_def Pipe_def Dup_def Select_def Epoll_create_def Epoll_wait_def Ftok_def
  unix_error_def check_def

interpretation Socket: checked_call "Socket d t p" "CSocket AF_INET SOCK_STREAM 0"
  by unfold_locales (simp_all add: wrapper_defs)

interpretation Connnect: checked_call "Connnect fd a" "CConnect fd a"
  by unfold_locales (simp_all add: wrapper_defs)

interpretation Bind: checked_call "Bind fd a" "CBind fd a"
  by unfold_locales (simp_all add: wrapper_defs)

interpretation Listen: checked_call "Listen fd n" "CListen fd n"
  by unfold_locales (simp_all add: wrapper_defs)

interpretation Getaddrinfo: checked_call "Getaddrinfo h s f" "CGetaddrinfo h s f"
  by unfold_locales (simp_all add: wrapper_defs)

interpretation Getnameinfo: checked_call "Getnameinfo sa" "CGetnameinfo sa"
  by unfold_locales (simp_all add: wrapper_defs)

interpretation Setsockopt: checked_call "Setsockopt fd l opt" "CSetsockopt fd l opt"
  by unfold_locales (simp_all add: wrapper_defs)

interpretation Sigprocmask: checked_call "Sigprocmask how" "CSigprocmask how"
  by unfold_locales (simp_all add: wrapper_defs)

interpretation Fork: checked_call Fork CFork
  by unfold_locales (simp_all add: wrapper_defs)

interpretation Rio_Fork: checked_call Rio_Fork CFork
  by unfold_locales (simp_all add: wrapper_defs)

interpretation Pipe: checked_call Pipe CPipe
  by unfold_locales (simp_all add: wrapper_defs)

interpretation Dup: checked_call "Dup fd" "CDup fd"
  by unfold_locales (simp_all add: wrapper_defs)

interpretation Select: checked_call "Select n" "CSelect n"
  by unfold_locales (simp_all add: wrapper_defs)

interpretation Epoll_create: checked_call "Epoll_create n" "CEpollCreate n"
  by unfold_locales (simp_all add: wrapper_defs)

interpretation Epoll_wait: checked_call "Epoll_wait fd n" "CEpollWait fd n"
  by unfold_locales (simp_all add: wrapper_defs)

interpretation Ftok: checked_call "Ftok i" "CFtok i"
  by unfold_locales (simp_all add: wrapper_defs)

section \<open>Properties\<close>

text \<open>
  \<open>Setnoblock\<close> reads the file status flags once and sets them once: the new
  flags are the old ones with the bits of \<open>status\<close> added, no bit is lost, and the
  result is 0; every other outcome of the two calls ends the program.
\<close>

theorem Setnoblock_flags:
  assumes "kernel_ok w" "Setnoblock fd status w = Inr (r, w')"
  shows "r = 0 \<and> (\<exists>old v. trace w' = trace w @ [(CFcntlGet fd, SysOk old), (CFcntlSet fd (or old status), SysOk v)] \<and>
    (\<forall>n. bit (or old status) n \<longleftrightarrow> bit old n \<or> bit status n))"
proof -
  from assms(2) obtain r1 rs1 r2 rs2 where o: "outcomes w = r1 # r2 # rs2" "rs1 = r2 # rs2"
    and v: "\<not> sys_val r1 < 0" "\<not> sys_val r2 < 0" and r: "r = 0"
    and w': "trace w' = trace w @ [(CFcntlGet fd, r1), (CFcntlSet fd (or (sys_val r1) status), r2)]"
    by (auto simp: Setnoblock_def bindE_eq_Inr sys_Inr unix_error_def split: if_splits)
  from v obtain v1 v2 where "r1 = SysOk v1" "r2 = SysOk v2" by (cases r1; cases r2) auto
  with r w' show ?thesis by (auto simp: bit_or_iff)
qed

theorem Setnoblock_flags_witness:
  "trace (snd (projr (Setnoblock 5 2048 \<lparr>outcomes = [SysOk 2, SysOk 0], trace = []\<rparr>)))
     = [(CFcntlGet 5, SysOk 2), (CFcntlSet 5 2050, SysOk 0)]"
proof -
  let ?w = "\<lparr>outcomes = [SysOk 2, SysOk 0], trace = []\<rparr>"
  have "Setnoblock 5 2048 ?w = Inr (0, \<lparr>outcomes = [], trace = [(CFcntlGet 5, SysOk 2), (CFcntlSet 5 2050, SysOk 0)]\<rparr>)"
    by (simp add: Setnoblock_def)
  with Setnoblock_flags [of ?w 5 2048] show ?thesis by (simp add: kernel_ok_def)
qed

text \<open>After the length has been stored, \<open>get_file_length\<close> falls into its error exit.\<close>

lemma get_file_length_stops:
  assumes "3 \<le> length (outcomes w)"
  shows "get_file_length path n w = Inl (Exited 0)"
proof -
  from assms obtain a b c rs where "outcomes w = a # b # c # rs"
    by (cases "outcomes w"; cases "tl (outcomes w)"; cases "tl (tl (outcomes w))") auto
  then show ?thesis by (simp add: get_file_length_def unix_error_def)
qed

end
