(* ===== verification/Connections.thy ===== *)
theory Connections
  imports Sys_Calls "HOL-Library.Multiset"
begin

text \<open>
  Setting up connections (\<open>open_clientfd\<close>, \<open>open_listenfd\<close>) and passing file
  descriptors between processes (\<open>Sock_fd_write\<close>, \<open>Sock_fd_read\<close>), from
  \<open>inc/sock.h\<close>.  The addresses \<open>getaddrinfo\<close> found are an argument.
\<close>

section \<open>Opening sockets\<close>

definition LISTEN_NUM :: int where "LISTEN_NUM = 100"

record addrinfo =
  ai_family :: int
  ai_socktype :: int
  ai_protocol :: int
  ai_addr :: nat

fun client_loop :: "addrinfo list \<Rightarrow> world \<Rightarrow> (int option \<times> world) exec" where
  "client_loop [] w = Inr (None, w)"
| "client_loop (p # ps) w =
     bindE (sys (CSocket (ai_family p) (ai_socktype p) (ai_protocol p)) w) (\<lambda>(r, w).
     if sys_val r < 0 then client_loop ps w
     else
       bindE (sys (CConnect (sys_val r) (ai_addr p)) w) (\<lambda>(c, w).
       if sys_val c \<noteq> - 1 then Inr (Some (sys_val r), w)
       else bindE (sys (CClose (sys_val r)) w) (\<lambda>(_, w). client_loop ps w)))"

definition open_clientfd :: "string \<Rightarrow> string \<Rightarrow> addrinfo list \<Rightarrow> world \<Rightarrow> (int \<times> world) exec" where
  "open_clientfd hostname port listp w =
     bindE (Getaddrinfo hostname port (or AI_NUMERICSERV AI_ADDRCONFIG) w) (\<lambda>(_, w).
     bindE (client_loop listp w) (\<lambda>(p, w).
     case p of None \<Rightarrow> Inr (- 1, w) | Some clientfd \<Rightarrow> Inr (clientfd, w)))"

fun listen_loop :: "addrinfo list \<Rightarrow> world \<Rightarrow> (int option \<times> world) exec" where
  "listen_loop [] w = Inr (None, w)"
| "listen_loop (p # ps) w =
     bindE (sys (CSocket (ai_family p) (ai_socktype p) (ai_protocol p)) w) (\<lambda>(r, w).
     if sys_val r < 0 then listen_loop ps w
     else
       bindE (Setsockopt (sys_val r) SOL_SOCKET SO_REUSEADDR w) (\<lambda>(_, w).
       bindE (Bind (sys_val r) (ai_addr p) w) (\<lambda>(b, w).
       if b = 0 then Inr (Some (sys_val r), w)
       else bindE (sys (CClose (sys_val r)) w) (\<lambda>(_, w). listen_loop ps w))))"

definition open_listenfd :: "string \<Rightarrow> string \<Rightarrow> addrinfo list \<Rightarrow> world \<Rightarrow> (int \<times> world) exec" where
  "open_listenfd hostname port listp w =
     bindE (Getaddrinfo hostname port (or AI_PASSIVE AI_ADDRCONFIG) w) (\<lambda>(_, w).
     bindE (listen_loop listp w) (\<lambda>(p, w).
     case p of
       None \<Rightarrow> Inr (- 1, w)
     | Some listenfd \<Rightarrow>
         bindE (Listen listenfd LISTEN_NUM w) (\<lambda>(l, w).
         if l < 0 then bindE (sys (CClose listenfd) w) (\<lambda>(_, w). Inr (- 1, w))
         else Inr (listenfd, w))))"

section \<open>Passing descriptors\<close>

text \<open>
  A control message and a message.  On a 64-bit machine \<open>CMSG_LEN(sizeof(int))\<close>
  is 20 and \<open>CMSG_SPACE(sizeof(int))\<close> is 24.
\<close>

definition CMSG_LEN_INT :: nat where "CMSG_LEN_INT = 20"
definition SCM_RIGHTS :: int where "SCM_RIGHTS = 1"

record cmsghdr =
  cmsg_len :: nat
  cmsg_level :: int
  cmsg_type :: int
  cmsg_data :: int

record msghdr =
  msg_iov :: string
  msg_control :: "cmsghdr option"

text \<open>
  \<open>Sock_fd_write\<close>: the message is given with the return value.  The trace of
  calls has for \<open>sendmsg\<close> the descriptor that stands in the message's control part.
\<close>

definition passed_fd :: "msghdr \<Rightarrow> int" where
  "passed_fd msg = (case msg_control msg of Some c \<Rightarrow> cmsg_data c | None \<Rightarrow> - 1)"

definition Sock_fd_write :: "int \<Rightarrow> string \<Rightarrow> nat \<Rightarrow> int \<Rightarrow> world \<Rightarrow> (int \<times> msghdr \<times> world) exec" where
  "Sock_fd_write sock buf buflen fd w =
     (if length buf < buflen then Inl (Undef ReadOOB)
      else
        let msg = \<lparr>msg_iov = take buflen buf,
          msg_control = (if fd \<noteq> - 1 then
            Some \<lparr>cmsg_len = CMSG_LEN_INT, cmsg_level = SOL_SOCKET, cmsg_type = SCM_RIGHTS, cmsg_data = fd\<rparr>
            else None)\<rparr>
        in bindE (sys (CSendmsg sock (passed_fd msg)) w) (\<lambda>(size, w). Inr (sys_val size, msg, w)))"

text \<open>
  What \<open>recvmsg\<close> does: it fails, leaving the control buffer as it was, or
  delivers data and possibly a control message.
\<close>

datatype rcv = RcvErr errno | RcvMsg string "cmsghdr option"

text \<open>
  \<open>Sock_fd_read\<close>: \<open>g\<close> is the control buffer before the call (uninitialised), \<open>old\<close>
  what \<open>*fd\<close> held; \<open>None\<close> is a NULL pointer \<open>fd\<close>, for which the function reads
  plainly.  The result has the value of \<open>*fd\<close>.
\<close>

definition Sock_fd_read ::
  "rcv \<Rightarrow> cmsghdr \<Rightarrow> nat \<Rightarrow> int option \<Rightarrow> (int \<times> string \<times> int option) exec" where
  "Sock_fd_read rc g bufsize fd =
     (let size = (case rc of RcvErr _ \<Rightarrow> - 1 | RcvMsg d _ \<Rightarrow> int (length (take bufsize d)));
          data = (case rc of RcvErr _ \<Rightarrow> [] | RcvMsg d _ \<Rightarrow> take bufsize d) in
      case fd of
        None \<Rightarrow> Inr (size, data, None)
      | Some _ \<Rightarrow>
          let cmsg = (case rc of RcvErr _ \<Rightarrow> Some g | RcvMsg _ ctl \<Rightarrow> ctl) in
          (case cmsg of
             Some c \<Rightarrow>
               if cmsg_len c = CMSG_LEN_INT then
                 (if cmsg_level c \<noteq> SOL_SOCKET then Inl (Exited 1)
                  else if cmsg_type c \<noteq> SCM_RIGHTS then Inl (Exited 1)
                  else Inr (size, data, Some (cmsg_data c)))
               else Inr (size, data, Some (- 1))
           | None \<Rightarrow> Inr (size, data, Some (- 1))))"

section \<open>Descriptors in use\<close>

text \<open>The descriptors a trace has opened with \<open>socket\<close> and not closed.\<close>

fun live_step :: "call \<times> sys_ret \<Rightarrow> int multiset \<Rightarrow> int multiset" where
  "live_step (CSocket _ _ _, SysOk fd) M = add_mset fd M"
| "live_step (CClose fd, _) M = M - {#fd#}"
| "live_step _ M = M"

definition live :: "(call \<times> sys_ret) list \<Rightarrow> int multiset" where
  "live tr = fold live_step tr {#}"

lemma live_snoc [simp]: "live (tr @ [e]) = live_step e (live tr)" "live (tr @ [e, f]) = live_step f (live_step e (live tr))"
  "live (tr @ [e, f, g]) = live_step g (live_step f (live_step e (live tr)))"
  by (simp_all add: live_def)

lemma sys_val_neg: "0 \<le> v \<Longrightarrow> sys_val (SysOk v) \<noteq> - 1" by simp

lemma client_loop_live:
  "client_loop ps w = Inr (r, w') \<Longrightarrow> kernel_ok w \<Longrightarrow>
   (r = None \<longrightarrow> live (trace w') = live (trace w)) \<and>
   (\<forall>fd. r = Some fd \<longrightarrow> 0 \<le> fd \<and> live (trace w') = add_mset fd (live (trace w)) \<and>
     (\<exists>p\<in>set ps. \<exists>v tr. trace w' = tr @ [(CConnect fd (ai_addr p), SysOk v)]))"
proof (induction ps arbitrary: w)
  case (Cons p ps)
  from Cons.prems(1) obtain a rs where out: "outcomes w = a # rs"
    by (cases "outcomes w") auto
  define w1 where "w1 = w\<lparr>outcomes := rs, trace := trace w @ [(CSocket (ai_family p) (ai_socktype p) (ai_protocol p), a)]\<rparr>"
  have ok1: "kernel_ok w1" using Cons.prems(2) out by (simp add: kernel_ok_def w1_def)
  show ?case
  proof (cases a)
    case (SysErr e)
    then have "client_loop ps w1 = Inr (r, w')" using Cons.prems(1) out by (simp add: w1_def)
    from Cons.IH [OF this ok1] show ?thesis by (auto simp: w1_def SysErr)
  next
    case (SysOk fd)
    then have fd: "0 \<le> fd" using Cons.prems(2) out by (simp add: kernel_ok_def)
    with Cons.prems(1) out SysOk obtain b rs1 where out1: "rs = b # rs1"
      by (cases rs) auto
    define w2 where "w2 = w1\<lparr>outcomes := rs1, trace := trace w1 @ [(CConnect fd (ai_addr p), b)]\<rparr>"
    show ?thesis
    proof (cases b)
      case (SysOk v)
      then have "0 \<le> v" using ok1 out1 by (simp add: kernel_ok_def w1_def)
      then show ?thesis
        using Cons.prems(1) out out1 \<open>a = SysOk fd\<close> SysOk fd by auto
    next
      case (SysErr e)
      with Cons.prems(1) out out1 \<open>a = SysOk fd\<close> fd obtain c rs2 where out2: "rs1 = c # rs2"
        by (cases rs1) auto
      define w3 where "w3 = w2\<lparr>outcomes := rs2, trace := trace w2 @ [(CClose fd, c)]\<rparr>"
      have "client_loop ps w3 = Inr (r, w')" "kernel_ok w3"
        using Cons.prems out out1 out2 \<open>a = SysOk fd\<close> SysErr fd
        by (simp_all add: w1_def w2_def w3_def kernel_ok_def)
      from Cons.IH [OF this] show ?thesis
        by (auto simp: w1_def w2_def w3_def \<open>a = SysOk fd\<close> SysErr)
    qed
  qed
qed simp


lemma sys_result:
  assumes "sys c w = Inr (r, w')" "kernel_ok w"
  shows "kernel_ok w' \<and> trace w' = trace w @ [(c, r)] \<and> (\<forall>v. r = SysOk v \<longrightarrow> 0 \<le> v)"
  using assms by (auto simp: sys_Inr kernel_ok_def)

lemma listen_loop_live:
  "listen_loop ps w = Inr (r, w') \<Longrightarrow> kernel_ok w \<Longrightarrow> kernel_ok w' \<and>
   (r = None \<longrightarrow> live (trace w') = live (trace w)) \<and>
   (\<forall>fd. r = Some fd \<longrightarrow> 0 \<le> fd \<and> live (trace w') = add_mset fd (live (trace w)) \<and>
     (\<exists>p\<in>set ps. \<exists>tr. trace w' = tr @ [(CBind fd (ai_addr p), SysOk 0)]))"
proof (induction ps arbitrary: w)
  case (Cons p ps)
  from Cons.prems(1) obtain a w1 where sock: "sys (CSocket (ai_family p) (ai_socktype p) (ai_protocol p)) w = Inr (a, w1)"
    and more: "(if sys_val a < 0 then listen_loop ps w1
     else bindE (Setsockopt (sys_val a) SOL_SOCKET SO_REUSEADDR w1) (\<lambda>(_, w).
       bindE (Bind (sys_val a) (ai_addr p) w) (\<lambda>(b, w).
       if b = 0 then Inr (Some (sys_val a), w)
       else bindE (sys (CClose (sys_val a)) w) (\<lambda>(_, w). listen_loop ps w)))) = Inr (r, w')"
    by (auto simp: bindE_eq_Inr)
  note s1 = sys_result [OF sock Cons.prems(2)]
  show ?case
  proof (cases a)
    case (SysErr e)
    with more Cons.IH [of w1] s1 show ?thesis by auto
  next
    case (SysOk fd)
    from s1 SysOk more [unfolded SysOk sys_val_simps] obtain v w2 b w3 where fd: "0 \<le> fd"
      and opt: "Setsockopt fd SOL_SOCKET SO_REUSEADDR w1 = Inr (v, w2)"
      and bnd: "Bind fd (ai_addr p) w2 = Inr (b, w3)"
      and rest: "(if b = 0 then Inr (Some fd, w3)
        else bindE (sys (CClose fd) w3) (\<lambda>(_, w). listen_loop ps w)) = Inr (r, w')"
      by (auto simp: bindE_eq_Inr simp del: if_split)
    from Setsockopt.result [OF _ opt] s1 have s2: "kernel_ok w2" "live (trace w2) = live (trace w1)" by auto
    from Bind.result [OF s2(1) bnd] have s3: "kernel_ok w3" "live (trace w3) = live (trace w2)"
      "trace w3 = trace w2 @ [(CBind fd (ai_addr p), SysOk b)]" by auto
    show ?thesis
    proof (cases "b = 0")
      case True
      with rest s1 s2 s3 SysOk fd show ?thesis by auto
    next
      case False
      with rest obtain c w4 where cl: "sys (CClose fd) w3 = Inr (c, w4)" "listen_loop ps w4 = Inr (r, w')"
        by (auto simp: bindE_eq_Inr)
      from sys_result [OF cl(1) s3(1)] have s4: "kernel_ok w4" "live (trace w4) = live (trace w)"
        using s1 s2 s3 SysOk by auto
      from Cons.IH [OF cl(2) s4(1)] s4(2) show ?thesis by auto
    qed
  qed
qed simp

section \<open>Properties\<close>

text \<open>
  \<open>open_clientfd\<close> leaks no descriptor: it returns -1 with every socket it
  opened closed again, or the one open descriptor it added, whose connection to
  one of the addresses was the last call it made.
\<close>

theorem open_clientfd_no_leak:
  assumes "kernel_ok w" "open_clientfd host port listp w = Inr (fd, w')"
  shows "(fd = - 1 \<and> live (trace w') = live (trace w)) \<or>
    (0 \<le> fd \<and> live (trace w') = add_mset fd (live (trace w)) \<and>
      (\<exists>p\<in>set listp. \<exists>v tr. trace w' = tr @ [(CConnect fd (ai_addr p), SysOk v)]))"
proof -
  from assms(2) obtain v w1 p where ga: "Getaddrinfo host port (or AI_NUMERICSERV AI_ADDRCONFIG) w = Inr (v, w1)"
    and lp: "client_loop listp w1 = Inr (p, w')" and fd: "case_option (- 1) id p = fd"
    by (fastforce simp: open_clientfd_def bindE_eq_Inr split: option.splits)
  from Getaddrinfo.result [OF assms(1) ga] have "kernel_ok w1" "live (trace w1) = live (trace w)" by auto
  with client_loop_live [OF lp] fd show ?thesis by (cases p) auto
qed

definition addr :: "nat \<Rightarrow> addrinfo" where
  "addr n = \<lparr>ai_family = AF_INET, ai_socktype = SOCK_STREAM, ai_protocol = 0, ai_addr = n\<rparr>"

theorem open_clientfd_no_leak_witness:
  "\<exists>w'. open_clientfd ''localhost'' ''80'' [addr 1, addr 2]
      \<lparr>outcomes = [SysOk 0, SysOk 5, SysErr (EOTHER 111), SysOk 0, SysOk 5, SysOk 0], trace = []\<rparr> = Inr (5, w') \<and>
    live (trace w') = {#5#}"
proof -
  let ?w = "\<lparr>outcomes = [SysOk 0, SysOk 5, SysErr (EOTHER 111), SysOk 0, SysOk 5, SysOk 0], trace = []\<rparr>"
  obtain w' where w': "open_clientfd ''localhost'' ''80'' [addr 1, addr 2] ?w = Inr (5, w')"
    by (simp add: open_clientfd_def Getaddrinfo_def addr_def)
  from open_clientfd_no_leak [OF _ w'] show ?thesis using w' by (simp add: kernel_ok_def live_def)
qed

text \<open>
  C23. \<open>open_listenfd\<close> leaks no descriptor and returns either -1 or a descriptor
  that was bound to one of the addresses and on which it then listened.
\<close>

theorem open_listenfd_listens:
  assumes "kernel_ok w" "open_listenfd host port listp w = Inr (fd, w')"
  shows "(fd = - 1 \<and> live (trace w') = live (trace w)) \<or>
    (0 \<le> fd \<and> live (trace w') = add_mset fd (live (trace w)) \<and>
      (\<exists>p\<in>set listp. \<exists>v tr. trace w' = tr @ [(CBind fd (ai_addr p), SysOk 0), (CListen fd LISTEN_NUM, SysOk v)]))"
proof -
  from assms(2) obtain v w1 p w2 where ga: "Getaddrinfo host port (or AI_PASSIVE AI_ADDRCONFIG) w = Inr (v, w1)"
    and lp: "listen_loop listp w1 = Inr (p, w2)"
    and rest: "(case p of None \<Rightarrow> Inr (- 1, w2) | Some listenfd \<Rightarrow>
         bindE (Listen listenfd LISTEN_NUM w2) (\<lambda>(l, w).
         if l < 0 then bindE (sys (CClose listenfd) w) (\<lambda>(_, w). Inr (- 1, w)) else Inr (listenfd, w))) = Inr (fd, w')"
    by (auto simp: open_listenfd_def bindE_eq_Inr)
  from Getaddrinfo.result [OF assms(1) ga] have w1: "kernel_ok w1" "live (trace w1) = live (trace w)" by auto
  note loop = listen_loop_live [OF lp w1(1)]
  show ?thesis
  proof (cases p)
    case None
    with rest loop w1 show ?thesis by auto
  next
    case (Some f)
    with rest obtain l w3 where li: "Listen f LISTEN_NUM w2 = Inr (l, w3)"
      and fin: "(if l < 0 then bindE (sys (CClose f) w3) (\<lambda>(_, w). Inr (- 1, w)) else Inr (f, w3)) = Inr (fd, w')"
      by (auto simp: bindE_eq_Inr)
    from Listen.result [OF _ li] loop have "0 \<le> l" "trace w3 = trace w2 @ [(CListen f LISTEN_NUM, SysOk l)]" by auto
    with fin loop Some w1 show ?thesis by auto
  qed
qed

theorem open_listenfd_listens_witness:
  "\<exists>w'. open_listenfd ''127.0.0.1'' ''8080'' [addr 1]
      \<lparr>outcomes = [SysOk 0, SysOk 4, SysOk 0, SysOk 0, SysOk 0], trace = []\<rparr> = Inr (4, w') \<and> live (trace w') = {#4#}"
proof -
  let ?w = "\<lparr>outcomes = [SysOk 0, SysOk 4, SysOk 0, SysOk 0, SysOk 0], trace = []\<rparr>"
  obtain w' where w': "open_listenfd ''127.0.0.1'' ''8080'' [addr 1] ?w = Inr (4, w')"
    by (simp add: open_listenfd_def Getaddrinfo_def Setsockopt_def Bind_def Listen_def addr_def)
  from open_listenfd_listens [OF _ w'] show ?thesis using w' by (simp add: kernel_ok_def live_def)
qed

text \<open>
  A port in use ends the server: when \<open>bind\<close> fails on an address, \<open>open_listenfd\<close>
  does not go on to the remaining addresses but exits.
\<close>

theorem open_listenfd_bind_exits:
  assumes "outcomes w = SysOk 0 # SysOk fd # SysOk 0 # SysErr e # rs" "0 \<le> fd"
  shows "open_listenfd host port (p # ps) w = Inl (Exited 0)"
  using assms by (simp add: open_listenfd_def Getaddrinfo_def Setsockopt_def Bind_def unix_error_def)

theorem open_listenfd_bind_exits_witness:
  "open_listenfd ''127.0.0.1'' ''8080'' [addr 1, addr 2]
     \<lparr>outcomes = [SysOk 0, SysOk 4, SysOk 0, SysErr (EOTHER 98), SysOk 0], trace = []\<rparr> = Inl (Exited 0)"
  by (rule open_listenfd_bind_exits [of _ 4 "EOTHER 98" "[SysOk 0]"]) simp_all

text \<open>
  What the kernel does with a message between two processes: \<open>ts\<close> and \<open>tr\<close> are the
  descriptor tables of the sender and the receiver, which say what each open
  descriptor refers to.  A descriptor that the sender does not have open makes
  \<open>sendmsg\<close> fail (\<open>None\<close>); otherwise what it refers to is installed in the
  receiver's table under the number \<open>f\<close>, which stands in the message received.
\<close>

definition pass_message ::
  "(int \<rightharpoonup> 'f) \<Rightarrow> (int \<rightharpoonup> 'f) \<Rightarrow> int \<Rightarrow> msghdr \<Rightarrow> (rcv \<times> (int \<rightharpoonup> 'f)) option" where
  "pass_message ts tr f msg =
     (case msg_control msg of
        None \<Rightarrow> Some (RcvMsg (msg_iov msg) None, tr)
      | Some c \<Rightarrow>
          (case ts (cmsg_data c) of
             None \<Rightarrow> None
           | Some file \<Rightarrow> Some (RcvMsg (msg_iov msg) (Some (c\<lparr>cmsg_data := f\<rparr>)), tr(f \<mapsto> file))))"

text \<open>
  C24. Passing a descriptor: when the message that \<open>Sock_fd_write\<close> builds for an
  open descriptor \<open>fd\<close> is delivered, \<open>Sock_fd_read\<close> reports the same data and a
  descriptor that refers, in the receiving process, to exactly the open file that
  \<open>fd\<close> refers to in the sending one, whatever else the sender has open; the
  receiver's other descriptors are unchanged.  The call of \<open>sendmsg\<close> names \<open>fd\<close>.
  For -1 no descriptor is passed and \<open>Sock_fd_read\<close> reports -1.
\<close>

theorem Sock_fd_roundtrip:
  assumes "Sock_fd_write sock buf n fd w = Inr (s, m, w')" "n \<le> bufsize"
    and "fd = - 1 \<or> ts fd = Some file" "tr f = None"
  shows "\<exists>r tr' f' res. pass_message ts tr f m = Some (r, tr') \<and>
    Sock_fd_read r g bufsize (Some old) = Inr (int n, take n buf, Some f') \<and>
    (if fd = - 1 then f' = - 1 \<and> tr' = tr else tr' f' = ts fd \<and> tr' = tr(f' \<mapsto> file) \<and> tr f' = None) \<and>
    trace w' = trace w @ [(CSendmsg sock fd, res)] \<and> s = sys_val res"
  using assms
  by (auto simp: Sock_fd_write_def Sock_fd_read_def pass_message_def passed_fd_def Let_def
      bindE_eq_Inr sys_Inr split: if_splits)

theorem Sock_fd_roundtrip_witness:
  "\<exists>m w'. Sock_fd_write 4 ''ab'' 2 7 \<lparr>outcomes = [SysOk 2], trace = []\<rparr> = Inr (2, m, w') \<and>
    (\<exists>r tr' f' res. pass_message [0 \<mapsto> ''terminal'', 7 \<mapsto> ''client''] [0 \<mapsto> ''terminal''] 12 m = Some (r, tr') \<and>
      Sock_fd_read r \<lparr>cmsg_len = 0, cmsg_level = 0, cmsg_type = 0, cmsg_data = 0\<rparr> 2 (Some 0) = Inr (2, ''ab'', Some f') \<and>
      tr' f' = Some ''client'' \<and> trace w' = [(CSendmsg 4 7, res)])"
proof -
  obtain m w' where m: "Sock_fd_write 4 ''ab'' 2 7 \<lparr>outcomes = [SysOk 2], trace = []\<rparr> = Inr (2, m, w')"
    by (simp add: Sock_fd_write_def Let_def)
  with Sock_fd_roundtrip [OF m, of 2 "[0 \<mapsto> ''terminal'', 7 \<mapsto> ''client'']" "''client''" "[0 \<mapsto> ''terminal'']" 12
      "\<lparr>cmsg_len = 0, cmsg_level = 0, cmsg_type = 0, cmsg_data = 0\<rparr>" 0]
  show ?thesis by auto
qed

end
