(* ===== verification/C_Strings.thy ===== *)
theory C_Strings
  imports Http_Prelude
begin

text \<open>
  The C arrays of characters and the functions of the C library the server
  applies to them.  An array is the list of its cells; an access outside of
  it is undefined behaviour and stops the execution.  The string functions
  read cells until the terminating NUL, as the library does, and the tokenizer
  \<open>strtok\<close> overwrites the delimiter in place and keeps its position.  The last
  part relates \<open>strtok\<close> on an array to a tokenizer on lists of characters.
\<close>

section \<open>Characters\<close>

abbreviation NUL :: char where "NUL \<equiv> CHR 0x00"
abbreviation CR :: char where "CR \<equiv> CHR 0x0D"
abbreviation LF :: char where "LF \<equiv> CHR 0x0A"
abbreviation CRLF :: string where "CRLF \<equiv> [CR, LF]"

definition isspace :: "char \<Rightarrow> bool" where
  "isspace c = List.member [CHR '' '', CHR 0x09, LF, CHR 0x0B, CHR 0x0C, CR] c"

definition tolower :: "char \<Rightarrow> char" where
  "tolower c = (let n = of_char c :: nat in if 65 \<le> n \<and> n \<le> 90 then char_of (n + 32) else c)"

lemma isspace_simps [simp]:
  "isspace (CHR '' '')" "isspace LF" "isspace CR" "\<not> isspace NUL"
  by (simp_all add: isspace_def)

section \<open>Arrays\<close>

type_synonym carray = "char list"

definition rd :: "carray \<Rightarrow> nat \<Rightarrow> char exec" where
  "rd b i = (if i < length b then Inr (b ! i) else Inl (Undef ReadOOB))"

definition wr :: "carray \<Rightarrow> nat \<Rightarrow> char \<Rightarrow> carray exec" where
  "wr b i c = (if i < length b then Inr (b[i := c]) else Inl (Undef WriteOOB))"

lemma wr_length: "wr b i c = Inr b' \<Longrightarrow> length b' = length b"
  by (auto simp: wr_def split: if_splits)

text \<open>The C string that starts at a cell: the characters before the next NUL.\<close>

fun c_str :: "carray \<Rightarrow> string option" where
  "c_str [] = None"
| "c_str (c # cs) = (if c = NUL then Some [] else map_option (Cons c) (c_str cs))"

definition str_at :: "carray \<Rightarrow> nat \<Rightarrow> string exec" where
  "str_at b p = (case c_str (drop p b) of None \<Rightarrow> Inl (Undef ReadOOB) | Some s \<Rightarrow> Inr s)"

lemma c_str_Some: "c_str b = Some s \<longleftrightarrow> NUL \<notin> set s \<and> (\<exists>post. b = s @ NUL # post)"
proof (induction b arbitrary: s)
  case Nil
  then show ?case by simp
next
  case (Cons c cs)
  then show ?case by (cases s) auto
qed

lemma c_str_append [simp]: "NUL \<notin> set s \<Longrightarrow> c_str (s @ NUL # post) = Some s"
  by (simp add: c_str_Some)

lemma c_str_None: "c_str b = None \<longleftrightarrow> NUL \<notin> set b"
  by (induction b) auto

lemma str_at_Inr:
  "str_at b p = Inr s \<longleftrightarrow>
     NUL \<notin> set s \<and> (\<exists>pre post. b = pre @ s @ NUL # post \<and> length pre = p)"
  (is "?L \<longleftrightarrow> ?R")
proof
  assume ?L
  then have c: "c_str (drop p b) = Some s"
    by (simp add: str_at_def split: option.splits)
  then have "p < length b"
    by (cases "p < length b") auto
  moreover from c obtain post where "drop p b = s @ NUL # post" and "NUL \<notin> set s"
    by (auto simp: c_str_Some)
  moreover from \<open>drop p b = s @ NUL # post\<close> have "b = take p b @ s @ NUL # post"
    by (metis append_take_drop_id)
  ultimately show ?R by fastforce
next
  assume ?R
  then show ?L by (auto simp: str_at_def)
qed

lemma str_at_append [simp]:
  "NUL \<notin> set s \<Longrightarrow> p = length pre \<Longrightarrow> str_at (pre @ s @ NUL # post) p = Inr s"
  by (auto simp: str_at_Inr)

lemma str_at_bound: "str_at b p = Inr s \<Longrightarrow> p + length s < length b"
  by (auto simp: str_at_Inr)

lemma str_at_cases: "str_at b p = Inl e \<Longrightarrow> e = Undef ReadOOB"
  by (auto simp: str_at_def split: option.splits)

lemma str_at_Suc: "str_at b p = Inr (c # s) \<Longrightarrow> str_at b (Suc p) = Inr s"
proof -
  assume "str_at b p = Inr (c # s)"
  then obtain pre post where "b = pre @ (c # s) @ NUL # post" "length pre = p" "NUL \<notin> set (c # s)"
    by (auto simp: str_at_Inr)
  then have "b = (pre @ [c]) @ s @ NUL # post" and "length (pre @ [c]) = Suc p" and "NUL \<notin> set s"
    by auto
  then show ?thesis unfolding str_at_Inr by blast
qed

text \<open>Writing a C string (with its NUL) into an array: \<open>strcpy\<close>, \<open>sprintf\<close>.\<close>

definition put_str :: "carray \<Rightarrow> nat \<Rightarrow> string \<Rightarrow> carray exec" where
  "put_str b p s =
     (if p + length s < length b
      then Inr (take p b @ s @ NUL # drop (p + length s + 1) b)
      else Inl (Undef WriteOOB))"

definition strcat :: "carray \<Rightarrow> string \<Rightarrow> carray exec" where
  "strcat b s = bindE (str_at b 0) (\<lambda>t. put_str b (length t) s)"

lemma put_str_length: "put_str b p s = Inr b' \<Longrightarrow> length b' = length b"
  by (auto simp: put_str_def split: if_splits)

lemma strcat_stops: "strcat b s = Inl e \<Longrightarrow> \<exists>x. e = Undef x"
  by (auto simp: strcat_def str_at_def put_str_def bindE_eq_Inl split: option.splits if_splits)

lemma put_str_0: "length s < length b \<Longrightarrow> put_str b 0 s = Inr (s @ NUL # drop (length s + 1) b)"
  by (simp add: put_str_def)

lemma str_at_put_str:
  "put_str b p s = Inr b' \<Longrightarrow> NUL \<notin> set s \<Longrightarrow> str_at b' p = Inr s"
  by (auto simp: put_str_def split: if_splits)

lemma strcat_str:
  "NUL \<notin> set t \<Longrightarrow> length t + length s < length (t @ NUL # post) \<Longrightarrow>
   strcat (t @ NUL # post) s = Inr (t @ s @ NUL # drop (length s) post)"
  using str_at_append [of t 0 "[]" post] by (simp add: strcat_def put_str_def)

section \<open>String functions\<close>

definition strspn :: "string \<Rightarrow> string \<Rightarrow> nat" where
  "strspn s accept = length (takeWhile (\<lambda>c. c \<in> set accept) s)"

definition strcspn :: "string \<Rightarrow> string \<Rightarrow> nat" where
  "strcspn s reject = length (takeWhile (\<lambda>c. c \<notin> set reject) s)"

fun is_prefix :: "string \<Rightarrow> string \<Rightarrow> bool" where
  "is_prefix [] _ = True"
| "is_prefix (_ # _) [] = False"
| "is_prefix (x # xs) (y # ys) = (x = y \<and> is_prefix xs ys)"

text \<open>The offset of the first occurrence of a string, \<open>None\<close> for NULL.\<close>

fun strstr :: "string \<Rightarrow> string \<Rightarrow> nat option" where
  "strstr [] needle = (if needle = [] then Some 0 else None)"
| "strstr (c # s) needle =
     (if is_prefix needle (c # s) then Some 0 else map_option Suc (strstr s needle))"

text \<open>\<open>strncmp(s, t, n) == 0\<close> and \<open>strcasecmp(s, t) == 0\<close>.\<close>

definition strncmp_eq :: "string \<Rightarrow> string \<Rightarrow> nat \<Rightarrow> bool" where
  "strncmp_eq s t n = (take n s = take n t)"

definition strcasecmp_eq :: "string \<Rightarrow> string \<Rightarrow> bool" where
  "strcasecmp_eq s t = (map tolower s = map tolower t)"

text \<open>The part of a string after its last \<open>c\<close> (\<open>strrchr\<close> plus one), \<open>None\<close> for NULL.\<close>

definition after_last :: "char \<Rightarrow> string \<Rightarrow> string option" where
  "after_last c s =
     (if c \<in> set s then Some (rev (takeWhile (\<lambda>x. x \<noteq> c) (rev s))) else None)"

text \<open>Decimal output of \<open>printf("%d")\<close> and \<open>printf("%ld")\<close>.\<close>

definition digit :: "nat \<Rightarrow> char" where
  "digit d = char_of (48 + d)"

fun dec_nat :: "nat \<Rightarrow> string" where
  "dec_nat n = (if n < 10 then [digit n] else dec_nat (n div 10) @ [digit (n mod 10)])"

declare dec_nat.simps [simp del]

definition dec_int :: "int \<Rightarrow> string" where
  "dec_int i = (if i < 0 then CHR ''-'' # dec_nat (nat (- i)) else dec_nat (nat i))"

definition dec_value :: "string \<Rightarrow> nat" where
  "dec_value s = foldl (\<lambda>n c. 10 * n + (of_char c - 48)) 0 s"

lemma of_char_digit: "d < 10 \<Longrightarrow> of_char (digit d) = 48 + d"
  by (simp add: digit_def)

lemma dec_value_dec_nat: "dec_value (dec_nat n) = n"
proof (induction n rule: dec_nat.induct)
  case (1 n)
  show ?case
  proof (cases "n < 10")
    case True
    then show ?thesis
      by (simp add: dec_nat.simps [of n] dec_value_def of_char_digit)
  next
    case False
    with 1 have "dec_value (dec_nat (n div 10)) = n div 10" by simp
    with False show ?thesis
      by (simp add: dec_nat.simps [of n] dec_value_def of_char_digit)
  qed
qed

lemma is_prefix_append [simp]: "is_prefix p (p @ s)"
  by (induction p) auto

lemma strstr_None: "strstr s t = None \<longleftrightarrow> (\<nexists>u v. s = u @ t @ v)"
proof (induction s)
  case Nil
  then show ?case by auto
next
  case (Cons c s)
  have pre: "is_prefix t r \<longleftrightarrow> (\<exists>v. r = t @ v)" for r
    by (induction t r rule: is_prefix.induct) auto
  show ?case
  proof (cases "is_prefix t (c # s)")
    case True
    then obtain v where "c # s = [] @ t @ v" by (auto simp: pre)
    then have "\<exists>u v. c # s = u @ t @ v" by blast
    with True show ?thesis by simp
  next
    case False
    then have "(\<exists>u v. c # s = u @ t @ v) \<longleftrightarrow> (\<exists>u v. s = u @ t @ v)"
      by (auto simp: pre) (metis Cons_eq_append_conv append_Cons)+
    with False Cons.IH show ?thesis by simp
  qed
qed

section \<open>The tokenizer\<close>

text \<open>
  \<open>strtok\<close> with the saved position \<open>s\<close> (the first call passes the start of the
  array).  It skips delimiters, ends the token by overwriting the delimiter
  with NUL and saves the position behind it.  The result is the position of
  the token (\<open>None\<close> for NULL), the array and the saved position.
\<close>

definition strtok :: "carray \<Rightarrow> nat \<Rightarrow> string \<Rightarrow> (nat option \<times> carray \<times> nat) exec" where
  "strtok b s delim =
     bindE (str_at b s) (\<lambda>t.
       let p = s + strspn t delim; rest = drop (strspn t delim) t in
       if rest = [] then Inr (None, b, p)
       else
         let n = strcspn rest delim in
         if n = length rest then Inr (Some p, b, p + n)
         else Inr (Some p, b[p + n := NUL], p + n + 1))"

text \<open>The same on the remaining text alone: the token and what follows it.\<close>

definition tok :: "string \<Rightarrow> string \<Rightarrow> (string \<times> string) option" where
  "tok delim t =
     (let r = dropWhile (\<lambda>c. c \<in> set delim) t in
      if r = [] then None
      else Some (takeWhile (\<lambda>c. c \<notin> set delim) r,
                 drop 1 (dropWhile (\<lambda>c. c \<notin> set delim) r)))"

lemma tok_None: "tok d t = None \<longleftrightarrow> (\<forall>c\<in>set t. c \<in> set d)"
  by (simp add: tok_def Let_def dropWhile_eq_Nil_conv)

lemma tok_decomp:
  assumes "tok d t = Some (x, r)"
  shows "\<exists>lead sep. t = lead @ x @ sep @ r \<and> x \<noteq> [] \<and> set lead \<subseteq> set d \<and> set x \<inter> set d = {}
    \<and> (sep = [] \<and> r = [] \<or> (\<exists>e. sep = [e] \<and> e \<in> set d))"
proof -
  define u where "u = dropWhile (\<lambda>c. c \<in> set d) t"
  define w where "w = dropWhile (\<lambda>c. c \<notin> set d) u"
  from assms have u: "u \<noteq> []" and x: "x = takeWhile (\<lambda>c. c \<notin> set d) u" and r: "r = drop 1 w"
    by (auto simp: tok_def u_def w_def Let_def split: if_splits)
  from u have "hd u \<notin> set d"
    unfolding u_def by (rule hd_dropWhile)
  with u x have "x \<noteq> []" by (cases u) auto
  moreover obtain sep where sep: "w = sep @ r"
    "sep = [] \<and> r = [] \<or> (\<exists>e. sep = [e] \<and> e \<in> set d)"
  proof (cases w)
    case Nil
    with r that [of "[]"] show ?thesis by simp
  next
    case (Cons e w')
    then have "hd w \<in> set d"
      using hd_dropWhile [of "\<lambda>c. c \<notin> set d" u] by (simp add: w_def)
    with Cons r that [of "[e]"] show ?thesis by simp
  qed
  moreover have "t = takeWhile (\<lambda>c. c \<in> set d) t @ x @ sep @ r"
    using x by (simp add: u_def w_def flip: sep(1))
  moreover have "set (takeWhile (\<lambda>c. c \<in> set d) t) \<subseteq> set d" "set x \<inter> set d = {}"
    using x by (auto dest: set_takeWhileD)
  ultimately show ?thesis by blast
qed

lemma tok_length: "tok d t = Some (x, r) \<Longrightarrow> 0 < length x \<and> length x + length r \<le> length t"
  by (auto dest!: tok_decomp)

lemma tok_less: "tok d t = Some (x, r) \<Longrightarrow> length r < length t"
  using tok_length [of d t x r] by (cases x) auto

lemma tok_set: "tok d t = Some (x, r) \<Longrightarrow> set x \<subseteq> set t \<and> set r \<subseteq> set t"
  by (auto dest!: tok_decomp)

lemma tok_word [simp]:
  "w \<noteq> [] \<Longrightarrow> set w \<inter> set d = {} \<Longrightarrow> e \<in> set d \<Longrightarrow> tok d (w @ e # r) = Some (w, r)"
  by (cases w) (auto simp: tok_def disjoint_iff)

lemma tok_prefix:
  assumes "w \<noteq> []" and "set w \<inter> set d = {}"
  shows "\<exists>w' r'. tok d (w @ r) = Some (w @ w', r')"
proof -
  obtain c cs where w: "w = c # cs" using assms(1) by (cases w) auto
  with assms(2) have "dropWhile (\<lambda>c. c \<in> set d) (w @ r) = w @ r" by simp
  moreover have "takeWhile (\<lambda>c. c \<notin> set d) (w @ r) = w @ takeWhile (\<lambda>c. c \<notin> set d) r"
    using assms(2) by (simp add: takeWhile_append2 disjoint_iff)
  ultimately show ?thesis using assms(1) by (simp add: tok_def)
qed

text \<open>
  \<open>strtok\<close> implements \<open>tok\<close>: the token and the rest of the text are the C
  strings at the returned and at the saved position.
\<close>

lemma strtok_None:
  assumes "str_at b s = Inr t" and "tok d t = None"
  shows "strtok b s d = Inr (None, b, s + length t)"
proof -
  from assms(2) have "strspn t d = length t"
    unfolding tok_None strspn_def by (simp only: takeWhile_length_eq)
  with assms(1) show ?thesis by (simp add: strtok_def)
qed

lemma strtok_Some:
  assumes t: "str_at b s = Inr t" and tk: "tok d t = Some (x, r)"
  shows "\<exists>p b'. strtok b s d = Inr (Some p, b', s + (length t - length r)) \<and>
    str_at b' p = Inr x \<and> str_at b' (s + (length t - length r)) = Inr r \<and> length b' = length b"
proof -
  from t obtain pre post where b: "b = pre @ t @ NUL # post" and s: "s = length pre"
    and nul: "NUL \<notin> set t"
    by (auto simp: str_at_Inr)
  from tk obtain lead sep where dec: "t = lead @ x @ sep @ r" "x \<noteq> []" "set lead \<subseteq> set d"
    "set x \<inter> set d = {}" and sep: "sep = [] \<and> r = [] \<or> (\<exists>e. sep = [e] \<and> e \<in> set d)"
    by (auto dest!: tok_decomp)
  from dec(2,4) obtain y ys where x: "x = y # ys" "y \<notin> set d" by (cases x) auto
  have lead: "strspn t d = length lead"
    using dec x by (simp add: strspn_def takeWhile_append2 subset_iff)
  have "\<forall>c\<in>set x. c \<notin> set d" using dec(4) by auto
  then have len: "strcspn (x @ sep @ r) d = length x"
    using sep by (auto simp: strcspn_def takeWhile_append2)
  let ?p = "s + length lead"
  from nul dec(1) have nulx: "NUL \<notin> set x" "NUL \<notin> set r" by auto
  from sep show ?thesis
  proof
    assume e: "sep = [] \<and> r = []"
    have "strtok b s d = Inr (Some ?p, b, ?p + length x)"
      using t lead len e dec(1,2) by (simp add: strtok_def Let_def)
    moreover have "str_at b ?p = Inr x" "str_at b (?p + length x) = Inr []"
      using b dec(1) e nulx s str_at_append [of x ?p "pre @ lead" post]
        str_at_append [of "[]" "?p + length x" "pre @ lead @ x" post] by simp_all
    ultimately show ?thesis using e dec(1) by (simp add: add.assoc)
  next
    assume "\<exists>e. sep = [e] \<and> e \<in> set d"
    then obtain e where e: "sep = [e]" by blast
    let ?b = "pre @ lead @ x @ NUL # r @ NUL # post"
    have "b[?p + length x := NUL] = ?b"
      using b s dec(1) e by (simp add: list_update_append)
    then have "strtok b s d = Inr (Some ?p, ?b, ?p + length x + 1)"
      using t lead len e dec(1,2) by (simp add: strtok_def Let_def)
    moreover have "str_at ?b ?p = Inr x" "str_at ?b (?p + length x + 1) = Inr r"
      using nulx s str_at_append [of x ?p "pre @ lead" "r @ NUL # post"]
        str_at_append [of r "?p + length x + 1" "pre @ lead @ x @ [NUL]" post] by simp_all
    ultimately show ?thesis using e dec(1) b by (simp add: add.assoc)
  qed
qed

lemma str_at_tl:
  "str_at b p = Inr x \<Longrightarrow> x \<noteq> [] \<Longrightarrow> str_at b (Suc p) = Inr (tl x)"
  by (cases x) (auto dest: str_at_Suc)

lemma strtok_cases:
  assumes "str_at b s = Inr t"
  obtains (none) "tok d t = None" "strtok b s d = Inr (None, b, s + length t)"
  | (token) x r p b' s' where "tok d t = Some (x, r)" "strtok b s d = Inr (Some p, b', s')"
      "str_at b' p = Inr x" "str_at b' (Suc p) = Inr (tl x)" "str_at b' s' = Inr r"
proof (cases "tok d t")
  case None
  with assms none show ?thesis by (simp add: strtok_None)
next
  case (Some xr)
  then obtain x r where xr: "tok d t = Some (x, r)" by (cases xr) auto
  have "x \<noteq> []" using tok_length [OF xr] by simp
  with strtok_Some [OF assms xr] xr token show ?thesis
    by (blast intro: str_at_tl)
qed

lemma strtok_progress:
  assumes "strtok b s d = Inr (Some p, b', s')"
  shows "s < s' \<and> s' < length b \<and> length b' = length b"
proof -
  from assms obtain t where t: "str_at b s = Inr t"
    by (auto simp: strtok_def bindE_eq_Inr)
  show ?thesis
  proof (cases "tok d t")
    case None
    with t assms show ?thesis by (simp add: strtok_None)
  next
    case (Some xr)
    then obtain x r where xr: "tok d t = Some (x, r)" by (cases xr) auto
    have len: "0 < length x" "length x + length r \<le> length t" "s + length t < length b"
      using tok_length [OF xr] str_at_bound [OF t] by auto
    from strtok_Some [OF t xr] assms
    have "s' = s + (length t - length r)" "length b' = length b" by auto
    with len show ?thesis by linarith
  qed
qed

lemma strtok_Inl: "strtok b s d = Inl e \<Longrightarrow> str_at b s = Inl e"
  by (auto simp: strtok_def bindE_eq_Inl Let_def split: if_splits)

end
