(* ===== verification/Socket_IO.thy ===== *)
theory Socket_IO
  imports C_Strings "HOL-Library.Stream"
begin

text \<open>
  The transfer loops: \<open>http_send\<close>, \<open>http_rcv\<close> and \<open>readline\<close> of
  \<open>http_module/http_module.h\<close>, \<open>Read_s\<close> and \<open>Write_s\<close> of \<open>inc/sock.h\<close> (the same
  text is in \<open>inc/common.h\<close>) and \<open>rio_read\<close>, \<open>rio_write\<close> of \<open>utils/rio_r_w.h\<close>.
  What the kernel does at the successive system calls is a script; a loop that
  reaches the end of the script waits for ever.  The bytes the peer receives
  are returned with the result.  The locale \<open>full_writer\<close> is the contract of a
  loop that writes a whole buffer.
\<close>

section \<open>Sending\<close>

definition again :: "errno \<Rightarrow> bool" where
  "again e = List.member [EINTR, EAGAIN, EWOULDBLOCK] e"

text \<open>
  \<open>http_send\<close>: \<open>cur\<close> is the offset of \<open>cur_ptr\<close> in the array \<open>buf\<close>, \<open>w\<close> what has
  been sent.
\<close>

fun http_send_loop ::
  "wr_ret list \<Rightarrow> carray \<Rightarrow> nat \<Rightarrow> int \<Rightarrow> string \<Rightarrow> (int \<times> string \<times> wr_ret list) exec" where
  "http_send_loop script buf cur nleft w =
     (if 0 < nleft then
        case script of
          [] \<Rightarrow> Inl Blocked
        | WrErr e # rs \<Rightarrow>
            if e = EINTR then http_send_loop rs buf cur nleft w
            else if e = EAGAIN \<or> e = EWOULDBLOCK then http_send_loop rs buf cur nleft w
            else Inr (- 1, w, rs)
        | WrN k # rs \<Rightarrow>
            let nsend = min k (nat nleft) in
            if length buf < cur + nsend then Inl (Undef ReadOOB)
            else if nsend = 0 then Inr (int cur, w, rs)
            else http_send_loop rs buf (cur + nsend) (nleft - int nsend) (w @ take nsend (drop cur buf))
      else Inr (int cur, w, script))"

declare http_send_loop.simps [simp del]

definition http_send :: "wr_ret list \<Rightarrow> carray \<Rightarrow> nat \<Rightarrow> (int \<times> string \<times> wr_ret list) exec" where
  "http_send script buf len = http_send_loop script buf 0 (to_int (int len)) []"

text \<open>
  The script of \<open>http_send\<close> is finite.  A socket that is not blocking answers
  every call, so the loop is here on an endless sequence of answers: \<open>None\<close> is
  a call that never returns.
\<close>

partial_function (option) http_send_on_loop ::
  "wr_ret stream \<Rightarrow> carray \<Rightarrow> nat \<Rightarrow> int \<Rightarrow> string \<Rightarrow> (int \<times> string \<times> wr_ret stream) run" where
  "http_send_on_loop answers buf cur nleft w =
     (if 0 < nleft then
        case shd answers of
          WrErr e \<Rightarrow>
            if e = EINTR then http_send_on_loop (stl answers) buf cur nleft w
            else if e = EAGAIN \<or> e = EWOULDBLOCK then http_send_on_loop (stl answers) buf cur nleft w
            else Some (Inr (- 1, w, stl answers))
        | WrN k \<Rightarrow>
            let nsend = min k (nat nleft) in
            if length buf < cur + nsend then Some (Inl (Undef ReadOOB))
            else if nsend = 0 then Some (Inr (int cur, w, stl answers))
            else http_send_on_loop (stl answers) buf (cur + nsend) (nleft - int nsend) (w @ take nsend (drop cur buf))
      else Some (Inr (int cur, w, answers)))"

definition http_send_on :: "wr_ret stream \<Rightarrow> carray \<Rightarrow> nat \<Rightarrow> (int \<times> string \<times> wr_ret stream) run" where
  "http_send_on answers buf len = http_send_on_loop answers buf 0 (to_int (int len)) []"

text \<open>One plain \<open>send\<close> whose result the program ignores.\<close>

definition raw_send :: "wr_ret list \<Rightarrow> string \<Rightarrow> (string \<times> wr_ret list) exec" where
  "raw_send script s =
     (case script of
        [] \<Rightarrow> Inl Blocked
      | WrErr _ # rs \<Rightarrow> Inr ([], rs)
      | WrN k # rs \<Rightarrow> Inr (take k s, rs))"

text \<open>\<open>rio_write\<close>: an interrupted call counts as a write of no bytes.\<close>

fun rio_write_loop ::
  "wr_ret list \<Rightarrow> carray \<Rightarrow> nat \<Rightarrow> int \<Rightarrow> nat \<Rightarrow> string \<Rightarrow> (int \<times> string \<times> wr_ret list) exec" where
  "rio_write_loop script buf ptr nleft sz w =
     (if 0 < nleft then
        case script of
          [] \<Rightarrow> Inl Blocked
        | WrErr e # rs \<Rightarrow>
            if e = EINTR then rio_write_loop rs buf ptr nleft sz w else Inr (- 1, w, rs)
        | WrN k # rs \<Rightarrow>
            let nwrite = min k (nat nleft) in
            if length buf < ptr + nwrite then Inl (Undef ReadOOB)
            else if nwrite = 0 then Inr (to_int (int sz - nleft), w, rs)
            else rio_write_loop rs buf (ptr + nwrite) (nleft - int nwrite) sz
                   (w @ take nwrite (drop ptr buf))
      else Inr (to_int (int sz - nleft), w, script))"

declare rio_write_loop.simps [simp del]

definition rio_write :: "wr_ret list \<Rightarrow> carray \<Rightarrow> nat \<Rightarrow> (int \<times> string \<times> wr_ret list) exec" where
  "rio_write script usrbuf sz = rio_write_loop script usrbuf 0 (to_int (int sz)) sz []"

text \<open>
  \<open>Write_s\<close>: \<open>nwrite\<close> is a \<open>size_t\<close>, so a failing \<open>write\<close> counts as the largest
  \<open>size_t\<close> value: \<open>nleft\<close> grows by one and \<open>buf\<close> moves back by one.
\<close>

fun Write_s_loop ::
  "wr_ret list \<Rightarrow> carray \<Rightarrow> int \<Rightarrow> int \<Rightarrow> int \<Rightarrow> string \<Rightarrow> (int \<times> string \<times> wr_ret list) exec" where
  "Write_s_loop script buf cur nleft sz w =
     (if 0 < nleft then
        case script of
          [] \<Rightarrow> Inl Blocked
        | r # rs \<Rightarrow>
            let k = (case r of WrN k \<Rightarrow> min k (nat nleft) | WrErr _ \<Rightarrow> 0);
                nwrite = to_size (case r of WrN _ \<Rightarrow> int k | WrErr _ \<Rightarrow> - 1) in
            if 0 < k \<and> (cur < 0 \<or> int (length buf) < cur + int k) then Inl (Undef ReadOOB)
            else
              let w' = w @ take k (drop (nat cur) buf) in
              if nwrite < 0 then Inr (if nleft = 0 then to_size (- 1) else to_size (sz - nleft), w', rs)
              else if nwrite = 0 then Inr (to_size (sz - nleft), w', rs)
              else Write_s_loop rs buf (cur + to_ssize nwrite) (to_ssize (to_size (nleft - nwrite))) sz w'
      else Inr (to_size (sz - nleft), w, script))"

declare Write_s_loop.simps [simp del]

definition Write_s :: "wr_ret list \<Rightarrow> carray \<Rightarrow> int \<Rightarrow> (int \<times> string \<times> wr_ret list) exec" where
  "Write_s script buf sz = Write_s_loop script buf 0 sz sz []"

section \<open>Receiving\<close>

text \<open>Storing received bytes in an array.\<close>

definition put_bytes :: "carray \<Rightarrow> nat \<Rightarrow> string \<Rightarrow> carray exec" where
  "put_bytes b p d =
     (if p + length d \<le> length b then Inr (take p b @ d @ drop (p + length d) b)
      else Inl (Undef WriteOOB))"

text \<open>
  \<open>http_rcv\<close>: the assignment \<open>nread=recv(...)<0\<close> stores the comparison, so \<open>nread\<close>
  is 1 after a failing and 0 after every other call.
\<close>

definition recv_lt0 :: "rd_ret \<Rightarrow> int" where
  "recv_lt0 r = (case r of RdErr _ \<Rightarrow> 1 | RdData _ \<Rightarrow> 0)"

definition truth :: "int \<Rightarrow> bool" where
  "truth x \<longleftrightarrow> x \<noteq> 0"

fun http_rcv_loop ::
  "rd_ret list \<Rightarrow> carray \<Rightarrow> nat \<Rightarrow> int \<Rightarrow> (int \<times> carray \<times> rd_ret list) exec" where
  "http_rcv_loop script buf cur nleft =
     (if 0 < nleft then
        case script of
          [] \<Rightarrow> Inl Blocked
        | r # rs \<Rightarrow>
            bindE (case r of RdErr e \<Rightarrow> Inr buf | RdData d \<Rightarrow> put_bytes buf cur (take (nat nleft) d)) (\<lambda>b.
              if truth (recv_lt0 r) then
                 (if r = RdErr EINTR then http_rcv_loop rs b cur nleft else Inr (- 1, b, rs))
               else if recv_lt0 r = 0 then Inr (int cur, b, rs)
               else http_rcv_loop rs b (cur + nat (recv_lt0 r)) (nleft - recv_lt0 r))
      else Inr (int cur, buf, script))"

declare http_rcv_loop.simps [simp del]

definition http_rcv :: "rd_ret list \<Rightarrow> carray \<Rightarrow> nat \<Rightarrow> (int \<times> carray \<times> rd_ret list) exec" where
  "http_rcv script buf len = http_rcv_loop script buf 0 (to_int (int len))"

text \<open>
  \<open>readline\<close> reads byte by byte; \<open>i\<close> counts the iterations (retries included)
  and \<open>cur\<close> is the offset of \<open>cur_ptr\<close>.
\<close>

fun readline_from ::
  "rd_ret list \<Rightarrow> carray \<Rightarrow> nat \<Rightarrow> nat \<Rightarrow> nat \<Rightarrow> (int \<times> carray \<times> rd_ret list) exec" where
  "readline_from script buf cur i maxlen =
     (if i < maxlen then
        case script of
          [] \<Rightarrow> Inl Blocked
        | RdErr e # rs \<Rightarrow>
            if again e then readline_from rs buf cur (i + 1) maxlen else Inr (- 1, buf, rs)
        | RdData d # rs \<Rightarrow>
            (case d of
               [] \<Rightarrow> bindE (wr buf cur NUL) (\<lambda>buf.
                       bindE (wr buf cur NUL) (\<lambda>buf. Inr (to_ssize (int i - 1), buf, rs)))
             | c # _ \<Rightarrow>
                 bindE (wr buf cur c) (\<lambda>buf.
                   if c = LF then
                     bindE (wr buf (cur + 1) NUL) (\<lambda>buf. Inr (to_ssize (int i - 1), buf, rs))
                   else readline_from rs buf (cur + 1) (i + 1) maxlen))
      else bindE (wr buf cur NUL) (\<lambda>buf. Inr (to_ssize (int i - 1), buf, script)))"

declare readline_from.simps [simp del]

definition readline :: "rd_ret list \<Rightarrow> carray \<Rightarrow> nat \<Rightarrow> (int \<times> carray \<times> rd_ret list) exec" where
  "readline script buf maxlen = readline_from script buf 0 0 maxlen"

text \<open>\<open>Read_s\<close>: an error ends the loop like an end of file.\<close>

fun Read_s_loop ::
  "rd_ret list \<Rightarrow> carray \<Rightarrow> nat \<Rightarrow> int \<Rightarrow> int \<Rightarrow> (int \<times> carray \<times> rd_ret list) exec" where
  "Read_s_loop script buf cur nleft sz =
     (if 0 < nleft then
        case script of
          [] \<Rightarrow> Inl Blocked
        | RdErr e # rs \<Rightarrow> Inr (if nleft = 0 then to_size (- 1) else to_size (sz - nleft), buf, rs)
        | RdData d # rs \<Rightarrow>
            let d' = take (nat nleft) d in
            if d' = [] then Inr (to_size (sz - nleft), buf, rs)
            else bindE (put_bytes buf cur d') (\<lambda>buf.
                   Read_s_loop rs buf (cur + length d') (to_size (nleft - int (length d'))) sz)
      else Inr (to_size (sz - nleft), buf, script))"

declare Read_s_loop.simps [simp del]

definition Read_s :: "rd_ret list \<Rightarrow> carray \<Rightarrow> int \<Rightarrow> (int \<times> carray \<times> rd_ret list) exec" where
  "Read_s script buf sz = Read_s_loop script buf 0 (to_size sz) sz"

section \<open>Buffered reading\<close>

definition RIO_BUFSIZE :: nat where "RIO_BUFSIZE = 4096"

text \<open>A reader: \<open>ptr\<close> is the offset of the member \<open>ptr\<close> in \<open>rio_buffer\<close>.\<close>

record rio_t =
  rio_fd :: int
  nread :: int
  rio_ptr :: nat
  rio_buffer :: carray

definition rio_readinit :: "rio_t \<Rightarrow> int \<Rightarrow> rio_t" where
  "rio_readinit rp f = rp\<lparr>rio_fd := f, nread := 0, rio_ptr := 0\<rparr>"

text \<open>The filling loop of \<open>rio_read\<close>; the first component is an early return value.\<close>

fun rio_fill :: "rd_ret list \<Rightarrow> rio_t \<Rightarrow> (int option \<times> rio_t \<times> rd_ret list) exec" where
  "rio_fill script rp =
     (if nread rp \<le> 0 then
        case script of
          [] \<Rightarrow> Inl Blocked
        | RdErr e # rs \<Rightarrow>
            if e = EINTR then Inr (None, rp\<lparr>nread := - 1\<rparr>, rs)
            else Inr (Some (- 1), rp\<lparr>nread := - 1\<rparr>, rs)
        | RdData d # rs \<Rightarrow>
            let d' = take (length (rio_buffer rp)) d in
            bindE (put_bytes (rio_buffer rp) 0 d') (\<lambda>b.
              if d' = [] then Inr (Some 0, rp\<lparr>nread := 0, rio_buffer := b\<rparr>, rs)
              else rio_fill rs (rp\<lparr>nread := int (length d'), rio_buffer := b, rio_ptr := 0\<rparr>))
      else Inr (None, rp, script))"

declare rio_fill.simps [simp del]

text \<open>
  \<open>rio_read\<close> copies from the start of \<open>rio_buffer\<close>, not from \<open>ptr\<close>; a negative
  count converts to a huge \<open>size_t\<close> in \<open>memcpy\<close>.
\<close>

definition rio_read ::
  "rd_ret list \<Rightarrow> rio_t \<Rightarrow> carray \<Rightarrow> nat \<Rightarrow> (int \<times> rio_t \<times> carray \<times> rd_ret list) exec" where
  "rio_read script rp usrbuf sz =
     bindE (rio_fill script rp) (\<lambda>(ret, rp, rs).
     case ret of
       Some v \<Rightarrow> Inr (v, rp, usrbuf, rs)
     | None \<Rightarrow>
         let cnt = to_int (int sz); cnt = (if nread rp < cnt then nread rp else cnt);
             n = nat (to_size cnt) in
         if length (rio_buffer rp) < n then Inl (Undef ReadOOB)
         else bindE (put_bytes usrbuf 0 (take n (rio_buffer rp))) (\<lambda>usrbuf.
           Inr (cnt, rp\<lparr>rio_ptr := rio_ptr rp + n, nread := nread rp - cnt\<rparr>, usrbuf, rs)))"


section \<open>The contract of a full write\<close>

text \<open>
  \<open>progress\<close>: the script accepts \<open>n\<close> bytes in non-empty portions, with
  retriable errors in between; the result is what is left of the script.
\<close>

fun progress :: "(errno \<Rightarrow> bool) \<Rightarrow> wr_ret list \<Rightarrow> nat \<Rightarrow> wr_ret list option" where
  "progress retry script n =
     (if n = 0 then Some script
      else case script of
        [] \<Rightarrow> None
      | WrErr e # rs \<Rightarrow> if retry e then progress retry rs n else None
      | WrN k # rs \<Rightarrow> if k = 0 then None else progress retry rs (n - k))"

declare progress.simps [simp del]

lemma progress_simps [simp]:
  "progress retry script 0 = Some script"
  "progress retry [] (Suc n) = None"
  "0 < n \<Longrightarrow> progress retry (WrErr e # rs) n = (if retry e then progress retry rs n else None)"
  "0 < n \<Longrightarrow> 0 < k \<Longrightarrow> progress retry (WrN k # rs) n = progress retry rs (n - k)"
  by (simp_all add: progress.simps)

lemma progress_WrN_zero [simp]: "0 < n \<Longrightarrow> progress retry (WrN 0 # rs) n = None"
  by (simp add: progress.simps)

text \<open>A kernel that always takes something accepts everything.\<close>

lemma progress_enough:
  "\<forall>r\<in>set script. \<exists>k>0. r = WrN k \<Longrightarrow> n \<le> length script \<Longrightarrow> \<exists>rest. progress retry script n = Some rest"
proof (induction script arbitrary: n)
  case (Cons r rs)
  from Cons.prems obtain k where "r = WrN k" "0 < k" by auto
  then show ?case
    using Cons.IH [of "n - k"] Cons.prems by (cases n) auto
qed (simp)

fun write_spec ::
  "(errno \<Rightarrow> bool) \<Rightarrow> wr_ret list \<Rightarrow> string \<Rightarrow> string \<Rightarrow> (int \<times> string \<times> wr_ret list) exec" where
  "write_spec retry script s w =
     (if s = [] then Inr (int (length w), w, script)
      else case script of
        [] \<Rightarrow> Inl Blocked
      | WrErr e # rs \<Rightarrow> if retry e then write_spec retry rs s w else Inr (- 1, w, rs)
      | WrN k # rs \<Rightarrow>
          if k = 0 then Inr (int (length w), w, rs)
          else write_spec retry rs (drop k s) (w @ take k s))"

declare write_spec.simps [simp del]

lemma write_spec_simps [simp]:
  "write_spec retry script [] w = Inr (int (length w), w, script)"
  "s \<noteq> [] \<Longrightarrow> write_spec retry [] s w = Inl Blocked"
  "s \<noteq> [] \<Longrightarrow> write_spec retry (WrErr e # rs) s w =
     (if retry e then write_spec retry rs s w else Inr (- 1, w, rs))"
  "s \<noteq> [] \<Longrightarrow> write_spec retry (WrN k # rs) s w =
     (if k = 0 then Inr (int (length w), w, rs)
      else write_spec retry rs (drop k s) (w @ take k s))"
  by (simp_all add: write_spec.simps)

lemma write_spec_progress:
  "progress retry script (length s) = Some rest \<Longrightarrow>
   write_spec retry script s w = Inr (int (length (w @ s)), w @ s, rest)"
proof (induction retry script s w rule: write_spec.induct)
  case (1 retry script s w)
  show ?case
  proof (cases "s = []")
    case False
    with "1.prems" obtain r rs where script: "script = r # rs"
      by (cases script; cases "length s") auto
    show ?thesis
    proof (cases r)
      case (WrN k)
      with False script "1.prems" have "0 < k" by (cases k) auto
      with WrN False script "1.prems" show ?thesis
        using "1.IH"(1) [OF False script WrN]
        by simp
    next
      case (WrErr e)
      with False script "1.prems" show ?thesis
        using "1.IH"(2) [OF False script WrErr]
        by (simp split: if_splits)
    qed
  qed (use "1.prems" in simp)
qed

lemma write_spec_prefix:
  "write_spec retry script s w = Inr (r, w', rest) \<Longrightarrow>
   \<exists>k\<le>length s. w' = w @ take k s \<and> (r = int (length w') \<or> r = - 1)"
proof (induction retry script s w rule: write_spec.induct)
  case (1 retry script s w)
  show ?case
  proof (cases "s = []")
    case False
    with "1.prems" obtain a rs where script: "script = a # rs"
      by (cases script) auto
    show ?thesis
    proof (cases a)
      case (WrN k)
      show ?thesis
      proof (cases "k = 0")
        case False
        with "1.prems" WrN script \<open>s \<noteq> []\<close>
        have "write_spec retry rs (drop k s) (w @ take k s) = Inr (r, w', rest)"
          by simp
        from "1.IH"(1) [OF \<open>s \<noteq> []\<close> script WrN False this] obtain j
          where "j \<le> length s - k" "w' = (w @ take k s) @ take j (drop k s)"
            "r = int (length w') \<or> r = - 1" by auto
        then show ?thesis
          by (intro exI [of _ "min (k + j) (length s)"]) (auto simp: take_add min_def)
      qed (use "1.prems" WrN script \<open>s \<noteq> []\<close> in
        \<open>auto intro!: exI [of _ 0]\<close>)
    next
      case (WrErr e)
      with "1.prems" script False show ?thesis
        using "1.IH"(2) [OF False script WrErr]
        by (cases "retry e") (auto intro!: exI [of _ 0])
    qed
  qed (use "1.prems" in auto)
qed

lemma write_spec_Inl: "write_spec retry script s w = Inl e \<Longrightarrow> e = Blocked"
  by (induction retry script s w rule: write_spec.induct)
    (subst (asm) (3) write_spec.simps, auto split: if_splits list.splits wr_ret.splits)


text \<open>What the loops have sent and what is left after the kernel took \<open>k\<close> bytes.\<close>

lemma accepted_part:
  fixes nleft :: int
  assumes "0 \<le> nleft"
  shows "take (nat (nleft - int (min k (nat nleft)))) (drop (p + min k (nat nleft)) buf)
      = drop k (take (nat nleft) (drop p buf))"
    "take (min k (nat nleft)) (drop p buf) = take k (take (nat nleft) (drop p buf))"
proof -
  have "nat (nleft - int (min k (nat nleft))) = nat nleft - min k (nat nleft)"
    by (simp add: nat_diff_distrib)
  then show "take (nat (nleft - int (min k (nat nleft)))) (drop (p + min k (nat nleft)) buf)
      = drop k (take (nat nleft) (drop p buf))"
    by (cases "k \<le> nat nleft") (simp_all add: drop_take add.commute)
qed (simp add: min.commute)

lemma again_iff: "again e \<longleftrightarrow> e = EINTR \<or> e = EAGAIN \<or> e = EWOULDBLOCK"
  by (simp add: again_def)

lemma http_send_loop_spec:
  "int cur + nleft \<le> int (length buf) \<Longrightarrow> 0 \<le> nleft \<Longrightarrow> length w = cur \<Longrightarrow>
   http_send_loop script buf cur nleft w = write_spec again script (take (nat nleft) (drop cur buf)) w"
proof (induction script arbitrary: cur nleft w)
  case Nil
  then show ?case by (auto simp: http_send_loop.simps)
next
  case (Cons r rs)
  have step: "\<not> length buf < cur + min k (nat nleft)" for k
    using Cons.prems by auto
  note more = accepted_part [OF Cons.prems(2)]
  show ?case
  proof (cases "0 < nleft")
    case True
    with Cons.prems have ne: "take (nat nleft) (drop cur buf) \<noteq> []" by auto
    show ?thesis
    proof (cases r)
      case (WrN k)
      show ?thesis
      proof (cases "k = 0")
        case False
        have "http_send_loop rs buf (cur + min k (nat nleft)) (nleft - int (min k (nat nleft)))
            (w @ take (min k (nat nleft)) (drop cur buf))
          = write_spec again rs (take (nat (nleft - int (min k (nat nleft)))) (drop (cur + min k (nat nleft)) buf))
            (w @ take (min k (nat nleft)) (drop cur buf))"
          using Cons.prems by (intro Cons.IH) auto
        then show ?thesis
          using True WrN False ne step [of k] more Cons.prems(3)
          by (subst http_send_loop.simps) (simp only: more Let_def, simp)
      qed (use True WrN ne Cons.prems step in \<open>subst http_send_loop.simps, simp add: Let_def\<close>)
    next
      case (WrErr e)
      then show ?thesis
        using True ne Cons.IH [OF Cons.prems]
        by (subst http_send_loop.simps) (auto simp: again_iff [of e])
    qed
  qed (use Cons.prems in \<open>subst http_send_loop.simps, simp\<close>)
qed

lemma http_send_spec:
  "len \<le> length buf \<Longrightarrow> len < 2 ^ 31 \<Longrightarrow>
   http_send script buf len = write_spec again script (take len buf) []"
  by (simp add: http_send_def http_send_loop_spec cint_simps)

text \<open>\<open>rio_write\<close> counts down instead of remembering the offset.\<close>

lemma rio_write_loop_send:
  "int ptr = int sz - nleft \<Longrightarrow> 0 \<le> nleft \<Longrightarrow> sz < 2 ^ 31 \<Longrightarrow> sz \<le> length buf \<Longrightarrow> length w = ptr \<Longrightarrow>
   rio_write_loop script buf ptr nleft sz w
     = write_spec (\<lambda>e. e = EINTR) script (take (nat nleft) (drop ptr buf)) w"
proof (induction script arbitrary: ptr nleft w)
  case Nil
  then show ?case by (auto simp: rio_write_loop.simps cint_simps)
next
  case (Cons r rs)
  have step: "\<not> length buf < ptr + min k (nat nleft)" for k
    using Cons.prems by auto
  have ret: "to_int (int sz - nleft) = int (length w)"
    using Cons.prems by (simp add: cint_simps)
  note more = accepted_part [OF Cons.prems(2)]
  show ?case
  proof (cases "0 < nleft")
    case True
    with Cons.prems have ne: "take (nat nleft) (drop ptr buf) \<noteq> []" by auto
    show ?thesis
    proof (cases r)
      case (WrN k)
      show ?thesis
      proof (cases "k = 0")
        case False
        have "rio_write_loop rs buf (ptr + min k (nat nleft)) (nleft - int (min k (nat nleft))) sz
            (w @ take (min k (nat nleft)) (drop ptr buf))
          = write_spec (\<lambda>e. e = EINTR) rs
            (take (nat (nleft - int (min k (nat nleft)))) (drop (ptr + min k (nat nleft)) buf))
            (w @ take (min k (nat nleft)) (drop ptr buf))"
          using Cons.prems by (intro Cons.IH) auto
        then show ?thesis
          using True WrN False ne step [of k] more ret
          by (subst rio_write_loop.simps) (simp only: more Let_def, simp)
      qed (use True WrN ne ret step in \<open>subst rio_write_loop.simps, simp add: Let_def\<close>)
    next
      case (WrErr e)
      then show ?thesis
        using True ne Cons.IH [OF Cons.prems]
        by (subst rio_write_loop.simps) auto
    qed
  qed (use Cons.prems ret in \<open>subst rio_write_loop.simps, simp\<close>)
qed

lemma rio_write_spec:
  "len \<le> length buf \<Longrightarrow> len < 2 ^ 31 \<Longrightarrow>
   rio_write script buf len = write_spec (\<lambda>e. e = EINTR) script (take len buf) []"
  by (simp add: rio_write_def rio_write_loop_send cint_simps)


text \<open>
  The interface: a call either writes a prefix of the bytes offered or waits;
  with a kernel that makes progress it writes all of them and says so.
\<close>

fun write_all ::
  "(wr_ret list \<Rightarrow> carray \<Rightarrow> nat \<Rightarrow> (int \<times> string \<times> wr_ret list) exec) \<Rightarrow>
   wr_ret list \<Rightarrow> string list \<Rightarrow> (string \<times> wr_ret list) exec" where
  "write_all wrt script [] = Inr ([], script)"
| "write_all wrt script (c # cs) =
     bindE (wrt script c (length c)) (\<lambda>(r, w, script).
     bindE (write_all wrt script cs) (\<lambda>(w', script). Inr (w @ w', script)))"

fun progress_all :: "(errno \<Rightarrow> bool) \<Rightarrow> wr_ret list \<Rightarrow> nat list \<Rightarrow> wr_ret list option" where
  "progress_all retry script [] = Some script"
| "progress_all retry script (n # ns) =
     (case progress retry script n of None \<Rightarrow> None | Some rest \<Rightarrow> progress_all retry rest ns)"

locale full_writer =
  fixes wrt :: "wr_ret list \<Rightarrow> carray \<Rightarrow> nat \<Rightarrow> (int \<times> string \<times> wr_ret list) exec"
    and retry :: "errno \<Rightarrow> bool"
  assumes complete: "progress retry script n = Some rest \<Longrightarrow> n \<le> length buf \<Longrightarrow> n < 2 ^ 31 \<Longrightarrow>
      wrt script buf n = Inr (int n, take n buf, rest)"
    and prefix: "wrt script buf n = Inr (r, w, rest) \<Longrightarrow> n \<le> length buf \<Longrightarrow> n < 2 ^ 31 \<Longrightarrow>
      \<exists>k\<le>n. w = take k buf \<and> (r = int k \<or> r = - 1)"
    and waits: "wrt script buf n = Inl e \<Longrightarrow> n \<le> length buf \<Longrightarrow> n < 2 ^ 31 \<Longrightarrow> e = Blocked"
begin

lemma write_all_complete:
  "progress_all retry script (map length cs) = Some rest \<Longrightarrow> \<forall>c\<in>set cs. length c < 2 ^ 31 \<Longrightarrow>
   write_all wrt script cs = Inr (concat cs, rest)"
  by (induction cs arbitrary: script) (auto simp: complete split: option.splits)

lemma write_all_prefixes:
  "write_all wrt script cs = Inr (w, rest) \<Longrightarrow> \<forall>c\<in>set cs. length c < 2 ^ 31 \<Longrightarrow>
   \<exists>ws. list_all2 (\<lambda>u c. \<exists>k\<le>length c. u = take k c) ws cs \<and> w = concat ws"
proof (induction cs arbitrary: script w)
  case (Cons c cs)
  then obtain r u rs w' where
    first: "wrt script c (length c) = Inr (r, u, rs)" and
    others: "write_all wrt rs cs = Inr (w', rest)" and w: "w = u @ w'"
    by (auto simp: bindE_eq_Inr)
  from Cons.IH [OF others] Cons.prems obtain ws
    where "list_all2 (\<lambda>u c. \<exists>k\<le>length c. u = take k c) ws cs" "w' = concat ws" by auto
  moreover obtain k where "k \<le> length c" "u = take k c"
    using prefix [OF first] Cons.prems by auto
  ultimately show ?case using w by (intro exI [of _ "u # ws"]) auto
qed simp

lemma full_result: "wrt script buf n = Inr (int n, w, rest) \<Longrightarrow> n \<le> length buf \<Longrightarrow> n < 2 ^ 31 \<Longrightarrow> w = take n buf"
  using prefix [of script buf n "int n" w rest] by auto

end

lemma full_writer_write_spec:
  assumes "\<And>script buf n. n \<le> length buf \<Longrightarrow> n < 2 ^ 31 \<Longrightarrow>
    wrt script buf n = write_spec retry script (take n buf) []"
  shows "full_writer wrt retry"
proof
  fix script n rest and buf :: string
  assume "progress retry script n = Some rest" "n \<le> length buf" "n < 2 ^ 31"
  then show "wrt script buf n = Inr (int n, take n buf, rest)"
    using write_spec_progress [of retry script "take n buf" rest "[]"] by (simp add: assms)
next
  fix script n r w rest and buf :: string
  assume "wrt script buf n = Inr (r, w, rest)" "n \<le> length buf" "n < 2 ^ 31"
  then have "write_spec retry script (take n buf) [] = Inr (r, w, rest)" by (simp add: assms)
  from write_spec_prefix [OF this] \<open>n \<le> length buf\<close>
  show "\<exists>k\<le>n. w = take k buf \<and> (r = int k \<or> r = - 1)"
    by (auto simp: min_def)
next
  fix script n e and buf :: string
  assume "wrt script buf n = Inl e" "n \<le> length buf" "n < 2 ^ 31"
  then show "e = Blocked" using write_spec_Inl [of retry script "take n buf" "[]"] by (simp add: assms)
qed

interpretation http_writer: full_writer http_send again
  by (rule full_writer_write_spec) (rule http_send_spec)

interpretation rio_writer: full_writer rio_write "\<lambda>e. e = EINTR"
  by (rule full_writer_write_spec) (rule rio_write_spec)


section \<open>The reading loops\<close>

lemma http_rcv_loop_step [simp]:
  "0 < nleft \<Longrightarrow> http_rcv_loop (RdErr e # rs) buf cur nleft =
     (if e = EINTR then http_rcv_loop rs buf cur nleft else Inr (- 1, buf, rs))"
  "0 < nleft \<Longrightarrow> http_rcv_loop (RdData d # rs) buf cur nleft =
     bindE (put_bytes buf cur (take (nat nleft) d)) (\<lambda>b. Inr (int cur, b, rs))"
  "nleft \<le> 0 \<Longrightarrow> http_rcv_loop script buf cur nleft = Inr (int cur, buf, script)"
  "0 < nleft \<Longrightarrow> http_rcv_loop [] buf cur nleft = Inl Blocked"
  by (simp_all add: http_rcv_loop.simps recv_lt0_def truth_def)

lemma http_rcv_loop_result:
  "http_rcv_loop script buf cur nleft = Inr (r, b, rest) \<Longrightarrow> r = int cur \<or> r = - 1"
proof (induction script arbitrary: buf)
  case Nil
  then show ?case by (cases "0 < nleft") auto
next
  case (Cons a script)
  then show ?case
    by (cases a; cases "0 < nleft") (auto simp: bindE_eq_Inr split: if_splits)
qed

lemma readline_from_retry [simp]:
  "i < maxlen \<Longrightarrow> readline_from (RdErr e # rs) buf cur i maxlen =
     (if again e then readline_from rs buf cur (i + 1) maxlen else Inr (- 1, buf, rs))"
  "i < maxlen \<Longrightarrow> readline_from (RdData [c] # rs) buf cur i maxlen =
     bindE (wr buf cur c) (\<lambda>buf.
       if c = LF then bindE (wr buf (cur + 1) NUL) (\<lambda>buf. Inr (to_ssize (int i - 1), buf, rs))
       else readline_from rs buf (cur + 1) (i + 1) maxlen)"
  by (simp_all add: readline_from.simps)

lemma wr_at: "length done_part = p \<Longrightarrow> wr (done_part @ x # ys) p c = Inr (done_part @ c # ys)"
  by (auto simp: wr_def list_update_append)

lemma readline_from_line:
  "LF \<notin> set line \<Longrightarrow> i + length line < maxlen \<Longrightarrow> length pre = cur \<Longrightarrow> length line + 1 < length tail \<Longrightarrow>
   readline_from (map (\<lambda>c. RdData [c]) (line @ [LF]) @ rest) (pre @ tail) cur i maxlen
     = Inr (to_ssize (int (i + length line) - 1), pre @ line @ [LF, NUL] @ drop (length line + 2) tail, rest)"
proof (induction line arbitrary: pre tail cur i)
  case Nil
  then obtain x y ys where tail: "tail = x # y # ys"
    by (cases tail; cases "tl tail") auto
  have "wr ((pre @ [LF]) @ y # ys) (Suc cur) NUL = Inr ((pre @ [LF]) @ NUL # ys)"
    using Nil.prems by (intro wr_at) simp
  then show ?case
    using Nil.prems wr_at [of pre cur x "y # ys" LF] by (simp add: tail)
next
  case (Cons c line)
  then obtain x ys where tail: "tail = x # ys" by (cases tail) auto
  have "readline_from (map (\<lambda>c. RdData [c]) (line @ [LF]) @ rest) ((pre @ [c]) @ ys) (cur + 1) (i + 1) maxlen
      = Inr (to_ssize (int (i + 1 + length line) - 1),
          (pre @ [c]) @ line @ [LF, NUL] @ drop (length line + 2) ys, rest)"
    using Cons.prems tail by (intro Cons.IH) auto
  then show ?case
    using Cons.prems wr_at [of pre cur x ys c] by (auto simp: tail)
qed

lemma put_bytes_at:
  "length pre = p \<Longrightarrow> length d \<le> length tail \<Longrightarrow> put_bytes (pre @ tail) p d = Inr (pre @ d @ drop (length d) tail)"
  by (simp add: put_bytes_def)

lemma Read_s_loop_data:
  "\<forall>d\<in>set ds. d \<noteq> [] \<Longrightarrow> length (concat ds) < nat nleft \<Longrightarrow> nleft < 2 ^ 63 \<Longrightarrow> nleft \<le> sz \<Longrightarrow> sz < 2 ^ 63 \<Longrightarrow>
   length pre = cur \<Longrightarrow> length (concat ds) \<le> length tail \<Longrightarrow> stop = RdData [] \<or> stop = RdErr e \<Longrightarrow>
   Read_s_loop (map RdData ds @ stop # rest) (pre @ tail) cur nleft sz
     = Inr (sz - nleft + int (length (concat ds)), pre @ concat ds @ drop (length (concat ds)) tail, rest)"
proof (induction ds arbitrary: pre tail cur nleft)
  case Nil
  then show ?case by (subst Read_s_loop.simps) (auto simp: cint_simps)
next
  case (Cons d ds)
  have "Read_s_loop (map RdData ds @ stop # rest) ((pre @ d) @ drop (length d) tail) (cur + length d)
      (nleft - int (length d)) sz
    = Inr (sz - (nleft - int (length d)) + int (length (concat ds)),
        (pre @ d) @ concat ds @ drop (length (concat ds)) (drop (length d) tail), rest)"
    using Cons.prems by (intro Cons.IH) auto
  moreover have "take (nat nleft) d = d" "d \<noteq> []" "0 < nleft" using Cons.prems by auto
  moreover have "to_size (nleft - int (length d)) = nleft - int (length d)"
    using Cons.prems by (intro to_size_id) auto
  ultimately show ?case
    using Cons.prems put_bytes_at [of pre cur d tail]
    by (subst Read_s_loop.simps) (simp add: Let_def add.commute)
qed


section \<open>Properties\<close>

lemma write_spec_cong:
  "\<forall>e. WrErr e \<in> set script \<longrightarrow> retry e = retry' e \<Longrightarrow> write_spec retry script s w = write_spec retry' script s w"
proof (induction script arbitrary: s w)
  case Nil
  then show ?case by (cases "s = []") simp_all
next
  case (Cons r rs)
  then show ?case by (cases "s = []"; cases r) auto
qed

text \<open>
  \<open>http_send\<close> sends everything: when the kernel takes the \<open>len\<close> bytes in
  non-empty portions, with EINTR, EAGAIN and EWOULDBLOCK in between, the call
  returns \<open>len\<close>, and the peer receives exactly the first \<open>len\<close> bytes of the buffer.
\<close>

theorem http_send_complete:
  "progress again script len = Some rest \<Longrightarrow> len \<le> length buf \<Longrightarrow> len < 2 ^ 31 \<Longrightarrow>
   http_send script buf len = Inr (int len, take len buf, rest)"
  by (rule http_writer.complete)

theorem http_send_complete_witness:
  "http_send [WrErr EAGAIN, WrN 2, WrErr EINTR, WrN 9, WrN 1] ''hello!'' 5 = Inr (5, ''hello'', [WrN 1])"
  using http_send_complete [of "[WrErr EAGAIN, WrN 2, WrErr EINTR, WrN 9, WrN 1]" 5 "[WrN 1]" "''hello!''"]
  by (simp add: again_iff)

text \<open>
  C33. Whatever the kernel does, \<open>http_send\<close> never reads outside the buffer and
  the peer receives a prefix of it; the result is the length of that prefix or
  -1, and a call that does not return is waiting for the kernel.
\<close>

theorem http_send_prefix:
  assumes "len \<le> length buf" "len < 2 ^ 31"
  shows "case http_send script buf len of
      Inl e \<Rightarrow> e = Blocked
    | Inr (r, w, rest) \<Rightarrow> \<exists>k\<le>len. w = take k buf \<and> (r = int k \<or> r = - 1)"
  using http_writer.prefix [OF _ assms, of script] http_writer.waits [OF _ assms, of script]
  by (auto split: sum.split)

theorem http_send_prefix_witness:
  "case http_send [WrN 2, WrErr (EOTHER 32)] ''hello'' 5 of
      Inl e \<Rightarrow> e = Blocked
    | Inr (r, w, rest) \<Rightarrow> \<exists>k\<le>5. w = take k ''hello'' \<and> (r = int k \<or> r = - 1)"
  by (rule http_send_prefix) simp_all

text \<open>
  The bytes an answer takes; the answers that keep the loop going; the answers
  after which fewer than \<open>len\<close> bytes are taken and none ever will be.
\<close>

fun bytes_taken :: "wr_ret \<Rightarrow> nat" where
  "bytes_taken (WrN k) = k"
| "bytes_taken (WrErr e) = 0"

fun goes_on :: "wr_ret \<Rightarrow> bool" where
  "goes_on (WrN k) = (0 < k)"
| "goes_on (WrErr e) = again e"

definition short_of :: "wr_ret stream \<Rightarrow> nat \<Rightarrow> nat \<Rightarrow> bool" where
  "short_of answers len n \<longleftrightarrow>
     list_all goes_on (stake n answers) \<and> sum_list (List.map bytes_taken (stake n answers)) < len"

definition starved :: "wr_ret stream \<Rightarrow> nat \<Rightarrow> bool" where
  "starved answers len \<longleftrightarrow>
     (\<exists>n. short_of answers len n \<and> (\<forall>m\<ge>n. \<exists>e. answers !! m = WrErr e \<and> again e))"

lemma short_of_Suc:
  "short_of answers len (Suc n) \<longleftrightarrow>
     goes_on (shd answers) \<and> bytes_taken (shd answers) < len \<and> short_of (stl answers) (len - bytes_taken (shd answers)) n"
  by (auto simp: short_of_def)

lemma http_send_on_advance:
  "short_of answers len n \<Longrightarrow> cur + len \<le> length buf \<Longrightarrow>
   http_send_on_loop answers buf cur (int len) w =
     (let k = sum_list (List.map bytes_taken (stake n answers)) in
      http_send_on_loop (sdrop n answers) buf (cur + k) (int (len - k)) (w @ take k (drop cur buf)))"
proof (induction n arbitrary: answers len cur w)
  case (Suc n)
  obtain a as where s: "answers = a ## as" by (cases answers)
  with Suc.prems have a: "goes_on a" "bytes_taken a < len" "short_of as (len - bytes_taken a) n"
    by (simp_all add: short_of_Suc)
  have "http_send_on_loop answers buf cur (int len) w
      = http_send_on_loop as buf (cur + bytes_taken a) (int (len - bytes_taken a)) (w @ take (bytes_taken a) (drop cur buf))"
    using a Suc.prems(2) s
    by (cases a; subst http_send_on_loop.simps) (auto simp: again_iff of_nat_diff)
  also have "\<dots> = (let k = sum_list (List.map bytes_taken (stake n as)) in
      http_send_on_loop (sdrop n as) buf (cur + bytes_taken a + k) (int (len - bytes_taken a - k))
        ((w @ take (bytes_taken a) (drop cur buf)) @ take k (drop (cur + bytes_taken a) buf)))"
    using a Suc.prems(2) by (intro Suc.IH) auto
  finally show ?case
    by (simp add: s Let_def add.assoc take_add add.commute [of cur])
qed simp

lemma http_send_on_spins:
  assumes "0 < nleft" "\<forall>m. \<exists>e. answers !! m = WrErr e \<and> again e"
  shows "http_send_on_loop answers buf cur nleft w = None"
proof (rule ccontr)
  have "\<not> (0 < nleft \<and> (\<forall>m. \<exists>e. answers !! m = WrErr e \<and> again e))"
    if "http_send_on_loop answers buf cur nleft w = Some r" for answers buf cur nleft w r
    using that
  proof (rule http_send_on_loop.raw_induct [rotated], goal_cases)
    case (1 loop answers buf cur nleft w r)
    show ?case
    proof
      assume r: "0 < nleft \<and> (\<forall>m. \<exists>e. answers !! m = WrErr e \<and> again e)"
      then obtain e where "shd answers = WrErr e" "again e" using snth.simps(1) by metis
      moreover from r have "\<forall>m. \<exists>e. stl answers !! m = WrErr e \<and> again e" using snth.simps(2) by metis
      moreover from 1(2) calculation(1,2) r have "loop (stl answers) buf cur nleft w = Some r"
        by (auto simp: again_iff split: if_splits)
      ultimately show False using 1(1) [of "stl answers" buf cur nleft w r] r by blast
    qed
  qed
  moreover assume "http_send_on_loop answers buf cur nleft w \<noteq> None"
  ultimately show False using assms by blast
qed

text \<open>An endless sequence of answers starves the call or has a first answer that ends it.\<close>

lemma starved_or_ends:
  assumes "0 < len" "\<not> starved answers len"
  obtains n where "short_of answers len n" "\<not> short_of answers len (Suc n)"
proof -
  have "\<exists>n. short_of answers len n \<and> \<not> short_of answers len (Suc n)"
  proof (rule ccontr)
    assume "\<not> ?thesis"
    then have all: "short_of answers len n" for n
      using assms(1) by (induction n) (auto simp: short_of_def)
    define f where "f n = sum_list (List.map bytes_taken (stake n answers))" for n
    have mono: "f n \<le> f (n + m)" for n m
      by (metis f_def le_add1 map_append stake_add sum_list_append)
    from all have "\<forall>n. f n < len" by (simp add: f_def short_of_def)
    then obtain n where n: "\<And>m. f m \<le> f n"
      using ex_has_greatest_nat [of "\<lambda>n. True" 0 f len] by auto
    have "\<exists>e. answers !! m = WrErr e \<and> again e" if "n \<le> m" for m
    proof -
      have "f m = f (Suc m)" using n [of "Suc m"] mono [of n "m - n"] mono [of m 1] that by simp
      moreover have "stake (Suc m) answers = stake m answers @ [answers !! m]" by (rule stake_Suc)
      moreover have "goes_on (answers !! m)"
        using all [of "Suc m"] by (simp add: short_of_def stake_Suc del: stake.simps(2))
      ultimately show ?thesis by (cases "answers !! m") (auto simp: f_def simp del: stake.simps(2))
    qed
    with all [of n] assms(2) show False unfolding starved_def by blast
  qed
  with that show thesis by blast
qed

text \<open>Where a call that is still short of \<open>len\<close> bytes stands, and what the answer that ends it gives.\<close>

lemma http_send_on_at:
  assumes "short_of answers len n" "k = sum_list (List.map bytes_taken (stake n answers))"
    "len \<le> length buf" "len < 2 ^ 31"
  shows "http_send_on answers buf len =
      http_send_on_loop (sdrop n answers) buf k (int (len - k)) (take k buf)" "k < len"
  using http_send_on_advance [OF assms(1), of 0 buf "[]"] assms
  by (simp_all add: http_send_on_def cint_simps short_of_def Let_def)

lemma http_send_on_last:
  assumes n: "short_of answers len n" "\<not> short_of answers len (Suc n)"
    and k: "k = sum_list (List.map bytes_taken (stake n answers))" and len: "len \<le> length buf" "len < 2 ^ 31"
  shows "case answers !! n of
      WrErr e \<Rightarrow> \<not> again e \<and> http_send_on answers buf len = Some (Inr (- 1, take k buf, sdrop (Suc n) answers))
    | WrN j \<Rightarrow>
        if j = 0 then http_send_on answers buf len = Some (Inr (int k, take k buf, sdrop (Suc n) answers))
        else len \<le> k + j \<and>
          http_send_on answers buf len = Some (Inr (int len, take len buf, sdrop (Suc n) answers))"
proof (cases "answers !! n")
  case (WrErr e)
  then show ?thesis using n http_send_on_at [OF n(1) k len]
    by (auto simp: short_of_def stake_Suc again_iff k http_send_on_loop.simps [of "sdrop n answers"]
        simp del: stake.simps(2))
next
  case (WrN j)
  note at = http_send_on_at [OF n(1) k len]
  have j: "len \<le> k + j" if "j \<noteq> 0"
    using n WrN that by (auto simp: short_of_def stake_Suc k simp del: stake.simps(2))
  have "take k buf @ take (len - k) (drop k buf) = take len buf"
    using at(2) by (simp add: take_add [symmetric])
  moreover have "nat (int len - int k) = len - k" by simp
  ultimately show ?thesis using WrN j at len
    by (auto simp: http_send_on_loop.simps [of "sdrop n answers"] http_send_on_loop.simps [of _ _ _ 0] Let_def)
qed

text \<open>Both forms of the loop agree: what \<open>http_send\<close> returns on the first answers is what it returns.\<close>

lemma http_send_on_loop_extends:
  "http_send_loop (stake n answers) buf cur nleft w = Inr (r, w', rest) \<Longrightarrow>
   http_send_on_loop answers buf cur nleft w = Some (Inr (r, w', rest @- sdrop n answers))"
proof (induction n arbitrary: answers cur nleft w)
  case 0
  then show ?case
    by (auto simp: http_send_loop.simps http_send_on_loop.simps split: if_splits)
next
  case (Suc n)
  obtain a as where s: "answers = a ## as" by (cases answers)
  show ?case
    using Suc.prems Suc.IH [of as] unfolding s
    by (subst http_send_on_loop.simps, subst (asm) http_send_loop.simps)
      (auto simp: Let_def stake_sdrop split: if_splits wr_ret.splits)
qed

theorem http_send_on_extends:
  "http_send (stake n answers) buf len = Inr (r, w, rest) \<Longrightarrow>
   http_send_on answers buf len = Some (Inr (r, w, rest @- sdrop n answers))"
  unfolding http_send_def http_send_on_def by (rule http_send_on_loop_extends)

text \<open>
  C20. The descriptors of the clients are not blocking, so the kernel answers
  every call of \<open>send\<close>.  On an endless sequence of answers \<open>http_send\<close> never
  returns exactly when the kernel, before it has taken all \<open>len\<close> bytes, reports
  EINTR, EAGAIN or EWOULDBLOCK for ever: then the worker calls \<open>send\<close> again
  and again.  Otherwise it returns at the first answer that takes the
  rest (\<open>len\<close>), takes nothing (the number of bytes sent so far) or is another
  error (-1), and the peer has received exactly the bytes taken.
\<close>

theorem http_send_on_ends:
  assumes "0 < len" "len \<le> length buf" "len < 2 ^ 31"
  shows "if starved answers len then http_send_on answers buf len = None
    else \<exists>n. let k = sum_list (List.map bytes_taken (stake n answers)); rest = sdrop (Suc n) answers in
      short_of answers len n \<and>
      (case answers !! n of
         WrErr e \<Rightarrow> \<not> again e \<and> http_send_on answers buf len = Some (Inr (- 1, take k buf, rest))
       | WrN j \<Rightarrow>
           if j = 0 then http_send_on answers buf len = Some (Inr (int k, take k buf, rest))
           else len \<le> k + j \<and> http_send_on answers buf len = Some (Inr (int len, take len buf, rest)))"
proof (cases "starved answers len")
  case True
  then obtain n where n: "short_of answers len n" "\<forall>m\<ge>n. \<exists>e. answers !! m = WrErr e \<and> again e"
    by (auto simp: starved_def)
  with http_send_on_at [OF n(1) refl assms(2,3)] True show ?thesis
    by (simp add: http_send_on_spins sdrop_snth)
next
  case False
  with assms(1) obtain n where n: "short_of answers len n" "\<not> short_of answers len (Suc n)"
    by (rule starved_or_ends)
  show ?thesis
    unfolding Let_def using False n(1) http_send_on_last [OF n refl assms(2,3)]
    by (simp only: if_False) (rule exI, rule conjI)
qed

theorem http_send_on_ends_witness:
  "http_send_on (WrN 2 ## sconst (WrErr EAGAIN)) ''hello'' 5 = None"
proof -
  have "\<exists>e. (WrN 2 ## sconst (WrErr EAGAIN)) !! m = WrErr e \<and> again e" if "1 \<le> m" for m
    using that by (cases m) (simp_all add: again_iff)
  moreover have "short_of (WrN 2 ## sconst (WrErr EAGAIN)) 5 1"
    by (simp add: short_of_def)
  ultimately have "starved (WrN 2 ## sconst (WrErr EAGAIN)) 5"
    unfolding starved_def by blast
  then show ?thesis
    using http_send_on_ends [of 5 "''hello''" "WrN 2 ## sconst (WrErr EAGAIN)"] by simp
qed

text \<open>
  \<open>rio_write\<close> and \<open>http_send\<close> are the same function unless the kernel reports
  EAGAIN or EWOULDBLOCK.
\<close>

theorem rio_write_http_send:
  assumes "sz \<le> length buf" "sz < 2 ^ 31" "WrErr EAGAIN \<notin> set script" "WrErr EWOULDBLOCK \<notin> set script"
  shows "rio_write script buf sz = http_send script buf sz"
proof -
  have "write_spec (\<lambda>e. e = EINTR) script (take sz buf) [] = write_spec again script (take sz buf) []"
    using assms by (intro write_spec_cong) (auto simp: again_iff)
  then show ?thesis
    using assms by (simp add: rio_write_spec http_send_spec)
qed

theorem rio_write_http_send_witness:
  "rio_write [WrErr EINTR, WrN 3, WrErr (EOTHER 5)] ''abcde'' 5
     = http_send [WrErr EINTR, WrN 3, WrErr (EOTHER 5)] ''abcde'' 5"
  by (rule rio_write_http_send) simp_all

text \<open>
  \<open>http_rcv\<close> loses the count: when the first call that is not interrupted
  delivers data, the data is in the buffer but the result is 0, and no call
  ever returns anything but 0 and -1.
\<close>

theorem http_rcv_loses_count:
  assumes "0 < len" "len < 2 ^ 31" "len \<le> length buf"
  shows "http_rcv (replicate n (RdErr EINTR) @ RdData d # rest) buf len
      = Inr (0, take len d @ drop (length (take len d)) buf, rest)
    \<and> (\<forall>script r b rest'. http_rcv script buf len = Inr (r, b, rest') \<longrightarrow> r = 0 \<or> r = - 1)"
proof -
  have "put_bytes buf 0 (take len d) = Inr (take len d @ drop (length (take len d)) buf)"
    using put_bytes_at [of "[]" 0 "take len d" buf] assms by simp
  then have "http_rcv_loop (replicate n (RdErr EINTR) @ RdData d # rest) buf 0 (int len)
      = Inr (0, take len d @ drop (length (take len d)) buf, rest)"
    using assms by (induction n) simp_all
  moreover have "r = 0 \<or> r = - 1" if "http_rcv script buf len = Inr (r, b, rest')" for script r b rest'
    using that unfolding http_rcv_def by (auto dest: http_rcv_loop_result)
  ultimately show ?thesis
    using assms by (simp add: http_rcv_def cint_simps)
qed

theorem http_rcv_loses_count_witness:
  "http_rcv [RdErr EINTR, RdData ''abc''] ''-----'' 4 = Inr (0, ''abc--'', [])"
  using http_rcv_loses_count [of 4 "''-----''" 1 "''abc''" "[]"] by simp

text \<open>
  \<open>readline\<close> on a line that fits: the line with its LF is in the buffer,
  terminated, and nothing after the LF is taken from the socket; the result is
  the length of the line (without LF) less one.
\<close>

theorem readline_line:
  assumes "LF \<notin> set line" "length line < maxlen" "length line + 1 < length buf" "length line < 2 ^ 63"
  shows "readline (map (\<lambda>c. RdData [c]) (line @ [LF]) @ rest) buf maxlen
    = Inr (int (length line) - 1, line @ [LF, NUL] @ drop (length line + 2) buf, rest)"
  using readline_from_line [of line 0 maxlen "[]" 0 buf rest] assms
  by (simp add: readline_def cint_simps)

theorem readline_line_witness:
  "readline [RdData ''a'', RdData ''b'', RdData [LF], RdErr EINTR] ''------'' 10
     = Inr (1, ''ab'' @ [LF, NUL] @ ''--'', [RdErr EINTR])"
  using readline_line [of "''ab''" 10 "''------''" "[RdErr EINTR]"] by simp

text \<open>
  \<open>Read_s\<close> collects what arrives until the end of file or an error: the
  result is the number of bytes, which are in the buffer in order; an error is
  reported like an end of file.
\<close>

theorem Read_s_collects:
  assumes "\<forall>d\<in>set ds. d \<noteq> []" "int (length (concat ds)) < sz" "sz < 2 ^ 63" "length (concat ds) \<le> length buf"
    "stop = RdData [] \<or> stop = RdErr e"
  shows "Read_s (map RdData ds @ stop # rest) buf sz
    = Inr (int (length (concat ds)), concat ds @ drop (length (concat ds)) buf, rest)"
proof -
  have "to_size sz = sz" using assms by (intro to_size_id) auto
  then show ?thesis
    using Read_s_loop_data [of ds sz sz "[]" 0 buf stop e rest] assms by (simp add: Read_s_def)
qed

theorem Read_s_collects_witness:
  "Read_s [RdData ''ab'', RdData ''c'', RdErr EAGAIN] ''------'' 6 = Inr (3, ''abc---'', [])"
  using Read_s_collects [of "[''ab'', ''c'']" 6 "''------''" "RdErr EAGAIN" EAGAIN "[]"] by simp


lemma to_ssize_minus_one_size: "to_ssize (2 ^ 64 - 1) = - 1"
  by (simp add: to_ssize_def signed_take_bit_eq_take_bit_shift take_bit_int_def)

lemma to_ssize_after_error: "0 \<le> x \<Longrightarrow> x + 1 < 2 ^ 63 \<Longrightarrow> to_ssize (to_size (x - (2 ^ 64 - 1))) = x + 1"
proof -
  assume x: "0 \<le> x" "x + 1 < 2 ^ 63"
  have "to_size (x - (2 ^ 64 - 1)) = (x + 1 + - 1 * 2 ^ 64) mod 2 ^ 64"
    by (simp add: to_size_def take_bit_int_def)
  also have "\<dots> = (x + 1) mod 2 ^ 64" by (rule mod_mult_self1)
  also have "\<dots> = x + 1" using x by simp
  finally show ?thesis using x by (simp add: to_ssize_id)
qed

lemma Write_s_loop_errors:
  "0 < nleft \<Longrightarrow> nleft + int n < 2 ^ 63 \<Longrightarrow>
   Write_s_loop (replicate n (WrErr e) @ rs) buf cur nleft sz w
     = Write_s_loop rs buf (cur - int n) (nleft + int n) sz w"
proof (induction n arbitrary: cur nleft)
  case (Suc n)
  have "Write_s_loop (replicate n (WrErr e) @ rs) buf (cur - 1) (nleft + 1) sz w
      = Write_s_loop rs buf (cur - 1 - int n) (nleft + 1 + int n) sz w"
    using Suc.prems by (intro Suc.IH) auto
  then show ?case
    using Suc.prems to_ssize_after_error [of nleft] to_ssize_minus_one_size
    by (subst Write_s_loop.simps) (simp add: Let_def algebra_simps)
qed simp

text \<open>
  \<open>Write_s\<close> does not notice a failing \<open>write\<close>: after \<open>k\<close> bytes and \<open>n \<le> k\<close>
  failures the pointer has moved back \<open>n\<close> bytes, the next successful call sends
  those bytes again, and the function reports success.
\<close>

theorem Write_s_resends:
  assumes "0 < k" "int k < sz" "sz < 2 ^ 62" "n \<le> k" "sz \<le> int (length buf)" "sz - int k + int n \<le> int m"
  shows "Write_s (WrN k # replicate n (WrErr e) @ WrN m # rest) buf sz
    = Inr (sz, take k buf @ take (nat sz - k + n) (drop (k - n) buf), rest)"
proof -
  have last: "Write_s_loop (WrN m # rest) buf (int k - int n) (sz - int k + int n) sz (take k buf)
      = Inr (sz, take k buf @ take (nat sz - k + n) (drop (k - n) buf), rest)"
  proof -
    have cnt: "min m (nat (sz - int k + int n)) = nat sz - k + n" "int (nat sz - k + n) = sz - int k + int n"
      using assms by auto
    then show ?thesis
      using assms
      by (subst Write_s_loop.simps)
        (simp add: Let_def Write_s_loop.simps cint_simps nat_diff_distrib)
  qed
  have "Write_s (WrN k # replicate n (WrErr e) @ WrN m # rest) buf sz
      = Write_s_loop (replicate n (WrErr e) @ WrN m # rest) buf (int k) (sz - int k) sz (take k buf)"
    using assms unfolding Write_s_def
    by (subst Write_s_loop.simps) (auto simp: Let_def cint_simps min_def)
  also have "\<dots> = Write_s_loop (WrN m # rest) buf (int k - int n) (sz - int k + int n) sz (take k buf)"
    using assms by (intro Write_s_loop_errors) auto
  finally show ?thesis using last by simp
qed

theorem Write_s_resends_witness:
  "Write_s [WrN 3, WrErr EAGAIN, WrN 9] ''abcde'' 5 = Inr (5, ''abccde'', [])"
  using Write_s_resends [of 3 5 1 "''abcde''" 9 EAGAIN "[]"] by (simp add: numeral_eq_Suc)


lemma rio_fill_simps [simp]:
  "0 < nread rp \<Longrightarrow> rio_fill script rp = Inr (None, rp, script)"
  "nread rp \<le> 0 \<Longrightarrow> rio_fill (RdErr e # rs) rp =
     Inr (if e = EINTR then None else Some (- 1), rp\<lparr>nread := - 1\<rparr>, rs)"
  "nread rp \<le> 0 \<Longrightarrow> rio_fill [] rp = Inl Blocked"
  by (simp_all add: rio_fill.simps)

lemma rio_fill_data:
  assumes "nread rp \<le> 0" "d \<noteq> []" "length d \<le> length (rio_buffer rp)"
  shows "rio_fill (RdData d # rs) rp
    = Inr (None, rp\<lparr>nread := int (length d), rio_buffer := d @ drop (length d) (rio_buffer rp), rio_ptr := 0\<rparr>, rs)"
  using assms put_bytes_at [of "[]" 0 d "rio_buffer rp"] by (simp add: rio_fill.simps [of "RdData d # rs"] Let_def)

lemma rio_read_buffered:
  assumes "0 < n" "int n \<le> nread rp" "n < 2 ^ 31" "n \<le> length (rio_buffer rp)" "n \<le> length u"
  shows "rio_read script rp u n = Inr (int n, rp\<lparr>rio_ptr := rio_ptr rp + n, nread := nread rp - int n\<rparr>,
    take n (rio_buffer rp) @ drop n u, script)"
  using assms put_bytes_at [of "[]" 0 "take n (rio_buffer rp)" u]
  by (simp add: rio_read_def Let_def cint_simps)

text \<open>
  Two reads of \<open>n\<close> bytes from a fresh reader whose first refill delivers at
  least \<open>2 n\<close> bytes: the second read asks the kernel for nothing, moves \<open>ptr\<close> on,
  and delivers the first \<open>n\<close> bytes again.
\<close>

theorem rio_read_repeats:
  assumes "length (rio_buffer rp0) = RIO_BUFSIZE" "length d \<le> RIO_BUFSIZE" "0 < n" "2 * n \<le> length d"
    "n \<le> length u" "n \<le> length v"
  shows "\<exists>rp1 rp2. rio_read (RdData d # rest) (rio_readinit rp0 f) u n = Inr (int n, rp1, take n d @ drop n u, rest) \<and>
    rio_ptr rp1 = n \<and>
    rio_read rest rp1 v n = Inr (int n, rp2, take n d @ drop n v, rest) \<and> rio_ptr rp2 = 2 * n"
proof -
  let ?rp = "rio_readinit rp0 f"
  let ?b = "d @ drop (length d) (rio_buffer rp0)"
  define rpf where "rpf = ?rp\<lparr>nread := int (length d), rio_buffer := ?b, rio_ptr := 0\<rparr>"
  define rp1 where "rp1 = rpf\<lparr>rio_ptr := n, nread := int (length d) - int n\<rparr>"
  note sizes = assms RIO_BUFSIZE_def
  have "d \<noteq> []" using sizes by auto
  then have fill: "rio_fill (RdData d # rest) ?rp = Inr (None, rpf, rest)" "rio_fill rest rpf = Inr (None, rpf, rest)"
    using rio_fill_data [of ?rp d rest] sizes by (auto simp: rio_readinit_def rpf_def)
  have "rio_read (RdData d # rest) ?rp u n = rio_read rest rpf u n"
    by (simp add: rio_read_def fill)
  also have "\<dots> = Inr (int n, rp1, take n d @ drop n u, rest)"
    using rio_read_buffered [of n rpf u rest] sizes by (simp add: rp1_def rpf_def)
  moreover have "rio_read rest rp1 v n
      = Inr (int n, rp1\<lparr>rio_ptr := n + n, nread := int (length d) - int n - int n\<rparr>, take n d @ drop n v, rest)"
    using rio_read_buffered [of n rp1 v rest] sizes by (simp add: rp1_def rpf_def)
  ultimately show ?thesis
    by (intro exI [of _ rp1] exI [of _ "rp1\<lparr>rio_ptr := n + n, nread := int (length d) - int n - int n\<rparr>"])
      (simp add: rp1_def)
qed

theorem rio_read_repeats_witness:
  "\<exists>rp1 rp2. rio_read [RdData ''abcd''] (rio_readinit \<lparr>rio_fd = 0, nread = 0, rio_ptr = 0, rio_buffer = replicate 4096 NUL\<rparr> 3) ''--'' 2
      = Inr (2, rp1, ''ab'', []) \<and> rio_ptr rp1 = 2 \<and>
    rio_read [] rp1 ''--'' 2 = Inr (2, rp2, ''ab'', []) \<and> rio_ptr rp2 = 4"
  using rio_read_repeats [of "\<lparr>rio_fd = 0, nread = 0, rio_ptr = 0, rio_buffer = replicate 4096 NUL\<rparr>" "''abcd''" 2 "''--''" "''--''" "[]" 3]
  by (simp add: RIO_BUFSIZE_def)

text \<open>
  An interrupted refill is not retried: the count stays -1, and \<open>memcpy\<close> is
  asked to copy that many bytes.
\<close>

theorem rio_read_interrupted:
  assumes "length (rio_buffer rp) = RIO_BUFSIZE" "nread rp \<le> 0" "n < 2 ^ 31"
  shows "rio_read (RdErr EINTR # rest) rp u n = Inl (Undef ReadOOB)"
  using assms by (simp add: rio_read_def Let_def cint_simps RIO_BUFSIZE_def)

theorem rio_read_interrupted_witness:
  "rio_read [RdErr EINTR] \<lparr>rio_fd = 3, nread = 0, rio_ptr = 0, rio_buffer = replicate 4096 NUL\<rparr> ''--'' 2 = Inl (Undef ReadOOB)"
  by (rule rio_read_interrupted) (simp_all add: RIO_BUFSIZE_def)

end
