(* ===== verification/Request_Parser.thy ===== *)
theory Request_Parser
  imports C_Strings
begin

text \<open>
  The request parser of \<open>inc/http_types.h\<close>: the request record, the line
  reader \<open>readline_buf\<close>, the parser \<open>analasy\<close>, the receive routine \<open>onRecv\<close>
  and the callback that chains them.
\<close>

section \<open>Data\<close>

definition BUFSIZE :: nat where "BUFSIZE = 4096"
definition READ_COUNT :: nat where "READ_COUNT = 100"
definition READ_COUNT_BUF :: nat where "READ_COUNT_BUF = 1000"

text \<open>
  A character array that only ever holds one C string is represented by that
  string (\<open>None\<close> while the array is uninitialised); every write into such an
  array is checked against its size.
\<close>

record http_head_contain =
  host :: "string option"
  Conn_status :: "string option"
  Upgrade_Insecure_Requests :: "char option"
  user_agent :: "string option"
  accept :: "string option"
  accept_encoding :: "string option"
  accept_lauguage :: "string option"

record newhead =
  header :: "string option"
  value_f :: "string option"

record http_request =
  method_f :: "string option"
  url :: "string option"
  version :: "string option"
  nhead :: "nat \<Rightarrow> newhead"
  contain :: http_head_contain

text \<open>The record \<open>malloc\<close> returns: nothing in it is initialised.\<close>

definition raw_contain :: http_head_contain where
  "raw_contain = \<lparr>host = None, Conn_status = None, Upgrade_Insecure_Requests = None,
     user_agent = None, accept = None, accept_encoding = None, accept_lauguage = None\<rparr>"

definition raw_request :: http_request where
  "raw_request = \<lparr>method_f = None, url = None, version = None,
     nhead = (\<lambda>_. \<lparr>header = None, value_f = None\<rparr>), contain = raw_contain\<rparr>"

section \<open>Reading a line of a buffer\<close>

text \<open>
  \<open>readline_buf\<close> on the array \<open>b\<close> with \<open>*buf\<close> at position \<open>p\<close> and the
  destination array \<open>usr\<close>.  The loop compares the characters around position
  \<open>i\<close>; the result is the returned value, the new position and the destination.
\<close>

function readline_loop ::
  "carray \<Rightarrow> nat \<Rightarrow> nat \<Rightarrow> nat \<Rightarrow> carray \<Rightarrow> (int \<times> nat \<times> carray) exec" where
  "readline_loop b p maxlen i usr =
     (let fin = (\<lambda>usr. bindE (wr usr i NUL) (\<lambda>usr. Inr (int i, p + (i + 1), usr))) in
      if i < maxlen then
        bindE (rd b (p + i)) (\<lambda>c.
        bindE (if c = LF then rd b (p + i - 1) else Inr NUL) (\<lambda>before.
        if c = LF \<and> before = CR then bindE (wr usr (i - 1) NUL) fin
        else
          bindE (if c = LF then rd b (p + i + 1) else Inr NUL) (\<lambda>after.
          if c = LF \<and> after = CR then bindE (wr usr i NUL) (\<lambda>usr. Inr (0, p, usr))
          else if c = NUL then fin usr
          else bindE (wr usr i c) (\<lambda>usr. readline_loop b p maxlen (i + 1) usr))))
      else fin usr)"
  by pat_completeness auto
termination
  by (relation "measure (\<lambda>(b, p, maxlen, i, usr). maxlen - i)") auto

declare readline_loop.simps [simp del]

definition readline_buf ::
  "carray \<Rightarrow> nat option \<Rightarrow> carray option \<Rightarrow> nat \<Rightarrow> (int \<times> nat option \<times> carray option) exec" where
  "readline_buf b buf usr maxlen =
     (case (buf, usr) of
        (Some p, Some u) \<Rightarrow>
          bindE (str_at b p) (\<lambda>s.
            let len1 = to_int (int (length s)); len2 = to_int (int maxlen);
                p' = p + strspn s '' ''; m = nat (to_size (if len1 < len2 then len2 else len1)) in
            bindE (rd b p') (\<lambda>c.
            bindE (wr u 0 c) (\<lambda>u.
            bindE (readline_loop b p' m 1 u) (\<lambda>(r, q, u). Inr (r, Some q, Some u)))))
      | _ \<Rightarrow> Inr (- 1, buf, usr))"

section \<open>The parser\<close>

text \<open>\<open>strcpy\<close> into a \<open>char[BUFSIZE]\<close> member.\<close>

definition strcpy_member :: "carray \<Rightarrow> nat \<Rightarrow> string exec" where
  "strcpy_member b p =
     bindE (str_at b p) (\<lambda>s. if length s < BUFSIZE then Inr s else Inl (Undef WriteOOB))"

text \<open>Dereferencing the pointer \<open>strtok\<close> returned.\<close>

definition deref :: "nat option \<Rightarrow> nat exec" where
  "deref p = (case p of None \<Rightarrow> Inl (Undef NullDeref) | Some a \<Rightarrow> Inr a)"

definition set_header :: "http_request \<Rightarrow> nat \<Rightarrow> string \<Rightarrow> http_request exec" where
  "set_header h i s =
     (if i < BUFSIZE then Inr (h\<lparr>nhead := (nhead h)(i := (nhead h i)\<lparr>header := Some s\<rparr>)\<rparr>)
      else Inl (Undef WriteOOB))"

definition set_value :: "http_request \<Rightarrow> nat \<Rightarrow> string \<Rightarrow> http_request exec" where
  "set_value h i s =
     (if i < BUFSIZE then Inr (h\<lparr>nhead := (nhead h)(i := (nhead h i)\<lparr>value_f := Some s\<rparr>)\<rparr>)
      else Inl (Undef WriteOOB))"

text \<open>
  The header loop: \<open>b\<close> is the array and \<open>s\<close> the saved position of \<open>strtok\<close>.
  It returns the request, the array and the pointer \<open>p\<close> it left the loop with.
\<close>

function header_loop ::
  "carray \<Rightarrow> nat \<Rightarrow> nat \<Rightarrow> http_request \<Rightarrow> (http_request \<times> carray \<times> nat) exec" where
  "header_loop b s i h =
     bindE (strtok b s '':'') (\<lambda>(q, b1, s1).
     bindE (deref q) (\<lambda>p.
     bindE (str_at b1 (p + 1)) (\<lambda>t.
     if strncmp_eq t CRLF 2 then Inr (h, b1, p)
     else
       bindE (strcpy_member b1 (p + 1)) (\<lambda>n.
       bindE (set_header h i n) (\<lambda>h1.
       bindE (strtok b1 s1 CRLF) (\<lambda>(q2, b2, s2).
       bindE (deref q2) (\<lambda>p2.
       bindE (strcpy_member b2 (p2 + 1)) (\<lambda>v.
       bindE (set_value h1 (i + 1) v) (\<lambda>h2.
       header_loop b2 s2 (i + 2) h2)))))))))"
  by pat_completeness auto
termination
  by (relation "measure (\<lambda>(b, s, i, h). length b - s)")
    (auto simp: deref_def split: option.splits dest!: strtok_progress)

declare header_loop.simps [simp del]

text \<open>
  \<open>analasy\<close>: \<open>Inr None\<close> is the NULL result; the array is the caller's buffer.
  \<open>headline\<close> is what \<open>malloc\<close> gave for the request, whose result is not tested: NULL
  or a block with some contents.  The program has it as a function of the
  buffer alone; \<open>analasy\<close> is that function when \<open>malloc\<close> succeeds.
\<close>

definition analasy_in :: "http_request option \<Rightarrow> carray \<Rightarrow> (http_request option \<times> carray) exec" where
  "analasy_in headline buf =
     bindE (str_at buf 0) (\<lambda>text.
     if strstr text (CRLF @ CRLF) = None then Inr (None, buf)
     else
       bindE (strtok buf 0 '' '') (\<lambda>(q1, b1, s1).
       case headline of None \<Rightarrow> Inl (Undef NullDeref) | Some H \<Rightarrow>
       bindE (deref q1) (\<lambda>p1.
       bindE (strcpy_member b1 p1) (\<lambda>m.
       bindE (strtok b1 s1 '' '') (\<lambda>(q2, b2, s2).
       bindE (deref q2) (\<lambda>p2.
       bindE (strcpy_member b2 p2) (\<lambda>u.
       bindE (strtok b2 s2 CRLF) (\<lambda>(q3, b3, s3).
       bindE (deref q3) (\<lambda>p3.
       bindE (strcpy_member b3 p3) (\<lambda>v.
       bindE (header_loop b3 s3 0 (H\<lparr>method_f := Some m, url := Some u, version := Some v\<rparr>))
         (\<lambda>(h, b4, p).
       bindE (str_at b4 (p + 1)) (\<lambda>t.
       Inr (if strncmp_eq t CRLF 1 then Some h else None, b4)))))))))))))"

definition analasy :: "carray \<Rightarrow> (http_request option \<times> carray) exec" where
  "analasy = analasy_in (Some raw_request)"

lemma analasy_eq:
  "analasy buf =
     bindE (str_at buf 0) (\<lambda>text.
     if strstr text (CRLF @ CRLF) = None then Inr (None, buf)
     else
       bindE (strtok buf 0 '' '') (\<lambda>(q1, b1, s1).
       bindE (deref q1) (\<lambda>p1.
       bindE (strcpy_member b1 p1) (\<lambda>m.
       bindE (strtok b1 s1 '' '') (\<lambda>(q2, b2, s2).
       bindE (deref q2) (\<lambda>p2.
       bindE (strcpy_member b2 p2) (\<lambda>u.
       bindE (strtok b2 s2 CRLF) (\<lambda>(q3, b3, s3).
       bindE (deref q3) (\<lambda>p3.
       bindE (strcpy_member b3 p3) (\<lambda>v.
       bindE (header_loop b3 s3 0 (raw_request\<lparr>method_f := Some m, url := Some u, version := Some v\<rparr>))
         (\<lambda>(h, b4, p).
       bindE (str_at b4 (p + 1)) (\<lambda>t.
       Inr (if strncmp_eq t CRLF 1 then Some h else None, b4)))))))))))))"
  unfolding analasy_def analasy_in_def option.case ..

section \<open>Receiving and the callback\<close>

text \<open>
  \<open>onRecv\<close>: \<open>cur\<close> is the stack array \<open>cur_ptr\<close>, \<open>off\<close> the offset of \<open>ptr\<close> in
  it and \<open>script\<close> what the successive calls of \<open>read\<close> do.  \<open>nread\<close> and \<open>nleft\<close>
  have type \<open>size_t\<close>, so a failing \<open>read\<close> stores the largest \<open>size_t\<close> value and
  moves \<open>ptr\<close> back by one.
\<close>

definition memset_ok :: "carray \<Rightarrow> int \<Rightarrow> nat \<Rightarrow> bool" where
  "memset_ok a off n \<longleftrightarrow> 0 \<le> off \<and> off + int n \<le> int (length a)"

definition fill :: "carray \<Rightarrow> nat \<Rightarrow> carray \<Rightarrow> carray" where
  "fill a p d = take p a @ d @ drop (p + length d) a"

fun onRecv_loop ::
  "nat \<Rightarrow> rd_ret list \<Rightarrow> carray \<Rightarrow> int \<Rightarrow> int \<Rightarrow> carray \<Rightarrow> (int \<times> carray \<times> rd_ret list) exec" where
  "onRecv_loop len script cur off nleft buf =
     (if \<not> 0 < nleft then Inr (to_size (int len - nleft), buf, script)
      else if \<not> memset_ok cur off READ_COUNT_BUF then Inl (Undef WriteOOB)
      else case script of
        [] \<Rightarrow> Inl Blocked
      | r # rs \<Rightarrow>
          let cur1 = fill cur (nat off) (replicate READ_COUNT_BUF NUL);
              d = (case r of RdData d \<Rightarrow> take (nat nleft) d | RdErr _ \<Rightarrow> []);
              nread = to_size (case r of RdData _ \<Rightarrow> int (length d) | RdErr _ \<Rightarrow> - 1) in
          if \<not> memset_ok cur1 off (length d) then Inl (Undef WriteOOB)
          else
            let cur2 = fill cur1 (nat off) d in
            if nread < 0 then
              (case r of
                 RdErr e \<Rightarrow>
                   if e = EAGAIN \<or> e = EWOULDBLOCK then Inr (to_size (int len - nleft), buf, rs)
                   else if e = EINTR then onRecv_loop len rs cur2 off nleft buf
                   else Inr (to_size (- 1), buf, rs)
               | RdData _ \<Rightarrow> Inr (to_size (- 1), buf, rs))
            else if nread = 0 then Inr (to_size (int len - nleft), buf, rs)
            else
              bindE (str_at cur2 (nat off)) (\<lambda>s.
              bindE (strcat buf s) (\<lambda>buf1.
              onRecv_loop len rs cur2 (off + to_ssize nread) (to_size (nleft - nread)) buf1)))"

declare onRecv_loop.simps [simp del]

definition onRecv :: "rd_ret list \<Rightarrow> carray \<Rightarrow> nat \<Rightarrow> (int \<times> carray \<times> rd_ret list) exec" where
  "onRecv script buf len =
     onRecv_loop len script (replicate READ_COUNT_BUF NUL) 0 (to_size (int len)) buf"

type_synonym func_t = "rd_ret list \<Rightarrow> carray \<Rightarrow> nat \<Rightarrow> (int \<times> carray \<times> rd_ret list) exec"

text \<open>A context holds its buffer and the parser as a function pointer.\<close>

record http_context =
  ctx_buf :: carray
  parse_req :: "carray \<Rightarrow> (http_request option \<times> carray) exec"

text \<open>
  The core callback: receive into the connection's buffer, copy its string
  into the context, parse the copy.  The passed receive function is not used.
\<close>

definition callback ::
  "http_context \<Rightarrow> func_t \<Rightarrow> rd_ret list \<Rightarrow> carray option \<Rightarrow> nat \<Rightarrow>
   (http_request option \<times> http_context \<times> carray \<times> rd_ret list) exec" where
  "callback http_ctx f_recv script buf len =
     (case buf of
        None \<Rightarrow> Inl (Undef NullDeref)
      | Some b \<Rightarrow>
          bindE (onRecv script b len) (\<lambda>(n, b1, rs).
          bindE (str_at b1 0) (\<lambda>s.
          bindE (put_str (ctx_buf http_ctx) 0 (take (BUFSIZE - 1) s)) (\<lambda>cb.
          bindE (parse_req http_ctx cb) (\<lambda>(r, cb1).
          Inr (r, http_ctx\<lparr>ctx_buf := cb1\<rparr>, b1, rs))))))"

record http_tcp =
  fd :: int
  http_contxt :: http_context
  tcp_callback :: "http_context \<Rightarrow> func_t \<Rightarrow> rd_ret list \<Rightarrow> carray option \<Rightarrow> nat \<Rightarrow>
   (http_request option \<times> http_context \<times> carray \<times> rd_ret list) exec"
  tcp_buf :: "carray option"

text \<open>
  Allocation: each argument is the block \<open>malloc\<close> returns (with its arbitrary
  contents) or \<open>None\<close> for NULL.
\<close>

definition alloc_http_context :: "carray option \<Rightarrow> carray option \<Rightarrow> http_context option" where
  "alloc_http_context item b =
     (case item of None \<Rightarrow> None
      | Some _ \<Rightarrow> (case b of None \<Rightarrow> None | Some g \<Rightarrow> Some \<lparr>ctx_buf = g, parse_req = analasy\<rparr>))"

definition http_tcp_alloc ::
  "carray option \<Rightarrow> carray option \<Rightarrow> carray option \<Rightarrow> carray option \<Rightarrow> int \<Rightarrow> http_tcp option" where
  "http_tcp_alloc item ctx ctxbuf b f =
     (case item of None \<Rightarrow> None
      | Some _ \<Rightarrow>
          (case alloc_http_context ctx ctxbuf of
             None \<Rightarrow> None
           | Some c \<Rightarrow> Some \<lparr>fd = f, http_contxt = c, tcp_callback = callback, tcp_buf = b\<rparr>))"

section \<open>A reference parser on text\<close>

text \<open>
  The same parse without arrays, positions and in-place writes: every step
  works on the text that is left.
\<close>

function header_spec :: "string \<Rightarrow> nat \<Rightarrow> http_request \<Rightarrow> (http_request \<times> string) exec" where
  "header_spec t i h =
     (case tok '':'' t of
        None \<Rightarrow> Inl (Undef NullDeref)
      | Some (x, r) \<Rightarrow>
          if strncmp_eq (tl x) CRLF 2 then Inr (h, tl x)
          else bindE (set_header h i (tl x)) (\<lambda>h1.
            case tok CRLF r of
              None \<Rightarrow> Inl (Undef NullDeref)
            | Some (y, r2) \<Rightarrow>
                bindE (set_value h1 (i + 1) (tl y)) (\<lambda>h2. header_spec r2 (i + 2) h2)))"
  by pat_completeness auto
termination
  by (relation "measure (\<lambda>(t, i, h). length t)") (auto dest!: tok_less)

declare header_spec.simps [simp del]

definition request_spec :: "string \<Rightarrow> http_request option exec" where
  "request_spec text =
     (if strstr text (CRLF @ CRLF) = None then Inr None
      else case tok '' '' text of None \<Rightarrow> Inl (Undef NullDeref) | Some (m, t1) \<Rightarrow>
        case tok '' '' t1 of None \<Rightarrow> Inl (Undef NullDeref) | Some (u, t2) \<Rightarrow>
        case tok CRLF t2 of None \<Rightarrow> Inl (Undef NullDeref) | Some (v, t3) \<Rightarrow>
        bindE (header_spec t3 0 (raw_request\<lparr>method_f := Some m, url := Some u, version := Some v\<rparr>))
          (\<lambda>(h, _). Inr (Some h)))"

lemma strcpy_member_ok:
  "str_at b p = Inr s \<Longrightarrow> length s < BUFSIZE \<Longrightarrow> strcpy_member b p = Inr s"
  by (simp add: strcpy_member_def)

lemma header_loop_spec:
  assumes "str_at b s = Inr t" and "length t < BUFSIZE"
  shows "bindE (header_loop b s i h) (\<lambda>(h, b, p). bindE (str_at b (p + 1)) (\<lambda>t. Inr (h, t)))
    = header_spec t i h"
  using assms
proof (induction t i h arbitrary: b s rule: header_spec.induct)
  case (1 t i h)
  note unf = header_loop.simps [of b] header_spec.simps [of t] deref_def bindE_assoc
  from "1.prems"(1) show ?case
  proof (cases rule: strtok_cases [where d = "'':''"])
    case none
    then show ?thesis by (simp add: unf)
  next
    case (token x r p b1 s1)
    have len: "length (tl x) < BUFSIZE" "length r < BUFSIZE"
      using tok_length [OF token(1)] "1.prems"(2) by auto
    show ?thesis
    proof (cases "strncmp_eq (tl x) CRLF 2")
      case True
      with token show ?thesis by (simp add: unf)
    next
      case False
      from token(5) show ?thesis
      proof (cases rule: strtok_cases [where d = CRLF])
        case none
        with token len False show ?thesis by (simp add: unf strcpy_member_ok)
      next
        case val: (token y r2 p2 b2 s2)
        have len2: "length (tl y) < BUFSIZE" "length r2 < BUFSIZE"
          using tok_length [OF val(1)] len(2) by auto
        have "set_header h i (tl x) = Inr h1 \<Longrightarrow> set_value h1 (i + 1) (tl y) = Inr h2 \<Longrightarrow>
            bindE (header_loop b2 s2 (i + 2) h2)
              (\<lambda>(h, b, p). bindE (str_at b (p + 1)) (\<lambda>t. Inr (h, t)))
            = header_spec r2 (i + 2) h2" for h1 h2
          using "1.IH" [of "(x, r)" x r h1 "(y, r2)" y r2 h2] token(1) False val len2 by simp
        then show ?thesis
          using token val len len2 False by (auto simp: unf strcpy_member_ok intro!: bindE_cong)
      qed
    qed
  qed
qed

text \<open>The loop only ends at the empty line, so the test after it succeeds.\<close>

lemma strncmp_CRLF_2_1: "strncmp_eq z CRLF 2 \<Longrightarrow> strncmp_eq z CRLF (Suc 0)"
  by (cases z) (auto simp: strncmp_eq_def)

lemma header_spec_InrE:
  assumes "header_spec t i h = Inr hz"
  obtains (stop) x r where "tok '':'' t = Some (x, r)" "strncmp_eq (tl x) CRLF 2" "hz = (h, tl x)"
  | (more) x r y r2 h1 h2 where "tok '':'' t = Some (x, r)" "\<not> strncmp_eq (tl x) CRLF 2"
      "set_header h i (tl x) = Inr h1" "tok CRLF r = Some (y, r2)"
      "set_value h1 (i + 1) (tl y) = Inr h2" "header_spec r2 (i + 2) h2 = Inr hz"
  using assms that
  by (subst (asm) header_spec.simps) (auto simp: bindE_eq_Inr split: option.splits if_splits)

lemma header_spec_end: "header_spec t i h = Inr (h', z) \<Longrightarrow> strncmp_eq z CRLF 2"
proof (induction t i h rule: header_spec.induct)
  case (1 t i h)
  from "1.prems" show ?case
  proof (cases rule: header_spec_InrE)
    case (more x r y r2 h1 h2)
    then show ?thesis using "1.IH" [of "(x, r)" x r h1 "(y, r2)" y r2 h2] by simp
  qed simp
qed

lemma header_loop_final:
  assumes "str_at b s = Inr t" and "length t < BUFSIZE"
  shows "bindE (header_loop b s i h) (\<lambda>(h, b, p). bindE (str_at b (Suc p)) (\<lambda>t.
      Inr (if strncmp_eq t CRLF 1 then Some h else None)))
    = bindE (header_spec t i h) (\<lambda>(h, _). Inr (Some h))"
proof (cases "header_loop b s i h")
  case (Inl e)
  with header_loop_spec [OF assms, of i h, symmetric] show ?thesis by simp
next
  case (Inr hbp)
  then obtain h1 b1 p1 where h: "header_loop b s i h = Inr (h1, b1, p1)" by (cases hbp) auto
  show ?thesis
  proof (cases "str_at b1 (Suc p1)")
    case (Inl e)
    with h header_loop_spec [OF assms, of i h, symmetric] show ?thesis by simp
  next
    case (Inr z)
    with h header_loop_spec [OF assms, of i h, symmetric] have "header_spec t i h = Inr (h1, z)"
      by simp
    with h Inr header_spec_end [of t i h h1 z] show ?thesis by (simp add: strncmp_CRLF_2_1)
  qed
qed

text \<open>The whole parser on a buffer that holds a C string shorter than a member.\<close>

lemma analasy_spec:
  assumes "str_at buf 0 = Inr text" and "length text < BUFSIZE"
  shows "bindE (analasy buf) (\<lambda>(r, _). Inr r) = request_spec text"
proof (cases "strstr text (CRLF @ CRLF) = None")
  case True
  with assms show ?thesis by (simp add: analasy_eq request_spec_def)
next
  case False
  note unf = analasy_eq request_spec_def deref_def bindE_assoc assms(1) False
  from assms(1) show ?thesis
  proof (cases rule: strtok_cases [where d = "'' ''"])
    case none
    then show ?thesis by (simp add: unf)
  next
    case m: (token m t1 p1 b1 s1)
    have lm: "length m < BUFSIZE" "length t1 < BUFSIZE"
      using tok_length [OF m(1)] assms(2) by auto
    from m(5) show ?thesis
    proof (cases rule: strtok_cases [where d = "'' ''"])
      case none
      with m lm show ?thesis by (simp add: unf strcpy_member_ok)
    next
      case u: (token u t2 p2 b2 s2)
      have lu: "length u < BUFSIZE" "length t2 < BUFSIZE"
        using tok_length [OF u(1)] lm(2) by auto
      from u(5) show ?thesis
      proof (cases rule: strtok_cases [where d = CRLF])
        case none
        with m lm u lu show ?thesis by (simp add: unf strcpy_member_ok)
      next
        case v: (token v t3 p3 b3 s3)
        have lv: "length v < BUFSIZE" "length t3 < BUFSIZE"
          using tok_length [OF v(1)] lu(2) by auto
        let ?h = "raw_request\<lparr>method_f := Some m, url := Some u, version := Some v\<rparr>"
        have "bindE (header_loop b3 s3 0 ?h)
            (\<lambda>(h, b4, p). bindE (str_at b4 (Suc p)) (\<lambda>t.
               Inr (if strncmp_eq t CRLF 1 then Some h else None)))
          = bindE (header_spec t3 0 ?h) (\<lambda>(h, _). Inr (Some h))"
          by (rule header_loop_final [OF v(5) lv(2)])
        with m lm u lu v lv show ?thesis
          by (simp add: unf strcpy_member_ok case_prod_unfold)
      qed
    qed
  qed
qed

section \<open>No out-of-bounds access\<close>

text \<open>
  Every header takes two characters at least and two array slots, so the
  index never passes the end of \<open>nhead\<close>: the only fault left is the
  dereference of a NULL token.
\<close>

lemma header_spec_Inl:
  "i + length t < BUFSIZE \<Longrightarrow> header_spec t i h = Inl e \<Longrightarrow> e = Undef NullDeref"
proof (induction t i h rule: header_spec.induct)
  case (1 t i h)
  show ?case
  proof (cases "tok '':'' t")
    case None
    with "1.prems" show ?thesis by (simp add: header_spec.simps [of t])
  next
    case (Some xr)
    then obtain x r where x: "tok '':'' t = Some (x, r)" by (cases xr) auto
    note unf = header_spec.simps [of t] x set_header_def set_value_def
    show ?thesis
    proof (cases "tok CRLF r")
      case None
      with "1.prems" show ?thesis by (auto simp: unf split: if_splits)
    next
      case (Some yr)
      then obtain y r2 where y: "tok CRLF r = Some (y, r2)" by (cases yr) auto
      have "i + 2 + length r2 < BUFSIZE" and i: "i < BUFSIZE" "Suc i < BUFSIZE"
        using "1.prems"(1) tok_less [OF x] tok_less [OF y] by auto
      then show ?thesis
        using "1.prems"(2) "1.IH" [of "(x, r)" x r _ "(y, r2)" y r2]
        by (auto simp: unf y split: if_splits)
    qed
  qed
qed

lemma request_spec_Inl:
  assumes "length text < BUFSIZE" and "request_spec text = Inl e"
  shows "e = Undef NullDeref"
  using assms
  by (auto simp: request_spec_def bindE_eq_Inl split: if_splits option.splits
      dest!: tok_less header_spec_Inl [rotated])

section \<open>Printing and parsing a request\<close>

text \<open>
  The text of a request with method \<open>m\<close>, url \<open>u\<close>, version \<open>v\<close>, header
  fields \<open>hs\<close> and a body, and the conditions under which it can be read back.
\<close>

fun header_text :: "(string \<times> string) list \<Rightarrow> string" where
  "header_text [] = []"
| "header_text ((n, w) # hs) = n @ '': '' @ w @ CRLF @ header_text hs"

definition request_text ::
  "string \<Rightarrow> string \<Rightarrow> string \<Rightarrow> (string \<times> string) list \<Rightarrow> string \<Rightarrow> string" where
  "request_text m u v hs body =
     m @ '' '' @ u @ '' '' @ v @ CRLF @ header_text hs @ CRLF @ body"

definition field_ok :: "string \<times> string \<Rightarrow> bool" where
  "field_ok = (\<lambda>(n, w). CHR '':'' \<notin> set n \<and> \<not> strncmp_eq n CRLF 2 \<and> CR \<notin> set w \<and> LF \<notin> set w)"

definition request_ok :: "string \<Rightarrow> string \<Rightarrow> string \<Rightarrow> (string \<times> string) list \<Rightarrow> bool" where
  "request_ok m u v hs \<longleftrightarrow>
     m \<noteq> [] \<and> CHR '' '' \<notin> set m \<and> u \<noteq> [] \<and> CHR '' '' \<notin> set u \<and>
     v \<noteq> [] \<and> CR \<notin> set v \<and> LF \<notin> set v \<and> list_all field_ok hs"

text \<open>Where the parser puts the fields: names in even, values in odd slots.\<close>

fun place :: "nat \<Rightarrow> (string \<times> string) list \<Rightarrow> (nat \<Rightarrow> newhead) \<Rightarrow> (nat \<Rightarrow> newhead)" where
  "place i [] f = f"
| "place i ((n, w) # hs) f =
     place (i + 2) hs (f(i := (f i)\<lparr>header := Some n\<rparr>,
                         i + 1 := (f (i + 1))\<lparr>value_f := Some w\<rparr>))"

lemma place_below: "j < i \<Longrightarrow> place i hs f j = f j"
  by (induction i hs f rule: place.induct) auto

lemma place_nth:
  "k < length hs \<Longrightarrow>
   header (place i hs f (i + 2 * k)) = Some (fst (hs ! k)) \<and>
   value_f (place i hs f (i + 2 * k + 1)) = Some (snd (hs ! k))"
proof (induction i hs f arbitrary: k rule: place.induct)
  case (2 i n w hs f)
  show ?case
  proof (cases k)
    case 0
    then show ?thesis by (simp add: place_below)
  next
    case (Suc k')
    with "2.prems" "2.IH" [of k'] show ?thesis by (simp add: fun_upd_def)
  qed
qed simp

lemma header_spec_text:
  assumes "list_all field_ok hs" and "i + 2 * length hs \<le> BUFSIZE"
  shows "\<exists>z. header_spec (LF # header_text hs @ CRLF @ body) i h
    = Inr (h\<lparr>nhead := place i hs (nhead h)\<rparr>, z)"
  using assms
proof (induction hs arbitrary: i h)
  case Nil
  obtain w' r' where "tok '':'' (LF # CRLF @ body) = Some (LF # CRLF @ w', r')"
    using tok_prefix [of "LF # CRLF" "'':''" body] by auto
  then show ?case by (simp add: header_spec.simps [of "LF # _"] strncmp_eq_def)
next
  case (Cons nw hs)
  obtain n w where nw: "nw = (n, w)" by (cases nw)
  with Cons.prems have ok: "CHR '':'' \<notin> set n" "\<not> strncmp_eq n CRLF 2" "CR \<notin> set w" "LF \<notin> set w"
    and rest: "list_all field_ok hs" and i: "i < BUFSIZE" "Suc i < BUFSIZE"
      "(i + 2) + 2 * length hs \<le> BUFSIZE"
    by (auto simp: field_ok_def)
  let ?r = "LF # header_text hs @ CR # LF # body"
  have t1: "tok '':'' (LF # n @ CHR '':'' # CHR '' '' # w @ CR # ?r) = Some (LF # n, CHR '' '' # w @ CR # ?r)"
    using tok_word [of "LF # n" "'':''" "CHR '':''" "CHR '' '' # w @ CR # ?r"] ok(1) by simp
  have t2: "tok CRLF (CHR '' '' # w @ CR # ?r) = Some (CHR '' '' # w, ?r)"
    using tok_word [of "CHR '' '' # w" CRLF CR ?r] ok(3,4) by simp
  let ?f = "(nhead h)(i := (nhead h i)\<lparr>header := Some n\<rparr>,
    Suc i := (nhead h (Suc i))\<lparr>value_f := Some w\<rparr>)"
  have "header_spec (LF # header_text (nw # hs) @ CRLF @ body) i h
      = header_spec ?r (i + 2) (h\<lparr>nhead := ?f\<rparr>)"
    using ok(2) i(1,2) nw
    by (simp add: header_spec.simps [of "LF # n @ _"] t1 t2 set_header_def set_value_def)
  with Cons.IH [OF rest i(3), of "h\<lparr>nhead := ?f\<rparr>"] show ?case
    by (simp add: nw fun_upd_def)
qed

lemma header_text_CRLF: "\<exists>pre. CRLF @ header_text hs = pre @ CRLF"
proof (induction hs rule: header_text.induct)
  case 1
  show ?case by simp
next
  case (2 n w hs)
  then obtain pre where "CRLF @ header_text hs = pre @ CRLF" by blast
  then have "CRLF @ header_text ((n, w) # hs) = (CRLF @ n @ '': '' @ w @ pre) @ CRLF" by simp
  then show ?case by blast
qed

lemma request_text_has_end: "strstr (request_text m u v hs body) (CRLF @ CRLF) \<noteq> None"
proof -
  obtain pre where "CRLF @ header_text hs = pre @ CRLF" using header_text_CRLF by blast
  then have "request_text m u v hs body = (m @ '' '' @ u @ '' '' @ v @ pre) @ (CRLF @ CRLF) @ body"
    unfolding request_text_def by (metis append.assoc)
  then show ?thesis unfolding strstr_None by blast
qed

lemma header_text_length: "2 * length hs \<le> length (header_text hs)"
  by (induction hs rule: header_text.induct) auto

lemma request_spec_text:
  assumes ok: "request_ok m u v hs" and len: "length (request_text m u v hs body) < BUFSIZE"
  shows "request_spec (request_text m u v hs body) = Inr (Some
    (raw_request\<lparr>method_f := Some m, url := Some u, version := Some v,
       nhead := place 0 hs (nhead raw_request)\<rparr>))"
proof -
  let ?tail = "LF # header_text hs @ CR # LF # body"
  let ?h = "raw_request\<lparr>method_f := Some m, url := Some u, version := Some v\<rparr>"
  have toks: "tok '' '' (m @ CHR '' '' # u @ CHR '' '' # v @ CR # ?tail) = Some (m, u @ CHR '' '' # v @ CR # ?tail)"
    "tok '' '' (u @ CHR '' '' # v @ CR # ?tail) = Some (u, v @ CR # ?tail)"
    "tok CRLF (v @ CR # ?tail) = Some (v, ?tail)"
    using ok by (simp_all add: request_ok_def)
  have "0 + 2 * length hs \<le> BUFSIZE" "list_all field_ok hs"
    using header_text_length [of hs] len ok by (simp_all add: request_text_def request_ok_def)
  then obtain z where "header_spec ?tail 0 ?h = Inr (?h\<lparr>nhead := place 0 hs (nhead ?h)\<rparr>, z)"
    using header_spec_text [of hs 0 body ?h] by auto
  moreover have "request_text m u v hs body = m @ CHR '' '' # u @ CHR '' '' # v @ CR # ?tail"
    by (simp add: request_text_def)
  ultimately show ?thesis
    using request_text_has_end [of m u v hs body]
    by (auto simp: request_spec_def toks)
qed

section \<open>Reading a line\<close>

lemma readline_loop_line:
  assumes b: "b = pre @ line @ CRLF @ tail" and line: "LF \<notin> set line" "NUL \<notin> set line"
    and len: "length line + 1 < length usr" "length line + 1 < maxlen"
    and i: "1 \<le> i" "i \<le> length line + 1" and usr: "take i usr = take i (line @ [CR])"
  shows "\<exists>usr'. readline_loop b (length pre) maxlen i usr
      = Inr (int (length line) + 1, length pre + (length line + 2), usr')
    \<and> str_at usr' 0 = Inr line \<and> length usr' = length usr"
  using len i usr
proof (induction "length line + 1 - i" arbitrary: i usr)
  case 0
  then have i: "i = length line + 1" by simp
  have rds: "rd b (length pre + i) = Inr LF" "rd b (length pre + i - 1) = Inr CR"
    using b i by (simp_all add: rd_def nth_append)
  have w: "readline_loop b (length pre) maxlen i usr
      = Inr (int (length line) + 1, length pre + (length line + 2), usr[i - 1 := NUL, i := NUL])"
    using 0 i rds by (simp add: readline_loop.simps [of b] wr_def)
  have "take (length line) usr = line"
    using 0 i by (metis append_eq_conv_conj take_take min.absorb1 le_add1)
  then have "usr[i - 1 := NUL, i := NUL] = line @ NUL # drop (Suc (length line)) (usr[i := NUL])"
    using 0 i by (simp add: upd_conv_take_nth_drop list_update_swap)
  with w line(2) "0.prems"(1) show ?case by (simp add: str_at_Inr)
next
  case (Suc n)
  then have i: "i < length line + 1" by simp
  let ?c = "(line @ [CR]) ! i"
  have c: "rd b (length pre + i) = Inr ?c" "?c \<noteq> LF" "?c \<noteq> NUL"
    using b i line by (auto simp: rd_def nth_append in_set_conv_nth)
  have "readline_loop b (length pre) maxlen i usr
      = readline_loop b (length pre) maxlen (i + 1) (usr[i := ?c])"
    using Suc c i by (simp add: readline_loop.simps [of b _ _ i] wr_def)
  moreover have "take (i + 1) (usr[i := ?c]) = take (i + 1) (line @ [CR])"
    using Suc i by (simp add: take_Suc_conv_app_nth del: take_append)
  ultimately show ?case
    using Suc.hyps(1) [of "i + 1" "usr[i := ?c]"] Suc.hyps(2) Suc.prems i by simp
qed

section \<open>Receiving\<close>

lemma fill_zero: "length d \<le> n \<Longrightarrow> fill (replicate n NUL) 0 d = d @ replicate (n - length d) NUL"
  by (simp add: fill_def)

lemma fill_zeros [simp]: "fill (replicate n NUL) 0 (replicate n NUL) = replicate n NUL"
  by (simp add: fill_def)

lemma fill_none [simp]: "fill a 0 [] = a"
  by (simp add: fill_def)

lemma fill_length: "p + length d \<le> length a \<Longrightarrow> length (fill a p d) = length a"
  by (simp add: fill_def)

lemma c_str_padded:
  "0 < n \<Longrightarrow> c_str (d @ replicate n NUL) = Some (takeWhile (\<lambda>c. c \<noteq> NUL) d)"
  by (induction d) (auto simp: gr0_conv_Suc)

lemma c_str_zeros [simp]: "0 < n \<Longrightarrow> c_str (replicate n NUL) = Some []"
  using c_str_padded [of n "[]"] by simp

lemma READ_COUNT_BUF_pos [simp]: "0 < READ_COUNT_BUF"
  by (simp add: READ_COUNT_BUF_def)

lemma onRecv_zero: "onRecv_loop len rs cur off 0 buf = Inr (to_size (int len), buf, rs)"
  by (simp add: onRecv_loop.simps)

lemma onRecv_moved:
  "0 < nleft \<Longrightarrow> off \<noteq> 0 \<Longrightarrow> length cur = READ_COUNT_BUF \<Longrightarrow>
   onRecv_loop len rs cur off nleft buf = Inl (Undef WriteOOB)"
  by (auto simp: onRecv_loop.simps [of len] memset_ok_def)

lemma to_size_after_error: "0 \<le> x \<Longrightarrow> x < 2 ^ 63 \<Longrightarrow> to_size (x - (2 ^ 64 - 1)) = x + 1"
proof -
  assume x: "0 \<le> x" "x < 2 ^ 63"
  have "(x - (2 ^ 64 - 1)) mod 2 ^ 64 = ((x + 1) + 2 ^ 64 * (- 1)) mod 2 ^ 64" by simp
  also have "\<dots> = (x + 1) mod 2 ^ 64" by (rule mod_mult_self2)
  also have "\<dots> = x + 1" using x by simp
  finally show ?thesis by (simp add: to_size_def take_bit_eq_mod)
qed

lemma onRecv_step:
  assumes len: "0 < len" "len < READ_COUNT_BUF" and buf: "NUL \<notin> set t" "len \<le> length post"
  shows "onRecv (r # rs) (t @ NUL # post) len =
    (case r of
       RdErr _ \<Rightarrow> Inl (Undef WriteOOB)
     | RdData d \<Rightarrow>
         let d' = take len d; s = takeWhile (\<lambda>c. c \<noteq> NUL) d' in
         if d' = [] then Inr (0, t @ NUL # post, rs)
         else if length d' < len then Inl (Undef WriteOOB)
         else Inr (int len, t @ s @ NUL # drop (length s) post, rs))"
proof -
  have small: "int len < 2 ^ 63" using len by (simp add: READ_COUNT_BUF_def)
  then have id: "to_size (int k) = int k" "to_ssize (int k) = int k" "to_size (int len - int k) = int len - int k"
    if "k \<le> len" for k
    using that by (simp_all add: to_size_id to_ssize_id)
  have cat: "strcat (t @ NUL # post) s = Inr (t @ s @ NUL # drop (length s) post)"
    if "length s \<le> len" for s
    using strcat_str [of t s post] buf that by simp
  note unf = onRecv_def onRecv_loop.simps [of len "_ # _"] memset_ok_def str_at_def
  show ?thesis
  proof (cases r)
    case (RdErr e)
    have "to_ssize (2 ^ 64 - 1) = - 1" by (simp add: to_ssize_def)
    then show ?thesis
      using RdErr len id [of 0] id [of len] cat [of "[]"] to_size_after_error [of "int len"] small
      by (simp add: unf onRecv_moved)
  next
    case (RdData d)
    define d' where "d' = take len d"
    define s where "s = takeWhile (\<lambda>c. c \<noteq> NUL) d'"
    let ?cur = "fill (replicate READ_COUNT_BUF NUL) 0 d'"
    have k: "length d' \<le> len" by (simp add: d'_def)
    have c: "c_str ?cur = Some s" and cur: "length ?cur = READ_COUNT_BUF"
      using len k by (simp_all add: fill_zero c_str_padded s_def fill_length)
    have "length s \<le> len"
      unfolding s_def using length_takeWhile_le k by (rule le_trans)
    note cat' = cat [OF this]
    have go: "onRecv (r # rs) (t @ NUL # post) len =
      (if d' = [] then Inr (0, t @ NUL # post, rs)
       else onRecv_loop len rs ?cur (int (length d')) (int len - int (length d'))
         (t @ s @ NUL # drop (length s) post))"
      using RdData len k id [OF k] id [of len] id [of 0] c cat' by (simp add: unf Let_def flip: d'_def)
    show ?thesis
    proof (cases "length d' < len")
      case True
      then show ?thesis
        using RdData len go cur by (simp add: onRecv_moved flip: d'_def)
    next
      case False
      with k have "length d' = len" by simp
      then show ?thesis
        using RdData len go cur id [of len] by (auto simp: onRecv_zero Let_def simp flip: d'_def s_def)
    qed
  qed
qed

text \<open>A read that delivers less than was asked for, into any buffer.\<close>

lemma onRecv_short:
  assumes "d \<noteq> []" "length d < len" "len < READ_COUNT_BUF"
  shows "\<exists>e. onRecv (RdData d # rs) b len = Inl (Undef e)"
proof -
  define s where "s = takeWhile (\<lambda>c. c \<noteq> NUL) d"
  let ?cur = "fill (replicate READ_COUNT_BUF NUL) 0 d"
  have id: "to_size (int k) = int k" "to_ssize (int k) = int k" "to_size (int len - int k) = int len - int k" if "k \<le> len" for k
    using that assms(3) by (simp_all add: to_size_id to_ssize_id READ_COUNT_BUF_def)
  have c: "c_str ?cur = Some s" and cur: "length ?cur = READ_COUNT_BUF"
    using assms by (simp_all add: fill_zero c_str_padded s_def fill_length)
  have "onRecv (RdData d # rs) b len =
      bindE (strcat b s) (onRecv_loop len rs ?cur (int (length d)) (int len - int (length d)))"
    using assms id [of "length d"] id [of len] id [of 0] c
    by (simp add: onRecv_def onRecv_loop.simps [of len "_ # _"] memset_ok_def str_at_def Let_def)
  then show ?thesis
    using strcat_stops assms by (cases "strcat b s") (auto simp: onRecv_moved cur)
qed


section \<open>Properties\<close>

lemma analasy_Inr_spec:
  assumes "str_at buf 0 = Inr text" and "length text < BUFSIZE" and "request_spec text = Inr r"
  shows "\<exists>b. analasy buf = Inr (r, b)"
  using analasy_spec [OF assms(1,2)] assms(3) by (auto simp: bindE_eq_Inr)

lemma analasy_Inl_spec:
  assumes "str_at buf 0 = Inr text" and "length text < BUFSIZE" and "request_spec text = Inl e"
  shows "analasy buf = Inl e"
  using analasy_spec [OF assms(1,2)] assms(3) by (auto simp: bindE_eq_Inl)

text \<open>
  C1. Round trip: the text of a request with single-word method and url, a
  version and any number of header fields, followed by the empty line and any
  body, is parsed back to the same method, url, version and fields, the k-th
  name in slot 2k and the k-th value in slot 2k+1 of \<open>nhead\<close>.
\<close>

theorem analasy_roundtrip:
  assumes "request_ok m u v hs" and "NUL \<notin> set (request_text m u v hs body)"
    and "length (request_text m u v hs body) < BUFSIZE"
  shows "\<exists>h b. analasy (request_text m u v hs body @ NUL # junk) = Inr (Some h, b) \<and>
    method_f h = Some m \<and> url h = Some u \<and> version h = Some v \<and>
    (\<forall>k<length hs. header (nhead h (2 * k)) = Some (fst (hs ! k)) \<and>
                    value_f (nhead h (2 * k + 1)) = Some (snd (hs ! k)))"
proof -
  have "str_at (request_text m u v hs body @ NUL # junk) 0 = Inr (request_text m u v hs body)"
    using assms(2) str_at_append [of _ 0 "[]"] by simp
  from analasy_Inr_spec [OF this assms(3) request_spec_text [OF assms(1,3)]]
  obtain b where b: "analasy (request_text m u v hs body @ NUL # junk)
      = Inr (Some (raw_request\<lparr>method_f := Some m, url := Some u, version := Some v,
               nhead := place 0 hs (nhead raw_request)\<rparr>), b)" by blast
  have "header (place 0 hs f (2 * k)) = Some (fst (hs ! k)) \<and>
      value_f (place 0 hs f (2 * k + 1)) = Some (snd (hs ! k))" if "k < length hs" for k f
    using place_nth [OF that, of 0 f] by simp
  with b show ?thesis by simp
qed

lemmas request_witness_simps = request_ok_def field_ok_def strncmp_eq_def request_text_def BUFSIZE_def

theorem analasy_roundtrip_witness:
  "\<exists>h b. analasy (request_text ''GET'' ''/a'' ''HTTP/1.1'' [(''Host'', ''h'')] ''x'' @ NUL # [])
      = Inr (Some h, b) \<and> method_f h = Some ''GET'' \<and> header (nhead h 0) = Some ''Host'' \<and>
      value_f (nhead h 1) = Some ''h''"
proof -
  have "request_ok ''GET'' ''/a'' ''HTTP/1.1'' [(''Host'', ''h'')]"
    "NUL \<notin> set (request_text ''GET'' ''/a'' ''HTTP/1.1'' [(''Host'', ''h'')] ''x'')"
    "length (request_text ''GET'' ''/a'' ''HTTP/1.1'' [(''Host'', ''h'')] ''x'') < BUFSIZE"
    by (simp_all add: request_witness_simps)
  from analasy_roundtrip [OF this, of "[]"] show ?thesis by force
qed

text \<open>
  C5. Memory safety: on a buffer that holds a C string of fewer than
  \<open>BUFSIZE\<close> characters the parser neither reads nor writes outside of an array
  (the caller's buffer, the members, the \<open>nhead\<close> table); the one fault left is
  the use of a NULL result of \<open>strtok\<close>.
\<close>

theorem analasy_memory_safe:
  assumes "str_at buf 0 = Inr text" and "length text < BUFSIZE" and "analasy buf = Inl e"
  shows "e = Undef NullDeref"
proof -
  from analasy_spec [OF assms(1,2)] assms(3) have "request_spec text = Inl e" by simp
  with assms(2) show ?thesis by (rule request_spec_Inl)
qed

lemma bad_request_crashes:
  assumes "CHR '' '' \<notin> set text" and "strstr text (CRLF @ CRLF) \<noteq> None"
  shows "request_spec text = Inl (Undef NullDeref)"
proof (cases "tok '' '' text")
  case None
  with assms show ?thesis by (simp add: request_spec_def)
next
  case (Some mr)
  then obtain m r where mr: "tok '' '' text = Some (m, r)" by (cases mr) auto
  with assms(1) have "r = []" by (auto dest!: tok_decomp)
  moreover have "tok '' '' [] = None" by (simp add: tok_None)
  ultimately show ?thesis using mr assms(2) by (simp add: request_spec_def)
qed

lemma crash_text: "request_spec (CHR ''x'' # CRLF @ CRLF) = Inl (Undef NullDeref)"
  by (rule bad_request_crashes) simp_all

lemma crash_buffer:
  "str_at ((CHR ''x'' # CRLF @ CRLF) @ [NUL]) 0 = Inr (CHR ''x'' # CRLF @ CRLF)"
  "length (CHR ''x'' # CRLF @ CRLF) < BUFSIZE"
  by (simp_all add: str_at_def BUFSIZE_def)

theorem analasy_memory_safe_witness:
  "\<exists>e. analasy ((CHR ''x'' # CRLF @ CRLF) @ [NUL]) = Inl e \<and> e = Undef NullDeref"
  using analasy_memory_safe [OF crash_buffer analasy_Inl_spec [OF crash_buffer crash_text]]
    analasy_Inl_spec [OF crash_buffer crash_text] by blast

text \<open>
  The parser returns NULL exactly when the text has no empty line, and
  then the caller's buffer is unchanged.
\<close>

theorem analasy_null_iff:
  assumes "str_at buf 0 = Inr txt" and "length txt < BUFSIZE"
  shows "analasy buf = Inr (None, b) \<longleftrightarrow> (\<nexists>u v. txt = u @ CRLF @ CRLF @ v) \<and> b = buf"
proof -
  have none: "strstr txt (CRLF @ CRLF) = None \<longleftrightarrow> (\<nexists>u v. txt = u @ CRLF @ CRLF @ v)"
    using strstr_None [of "txt" "CRLF @ CRLF"] by simp
  show ?thesis
  proof (cases "strstr txt (CRLF @ CRLF) = None")
    case True
    with none assms(1) show ?thesis by (auto simp: analasy_eq)
  next
    case False
    then have "request_spec txt \<noteq> Inr None"
      by (auto simp: request_spec_def bindE_eq_Inr split: option.splits)
    then have "analasy buf \<noteq> Inr (None, b)"
      using analasy_spec [OF assms] by auto
    moreover have "\<not> (\<nexists>u v. txt = u @ CRLF @ CRLF @ v)"
      using False by (simp only: none not_False_eq_True)
    ultimately show ?thesis by metis
  qed
qed

theorem analasy_null_iff_witness:
  "analasy (''GET'' @ [NUL]) = Inr (None, ''GET'' @ [NUL])"
proof -
  have s: "str_at (''GET'' @ [NUL]) 0 = Inr ''GET''" "length ''GET'' < BUFSIZE"
    by (simp_all add: str_at_def BUFSIZE_def)
  have "\<nexists>u v. ''GET'' = u @ CRLF @ CRLF @ v"
    using strstr_None [of "''GET''" "CRLF @ CRLF"] by simp
  with analasy_null_iff [OF s, of "''GET'' @ [NUL]"] show ?thesis by blast
qed

text \<open>
  A request text with an empty line but without a blank makes the parser
  dereference a NULL pointer: four bytes CR LF CR LF stop the worker.
\<close>

theorem analasy_null_deref:
  assumes "str_at buf 0 = Inr txt" and "length txt < BUFSIZE"
    and "CHR '' '' \<notin> set txt" and "strstr txt (CRLF @ CRLF) \<noteq> None"
  shows "analasy buf = Inl (Undef NullDeref)"
  using assms(1,2) bad_request_crashes [OF assms(3,4)] by (rule analasy_Inl_spec)

theorem analasy_null_deref_witness:
  "analasy ((CRLF @ CRLF) @ [NUL]) = Inl (Undef NullDeref)"
  by (rule analasy_null_deref [of _ "CRLF @ CRLF"]) (simp_all add: str_at_def BUFSIZE_def)

text \<open>
  Without memory for the request: the result of \<open>malloc\<close> is not tested, so when it
  is NULL every text with an empty line makes the parser write through NULL.
\<close>

theorem analasy_no_memory:
  assumes "str_at buf 0 = Inr (u @ CRLF @ CRLF @ v)"
  shows "analasy_in None buf = Inl (Undef NullDeref)"
proof -
  have "strstr (u @ CRLF @ CRLF @ v) (CRLF @ CRLF) \<noteq> None"
    using strstr_None [of "u @ CRLF @ CRLF @ v" "CRLF @ CRLF"] by auto
  then show ?thesis
    using assms by (cases rule: strtok_cases [OF assms, where d = "'' ''"]) (simp_all add: analasy_in_def)
qed

theorem analasy_no_memory_witness:
  "analasy_in None ((''GET / HTTP/1.1'' @ CRLF @ CRLF) @ [NUL]) = Inl (Undef NullDeref)"
  by (rule analasy_no_memory [where u = "''GET / HTTP/1.1''" and v = "[]"]) (simp add: str_at_def)


text \<open>
  One call of \<open>readline_buf\<close> on a line ended by CR LF copies the line
  into the destination, returns its length plus one and moves behind the LF.
\<close>

theorem readline_buf_line:
  assumes "LF \<notin> set line" and "NUL \<notin> set line" and "NUL \<notin> set rest"
    and "line = [] \<or> hd line \<noteq> CHR '' ''"
    and "length line + 1 < length usr" "length (line @ CRLF @ rest) < 2 ^ 31" "maxlen < 2 ^ 31"
  shows "\<exists>usr'. readline_buf (pre @ (line @ CRLF @ rest) @ NUL # post) (Some (length pre)) (Some usr) maxlen
      = Inr (int (length line) + 1, Some (length pre + (length line + 2)), Some usr')
    \<and> str_at usr' 0 = Inr line"
proof -
  let ?t = "line @ CRLF @ rest"
  let ?b = "pre @ ?t @ NUL # post"
  have s: "str_at ?b (length pre) = Inr ?t"
    using assms(2,3) by (intro str_at_append) auto
  have sp: "strspn ?t '' '' = 0"
    using assms(4) by (cases line) (auto simp: strspn_def)
  have hd: "take (Suc 0) (usr[0 := x]) = [x]" for x
    using assms(5) by (cases usr) auto
  have c: "rd ?b (length pre) = Inr ((line @ [CR]) ! 0)"
    by (cases line) (simp_all add: rd_def nth_append)
  have "\<exists>usr'. readline_loop ?b (length pre) (max maxlen (length ?t)) 1 (usr[0 := (line @ [CR]) ! 0])
      = Inr (int (length line) + 1, length pre + (length line + 2), usr')
    \<and> str_at usr' 0 = Inr line \<and> length usr' = length (usr[0 := (line @ [CR]) ! 0])"
    using assms(1,2,5) by (intro readline_loop_line [where tail = "rest @ NUL # post"])
      (auto simp: take_Suc_conv_app_nth hd simp del: take_append)
  moreover have "nat (to_size (if to_int (int (length ?t)) < to_int (int maxlen)
      then to_int (int maxlen) else to_int (int (length ?t)))) = max maxlen (length ?t)"
    using assms(6,7) by (simp add: cint_simps max_def nat_add_distrib)
  ultimately show ?thesis using s sp c assms(5)
    by (auto simp: readline_buf_def wr_def Let_def simp del: length_append)
qed

theorem readline_buf_line_witness:
  "\<exists>usr'. readline_buf (''ab'' @ CRLF @ [NUL]) (Some 0) (Some (replicate 8 NUL)) 4
      = Inr (3, Some 4, Some usr') \<and> str_at usr' 0 = Inr ''ab''"
proof -
  have four: "Suc (Suc (Suc (Suc 0))) = (4 :: nat)" by simp
  from readline_buf_line [of "''ab''" "[]" "replicate 8 NUL" 4 "[]" "[]"] show ?thesis by (simp add: four)
qed

text \<open>
  What one call of \<open>onRecv\<close> does on a buffer that holds the string \<open>t\<close>:
  end of file leaves everything unchanged, a \<open>read\<close> that delivers all the
  requested bytes appends them (up to the first NUL) and reports the count; a
  shorter \<open>read\<close> and a failing \<open>read\<close> (\<open>EAGAIN\<close> on the non-blocking socket
  included) make the next \<open>memset\<close> write past the stack array.
\<close>

theorem onRecv_behaviour:
  assumes "0 < len" and "len < READ_COUNT_BUF" and "NUL \<notin> set t" and "len \<le> length post"
  shows "onRecv (r # rs) (t @ NUL # post) len =
    (case r of
       RdErr _ \<Rightarrow> Inl (Undef WriteOOB)
     | RdData d \<Rightarrow>
         let d' = take len d; s = takeWhile (\<lambda>c. c \<noteq> NUL) d' in
         if d' = [] then Inr (0, t @ NUL # post, rs)
         else if length d' < len then Inl (Undef WriteOOB)
         else Inr (int len, t @ s @ NUL # drop (length s) post, rs))"
  using assms by (rule onRecv_step)

theorem onRecv_behaviour_witness:
  "onRecv [RdData ''GE'', RdErr EAGAIN] (''x'' @ NUL # replicate 10 NUL) 2
     = Inr (2, ''xGE'' @ replicate 9 NUL, [RdErr EAGAIN]) \<and>
   onRecv [RdData ''G'', RdErr EAGAIN] (''x'' @ NUL # replicate 10 NUL) 2 = Inl (Undef WriteOOB)"
  using onRecv_behaviour [of 2 "''x''" "replicate 10 NUL" "RdData ''GE''" "[RdErr EAGAIN]"]
    onRecv_behaviour [of 2 "''x''" "replicate 10 NUL" "RdData ''G''" "[RdErr EAGAIN]"]
  by (simp_all add: READ_COUNT_BUF_def eval_nat_numeral)

lemma callback_request:
  assumes len: "0 < len" "len < READ_COUNT_BUF" "length d = len"
    and tx: "t @ d = request_text m u v hs body" "NUL \<notin> set (t @ d)" "length (t @ d) < BUFSIZE"
    and ok: "request_ok m u v hs"
    and bufs: "length (t @ NUL # post) = BUFSIZE" "length (ctx_buf ctx) = BUFSIZE"
    and ctx: "parse_req ctx = analasy"
  shows "\<exists>h ctx' b. callback ctx f_recv (RdData d # rs) (Some (t @ NUL # post)) len
      = Inr (Some h, ctx', b, rs) \<and> method_f h = Some m \<and> url h = Some u \<and> version h = Some v \<and>
    str_at b 0 = Inr (t @ d)"
proof -
  have nul: "NUL \<notin> set t" "takeWhile (\<lambda>c. c \<noteq> NUL) d = d"
    using tx(2) by (auto simp: takeWhile_eq_all_conv)
  have "d \<noteq> []" and fit: "len \<le> length post" using len tx(3) bufs(1) by auto
  let ?b = "t @ d @ NUL # drop (length d) post"
  have recv: "onRecv (RdData d # rs) (t @ NUL # post) len = Inr (int len, ?b, rs)"
    using onRecv_step [OF len(1,2) nul(1) fit, of "RdData d" rs] nul len \<open>d \<noteq> []\<close> by simp
  have b: "str_at ?b 0 = Inr (t @ d)"
    using str_at_append [of "t @ d" 0 "[]"] tx(2) by simp
  let ?c = "(t @ d) @ NUL # drop (length (t @ d) + 1) (ctx_buf ctx)"
  have snp: "put_str (ctx_buf ctx) 0 (take (BUFSIZE - 1) (t @ d)) = Inr ?c"
    using put_str_0 [of "t @ d" "ctx_buf ctx"] tx(3) bufs(2) by simp
  have c: "str_at ?c 0 = Inr (t @ d)"
    using str_at_append [of "t @ d" 0 "[]"] tx(2) by simp
  obtain c' where "analasy ?c = Inr (Some (raw_request\<lparr>method_f := Some m, url := Some u,
      version := Some v, nhead := place 0 hs (nhead raw_request)\<rparr>), c')"
    using analasy_Inr_spec [OF c tx(3)] request_spec_text [OF ok, of body] tx by auto
  with recv b snp ctx show ?thesis by (simp add: callback_def)
qed

text \<open>
  C14. The callback end to end: when the read delivers exactly the \<open>len\<close> bytes it
  asks for, and the string in the connection's buffer together with them is the
  text of a well-formed request of fewer than \<open>BUFSIZE\<close> bytes without a NUL, the
  callback returns that request and the buffer holds the whole text.  (A read
  that delivers fewer bytes ends in \<open>memset\<close> behind the array, see
  \<open>onRecv_behaviour\<close>.)
\<close>

theorem callback_parses:
  assumes len: "0 < len" "len < READ_COUNT_BUF" "length d = len"
    and tx: "t @ d = request_text m u v hs body" "NUL \<notin> set (t @ d)" "length (t @ d) < BUFSIZE"
    and ok: "request_ok m u v hs"
    and bufs: "length (t @ NUL # post) = BUFSIZE" "length (ctx_buf ctx) = BUFSIZE"
    and ctx: "parse_req ctx = analasy"
  shows "\<exists>h ctx' b. callback ctx f_recv (RdData d # rs) (Some (t @ NUL # post)) len
      = Inr (Some h, ctx', b, rs) \<and> method_f h = Some m \<and> url h = Some u \<and> version h = Some v \<and>
    str_at b 0 = Inr (t @ d)"
  using assms by (rule callback_request)

theorem callback_parses_witness:
  "\<exists>h ctx' b. callback \<lparr>ctx_buf = replicate BUFSIZE NUL, parse_req = analasy\<rparr> onRecv
      [RdData (request_text ''GET'' ''/a'' ''HTTP/1.1'' [] [])]
      (Some ([] @ NUL # replicate (BUFSIZE - 1) NUL)) 19
    = Inr (Some h, ctx', b, []) \<and> url h = Some ''/a''"
  using callback_parses [of 19 "request_text ''GET'' ''/a'' ''HTTP/1.1'' [] []" "[]"
      "''GET''" "''/a''" "''HTTP/1.1''" "[]" "[]" "replicate (BUFSIZE - 1) NUL"
      "\<lparr>ctx_buf = replicate BUFSIZE NUL, parse_req = analasy\<rparr>" onRecv "[]"]
  by (auto simp: request_witness_simps READ_COUNT_BUF_def)

text \<open>
  Whatever the connection's buffer holds after a receive, the callback
  hands the parser a text that fits its arrays: the copy is cut to
  \<open>BUFSIZE - 1\<close> characters and no access of the parse is out of bounds.
\<close>

theorem callback_memory_safe:
  assumes recv: "onRecv script b len = Inr (n, b1, rs)" and s: "str_at b1 0 = Inr s"
    and buf: "length (ctx_buf ctx) = BUFSIZE" and ctx: "parse_req ctx = analasy"
    and fault: "callback ctx f_recv script (Some b) len = Inl e"
  shows "e = Undef NullDeref"
proof -
  let ?t = "take (BUFSIZE - 1) s"
  have len: "length ?t < BUFSIZE" by (simp add: BUFSIZE_def)
  have nul: "NUL \<notin> set ?t" using s by (auto simp: str_at_Inr dest: in_set_takeD)
  let ?c = "?t @ NUL # drop (length ?t + 1) (ctx_buf ctx)"
  have "put_str (ctx_buf ctx) 0 ?t = Inr ?c"
    using put_str_0 [of ?t "ctx_buf ctx"] buf len by simp
  with recv s ctx fault have "analasy ?c = Inl e"
    by (auto simp: callback_def bindE_eq_Inl)
  moreover have c: "str_at ?c 0 = Inr ?t"
    using str_at_append [of ?t 0 "[]"] nul by simp
  ultimately have "request_spec ?t = Inl e"
    using analasy_spec [OF c len] by simp
  with len show ?thesis by (rule request_spec_Inl)
qed

lemma callback_crash_setup:
  "onRecv [RdData (CRLF @ CRLF)] (NUL # replicate 9 NUL) 4 = Inr (4, CRLF @ CRLF @ NUL # replicate 5 NUL, [])"
  using onRecv_step [of 4 "[]" "replicate 9 NUL" "RdData (CRLF @ CRLF)" "[]"]
  by (simp add: READ_COUNT_BUF_def eval_nat_numeral)

theorem callback_memory_safe_witness:
  "callback \<lparr>ctx_buf = replicate BUFSIZE NUL, parse_req = analasy\<rparr> onRecv [RdData (CRLF @ CRLF)]
     (Some (NUL # replicate 9 NUL)) 4 = Inl (Undef NullDeref)"
  (is "?cb = _")
proof -
  let ?ctx = "\<lparr>ctx_buf = replicate BUFSIZE NUL, parse_req = analasy\<rparr>"
  let ?s = "CRLF @ CRLF"
  have s: "str_at (CRLF @ CRLF @ NUL # replicate 5 NUL) 0 = Inr ?s" by (simp add: str_at_def)
  have t: "take (BUFSIZE - 1) ?s = ?s" by (simp add: BUFSIZE_def)
  let ?c = "?s @ NUL # drop 5 (replicate BUFSIZE NUL)"
  have p: "put_str (replicate BUFSIZE NUL) 0 ?s = Inr ?c"
    using put_str_0 [of ?s "replicate BUFSIZE NUL"] by (simp add: BUFSIZE_def)
  have "str_at ?c 0 = Inr ?s" "length ?s < BUFSIZE"
    using str_at_append [of ?s 0 "[]"] by (simp_all add: BUFSIZE_def)
  then have "analasy ?c = Inl (Undef NullDeref)"
    by (rule analasy_Inl_spec) (rule bad_request_crashes, simp_all)
  with callback_crash_setup s t p have "\<exists>e. ?cb = Inl e" by (simp add: callback_def)
  then obtain e where e: "?cb = Inl e" ..
  moreover have "e = Undef NullDeref"
    using callback_memory_safe [OF callback_crash_setup s _ _ e] by simp
  ultimately show ?thesis by simp
qed

end
