(* ===== verification/Http_Module.thy ===== *)
theory Http_Module
  imports Socket_IO Request_Parser Sys_Calls
begin

text \<open>
  The file server of \<open>http_module/http_module.h\<close>, with the log of \<open>inc/log.h\<close>:
  finding the local file of a request, the response with the file, the error
  pages, and the dispatch between them.  The file system, the clock and the
  contents of uninitialised stack arrays are parameters; what the kernel does
  with the bytes sent is a script, as in the transfer loops.
\<close>

section \<open>The environment\<close>

definition HTTP_ERROR_NOT_FIND :: int where "HTTP_ERROR_NOT_FIND = 404"
definition HTTP_ERROR_METHOD :: int where "HTTP_ERROR_METHOD = 500"
definition HTTP_ERROR_REQUEST :: int where "HTTP_ERROR_REQUEST = 400"
definition HTTP_SUCCESS :: int where "HTTP_SUCCESS = 200"
definition BUFFSIZE :: nat where "BUFFSIZE = 1024"
definition BUFFER_SIZE :: nat where "BUFFER_SIZE = 1024"
definition PARTSIZE :: nat where "PARTSIZE = 512"
definition SERVER_TYPE :: string where "SERVER_TYPE = ''httpd of file get and sent system''"

text \<open>
  A stream: the bytes left, whether reading past them fails (as it does on a
  directory) instead of reaching the end of the file, and the two flags.
\<close>

record stream =
  fs_rest :: string
  fs_bad :: bool
  fs_eof :: bool
  fs_err :: bool

definition fread :: "nat \<Rightarrow> stream \<Rightarrow> string \<times> stream" where
  "fread n fp =
     (let d = take n (fs_rest fp); short = length d < n in
      (d, fp\<lparr>fs_rest := drop n (fs_rest fp),
             fs_eof := fs_eof fp \<or> short \<and> \<not> fs_bad fp,
             fs_err := fs_err fp \<or> short \<and> fs_bad fp\<rparr>))"

record tm =
  tm_year :: int
  tm_mon :: int
  tm_mday :: int
  tm_hour :: int
  tm_min :: int
  tm_sec :: int

text \<open>\<open>stat\<close> yields whether the path is a directory and \<open>st_size\<close>.\<close>

record env =
  env_stat :: "string \<Rightarrow> (bool \<times> int) option"
  env_fopen :: "string \<Rightarrow> stream option"
  env_log :: "string \<Rightarrow> bool"
  env_now :: tm

section \<open>The log\<close>

definition log_path :: "tm \<Rightarrow> string" where
  "log_path lt = ''/home/jackwu/Desktop/test/'' @ dec_int (tm_year lt + 1900) @ ''-'' @ dec_int (tm_mon lt)
     @ ''-'' @ dec_int (tm_mday lt) @ ''.log''"

definition logOut :: "env \<Rightarrow> string \<Rightarrow> string \<Rightarrow> (string \<times> string) exec" where
  "logOut E flag name =
     (let lt = env_now E; file_path = log_path lt in
      if 80 \<le> length file_path then Inl (Undef WriteOOB)
      else if \<not> env_log E file_path then Inl (Undef NullDeref)
      else Inr (file_path, ''servername=01&ip=127.0.0.1&time='' @ dec_int (tm_year lt + 1900) @ ''-''
        @ dec_int (tm_mon lt) @ ''-'' @ dec_int (tm_mday lt) @ '' '' @ dec_int (tm_hour lt) @ '':''
        @ dec_int (tm_min lt) @ '':'' @ dec_int (tm_sec lt) @ ''&info='' @ flag @ ''&fileortask='' @ name @ [LF]))"

definition log_err :: "env \<Rightarrow> string \<Rightarrow> string \<Rightarrow> (string \<times> string) list exec" where
  "log_err E flag name =
     (if strcasecmp_eq flag ''010'' then bindE (logOut E ''010'' name) (\<lambda>l. Inr [l])
      else if strcasecmp_eq flag ''011'' then bindE (logOut E ''011'' name) (\<lambda>l. Inr [l])
      else Inr [])"

section \<open>Finding the file\<close>

text \<open>
  The two copying loops of \<open>accept_request\<close>: \<open>j\<close> is the position in \<open>buf\<close> and
  \<open>part\<close> what has been written to \<open>method\<close> or \<open>url\<close>, so \<open>i\<close> is its length.
\<close>

function copy_part :: "carray \<Rightarrow> nat \<Rightarrow> string \<Rightarrow> (string \<times> nat) exec" where
  "copy_part buf j part =
     bindE (rd buf j) (\<lambda>c.
     if \<not> isspace c \<and> length part < PARTSIZE then copy_part buf (j + 1) (part @ [c])
     else Inr (part, j))"
  by pat_completeness auto
termination
  by (relation "measure (\<lambda>(buf, j, part). PARTSIZE - length part)") auto

declare copy_part.simps [simp del]

text \<open>The assignment of the terminating NUL, and the C string then in the array.\<close>

definition end_part :: "string \<Rightarrow> string exec" where
  "end_part part = (if length part < PARTSIZE then str_at (part @ [NUL]) 0 else Inl (Undef WriteOOB))"

function skip_space :: "carray \<Rightarrow> nat \<Rightarrow> nat exec" where
  "skip_space buf j =
     bindE (rd buf j) (\<lambda>c. if isspace c \<and> j < BUFFSIZE then skip_space buf (j + 1) else Inr j)"
  by pat_completeness auto
termination
  by (relation "measure (\<lambda>(buf, j). BUFFSIZE - j)") auto

declare skip_space.simps [simp del]

definition local_prefix :: string where
  "local_prefix = ''/home/jackwu/Desktop/test''"

text \<open>The second half of \<open>accept_request\<close>: the local path of a url.\<close>

definition find_file :: "env \<Rightarrow> string \<Rightarrow> carray \<Rightarrow> (int \<times> carray) exec" where
  "find_file E u localPath =
     bindE (put_str localPath 0 (local_prefix @ u)) (\<lambda>p.
     bindE (str_at p 0) (\<lambda>t.
     bindE (if last t = CHR ''/'' then strcat p ''index.html'' else Inr p) (\<lambda>p.
     bindE (str_at p 0) (\<lambda>t.
     case env_stat E t of
       None \<Rightarrow> Inr (HTTP_ERROR_NOT_FIND, p)
     | Some (dir, sz) \<Rightarrow>
         bindE (if dir then bindE (strcat p ''/index.html'') (\<lambda>p. put_str p 0 (local_prefix @ u))
                else Inr p) (\<lambda>p.
         Inr (HTTP_SUCCESS, p))))))"

text \<open>
  \<open>accept_request\<close>: \<open>g\<close> is what the array \<open>buf\<close> holds before it is assigned;
  \<open>localPath\<close> is the caller's array, which is returned with the code.
\<close>

definition accept_request :: "env \<Rightarrow> carray \<Rightarrow> carray \<Rightarrow> (int \<times> carray) exec" where
  "accept_request E g localPath =
     bindE (str_at localPath 0) (\<lambda>s.
     bindE (put_str g 0 s) (\<lambda>buf.
     bindE (copy_part buf 0 []) (\<lambda>(m, j).
     bindE (end_part m) (\<lambda>method.
     bindE (skip_space buf j) (\<lambda>j.
     bindE (copy_part buf j []) (\<lambda>(u, j).
     bindE (end_part u) (\<lambda>url.
     if \<not> strcasecmp_eq method ''GET'' \<and> \<not> strcasecmp_eq method ''POST'' then
       Inr (HTTP_ERROR_METHOD, localPath)
     else find_file E url localPath)))))))"

section \<open>Sending\<close>

text \<open>
  A step of a response prints a text into \<open>buf\<close> and sends it: \<open>say\<close> with
  \<open>http_send\<close> and \<open>strlen\<close>, \<open>say_raw\<close> with a plain \<open>send\<close>, \<open>say_whole\<close> with
  \<open>http_send\<close> and \<open>sizeof\<close>.
\<close>

type_synonym conn = "carray \<times> wr_ret list"

definition say :: "string \<Rightarrow> conn \<Rightarrow> (string \<times> conn) exec" where
  "say s = (\<lambda>(buf, script).
     bindE (put_str buf 0 s) (\<lambda>buf.
     bindE (str_at buf 0) (\<lambda>t.
     bindE (http_send script buf (length t)) (\<lambda>(r, w, script). Inr (w, buf, script)))))"

definition say_raw :: "string \<Rightarrow> conn \<Rightarrow> (string \<times> conn) exec" where
  "say_raw s = (\<lambda>(buf, script).
     bindE (put_str buf 0 s) (\<lambda>buf.
     bindE (str_at buf 0) (\<lambda>t.
     bindE (raw_send script (take (length t) buf)) (\<lambda>(w, script). Inr (w, buf, script)))))"

definition say_whole :: "string \<Rightarrow> conn \<Rightarrow> (string \<times> conn) exec" where
  "say_whole s = (\<lambda>(buf, script).
     bindE (put_str buf 0 s) (\<lambda>buf.
     bindE (http_send script buf (length buf)) (\<lambda>(r, w, script). Inr (w, buf, script))))"

fun steps :: "(conn \<Rightarrow> (string \<times> conn) exec) list \<Rightarrow> conn \<Rightarrow> (string \<times> conn) exec" where
  "steps [] c = Inr ([], c)"
| "steps (f # fs) c = bindE (f c) (\<lambda>(w, c). bindE (steps fs c) (\<lambda>(w', c). Inr (w @ w', c)))"

text \<open>The loop that sends the file.\<close>

partial_function (option) body_loop ::
  "wr_ret list \<Rightarrow> stream \<Rightarrow> string \<Rightarrow> (string \<times> stream \<times> wr_ret list) exec option" where
  "body_loop script fp w =
     (if fs_eof fp then Some (Inr (w, fp, script))
      else
        let (byte, fp') = fread BUFFER_SIZE fp in
        case http_send script byte (length byte) of
          Inl e \<Rightarrow> Some (Inl e)
        | Inr (r, u, script') \<Rightarrow> body_loop script' fp' (w @ u))"

text \<open>The headers of \<open>response_ok\<close>.\<close>

definition ok_header :: "int \<Rightarrow> string \<Rightarrow> conn \<Rightarrow> (string \<times> conn) exec" where
  "ok_header iDataNum name = steps
     [say_raw (''HTTP/1.0 200 OK '' @ CRLF),
      say_raw (''Content-Length: '' @ dec_int iDataNum @ CRLF),
      say_raw (''Content-Type: application/octet-stream'' @ CRLF),
      say_raw (''Content-Disposition: filename='' @ name @ CRLF),
      say_raw (''Connection: close'' @ CRLF @ CRLF)]"

text \<open>
  \<open>response_ok\<close> yields the bytes sent, the entries of the log and what is left
  of the script; \<open>None\<close> is the loop that does not end.
\<close>

definition response_ok ::
  "env \<Rightarrow> carray \<Rightarrow> wr_ret list \<Rightarrow> string \<Rightarrow> (string \<times> (string \<times> string) list \<times> wr_ret list) exec option" where
  "response_ok E g script pathName =
     (case (env_stat E pathName, after_last (CHR ''/'') pathName) of
        (Some (dir, iDataNum), Some name) \<Rightarrow>
          (case ok_header iDataNum name (g, script) of
             Inl e \<Rightarrow> Some (Inl e)
           | Inr (w, buf, script) \<Rightarrow>
               (case env_fopen E pathName of
                  None \<Rightarrow> Some (Inl (Undef NullDeref))
                | Some localFp \<Rightarrow>
                    (case body_loop script localFp w of
                       None \<Rightarrow> None
                     | Some (Inl e) \<Rightarrow> Some (Inl e)
                     | Some (Inr (w, localFp, script)) \<Rightarrow> Some
                         (bindE (if fs_err localFp then log_err E ''011'' name else Inr []) (\<lambda>l.
                          bindE (log_err E ''010'' name) (\<lambda>l'. Inr (w, l @ l', script)))))))
      | (None, _) \<Rightarrow> Some (Inl (Undef Uninit))
      | (_, None) \<Rightarrow> Some (Inl (Undef NullDeref)))"

section \<open>Error pages\<close>

definition unknow :: "conn \<Rightarrow> (string \<times> conn) exec" where
  "unknow = steps
     [say (''HTTP/1.0 404 NOT FOUND'' @ CRLF),
      say SERVER_TYPE,
      say (''Content-Type: text/html'' @ CRLF),
      say_raw (''Connection: close'' @ CRLF),
      say CRLF,
      say (''<HTML><TITLE>Not Found</TITLE>'' @ CRLF),
      say (''<BODY><P>The server could not fulfill'' @ CRLF),
      say (''your request because the resource specified'' @ CRLF),
      say (''is unavailable or nonexistent.'' @ CRLF),
      say (''</BODY></HTML>'' @ CRLF)]"

definition error_method :: "conn \<Rightarrow> (string \<times> conn) exec" where
  "error_method = steps
     [say_raw (''HTTP/1.0 501 Method Not Implemented'' @ CRLF),
      say_raw SERVER_TYPE,
      say_raw (''Content-Type: text/html'' @ CRLF),
      say_raw CRLF,
      say_raw (''<HTML><HEAD><TITLE>Method Not Implemented'' @ CRLF),
      say_raw (''</TITLE></HEAD>'' @ CRLF),
      say_raw (''<BODY><P>HTTP request method not supported.'' @ CRLF),
      say_raw (''</BODY></HTML>'' @ CRLF)]"

definition bad_request :: "conn \<Rightarrow> (string \<times> conn) exec" where
  "bad_request = steps
     [say_whole (''HTTP/1.0 400 BAD REQUEST'' @ CRLF),
      say_whole (''Content-type: text/html'' @ CRLF),
      say_whole CRLF,
      say_whole ''<P>Your browser sent a bad request, '',
      say_whole (''such as a POST without a Content-Length.'' @ CRLF)]"

definition Conti_request :: "conn \<Rightarrow> (string \<times> conn) exec" where
  "Conti_request = steps
     [say_whole (''HTTP/1.0 100 REQUEST not full'' @ CRLF),
      say_whole (''Content-type: text/html'' @ CRLF),
      say_whole CRLF,
      say_whole ''<P>Your browser sent a missing data, '',
      say_whole (''such as a POST without a Content-Length.'' @ CRLF)]"

definition wrong_path :: "conn \<Rightarrow> (string \<times> conn) exec" where
  "wrong_path = steps
     [say_whole (''HTTP/1.0 303 BAD PATH'' @ CRLF),
      say_whole (''Content-type: text/html'' @ CRLF),
      say_whole CRLF,
      say_whole ''<P>Your browser sent a wrong localpath, '',
      say_whole (''such as a POST without a Content-Length.'' @ CRLF)]"

definition toolongUrl :: "conn \<Rightarrow> (string \<times> conn) exec" where
  "toolongUrl = steps
     [say_whole (''HTTP/1.0 411 BAD REQUEST'' @ CRLF),
      say_whole (''Content-type: text/html'' @ CRLF),
      say_whole CRLF,
      say_whole ''<P>Your browser sent a so long request that cant read full, '',
      say_whole (''such as a POST without a Content-Length.'' @ CRLF)]"

definition bad_http :: "conn \<Rightarrow> (string \<times> conn) exec" where
  "bad_http = steps
     [say_whole (''HTTP/1.0 505 BAD REQUEST'' @ CRLF),
      say_whole (''Content-type: text/html'' @ CRLF),
      say_whole CRLF,
      say_whole ''<P>Your http is not fit, '',
      say_whole (''such as a POST without a Content-Length.'' @ CRLF)]"


section \<open>Handlers\<close>

text \<open>
  \<open>geterror_type\<close> passes the member \<open>url\<close> (an array of \<open>BUFSIZE\<close> cells) as the
  local path, so the request is changed; the cells after the string's NUL do
  not matter.
\<close>

definition url_array :: "string \<Rightarrow> carray" where
  "url_array u = u @ replicate (BUFSIZE - length u) NUL"

definition geterror_type :: "env \<Rightarrow> carray \<Rightarrow> http_request \<Rightarrow> (int \<times> http_request) exec" where
  "geterror_type E g req =
     (case url req of
        None \<Rightarrow> Inl (Undef Uninit)
      | Some u \<Rightarrow>
          bindE (accept_request E g (url_array u)) (\<lambda>(r, p).
          bindE (str_at p 0) (\<lambda>t. Inr (r, req\<lparr>url := Some t\<rparr>))))"

record info_t =
  errtype :: int
  filename_f :: string

text \<open>\<open>mem\<close>: whether \<open>malloc\<close> succeeds; the result is not checked.\<close>

definition http_module_handler_request :: "env \<Rightarrow> bool \<Rightarrow> carray \<Rightarrow> info_t exec" where
  "http_module_handler_request E mem g =
     bindE (accept_request E g (replicate BUFSIZE NUL)) (\<lambda>(ret_errno, filename).
     if \<not> mem then Inl (Undef NullDeref)
     else bindE (strcpy_member filename 0) (\<lambda>s. Inr \<lparr>errtype = ret_errno, filename_f = s\<rparr>))"

text \<open>
  \<open>http_module_handler_response\<close>: \<open>g1\<close>, \<open>g2\<close> and \<open>g3\<close> are the former contents of
  \<open>buff_filename\<close>, of \<open>accept_request\<close>'s array and of the responding function's.
\<close>

definition error_page :: "(conn \<Rightarrow> (string \<times> conn) exec) \<Rightarrow> carray \<Rightarrow> wr_ret list \<Rightarrow>
    (string \<times> (string \<times> string) list \<times> wr_ret list) exec option" where
  "error_page page g script = Some (bindE (page (g, script)) (\<lambda>(w, buf, script). Inr (w, [], script)))"

definition http_module_handler_response ::
  "env \<Rightarrow> carray \<Rightarrow> carray \<Rightarrow> carray \<Rightarrow> wr_ret list \<Rightarrow> http_request \<Rightarrow>
     (string \<times> (string \<times> string) list \<times> wr_ret list) exec option" where
  "http_module_handler_response E g1 g2 g3 script req =
     (case (method_f req, url req) of
        (Some m, Some u) \<Rightarrow>
          (case bindE (put_str g1 0 (m @ '' '')) (\<lambda>b.
                bindE (strcat b u) (\<lambda>b.
                bindE (accept_request E g2 b) (\<lambda>(flag, b).
                bindE (str_at b 0) (\<lambda>t. Inr (flag, t))))) of
             Inl e \<Rightarrow> Some (Inl e)
           | Inr (flag, path) \<Rightarrow>
               if flag = HTTP_SUCCESS then response_ok E g3 script path
               else if flag = HTTP_ERROR_NOT_FIND then error_page unknow g3 script
               else if flag = HTTP_ERROR_METHOD then error_page error_method g3 script
               else if flag = HTTP_ERROR_REQUEST then error_page wrong_path g3 script
               else Some (Inr ([], [], script)))
      | _ \<Rightarrow> Some (Inl (Undef Uninit)))"

section \<open>The static error page\<close>

definition log_error_file :: string where
  "log_error_file = ''../html/error.html''"

text \<open>\<open>get_current_time\<close>: \<open>strftime\<close> with its format; 0 when the text does not fit.\<close>

definition two_digits :: "int \<Rightarrow> string" where
  "two_digits n = (if n < 10 then ''0'' @ dec_int n else dec_int n)"

definition get_current_time :: "tm \<Rightarrow> nat \<Rightarrow> nat \<times> string" where
  "get_current_time lt size_buf =
     (let t = dec_int (tm_year lt + 1900) @ ''-'' @ two_digits (tm_mon lt + 1) @ ''-'' @ two_digits (tm_mday lt) @ '' ''
        @ two_digits (tm_hour lt) @ '':'' @ two_digits (tm_min lt) @ '':'' @ two_digits (tm_sec lt) in
      if length t < size_buf then (length t, t) else (0, []))"

text \<open>\<open>snprintf(buf, strlen(buf), ...)\<close> on an array that holds the string \<open>old\<close>.\<close>

definition snprintf_strlen :: "string \<Rightarrow> string \<Rightarrow> string" where
  "snprintf_strlen old t = (if length old = 0 then old else take (length old - 1) t)"

text \<open>The loop that copies the page: \<open>fread\<close> counts whole blocks of \<open>BUFSIZE\<close> bytes.\<close>

partial_function (option) error_loop :: "stream \<Rightarrow> string \<Rightarrow> string exec option" where
  "error_loop fp_error out =
     (if fs_eof fp_error then Some (Inr out)
      else
        let (d, fp') = fread BUFSIZE fp_error in
        if length d = BUFSIZE then
          (case str_at d 0 of Inl e \<Rightarrow> Some (Inl e) | Inr s \<Rightarrow> error_loop fp' (out @ s))
        else error_loop fp' out)"

text \<open>
  \<open>http_module_error\<close> writes to the stream \<open>fp\<close>, whose text so far is \<open>out\<close>; the
  arrays \<open>date\<close>, \<open>cont_len\<close> and \<open>Connection\<close> are zeroed before.
\<close>

definition http_module_error :: "env \<Rightarrow> int \<Rightarrow> world \<Rightarrow> string \<Rightarrow> string exec option" where
  "http_module_error E st_size w out =
     (let date_tmp = snd (get_current_time (env_now E) 50);
          date = snprintf_strlen [] (''Date:'' @ date_tmp @ CRLF) in
      case get_file_length log_error_file st_size w of
        Inl e \<Rightarrow> Some (Inl e)
      | Inr (len, w) \<Rightarrow>
          let cont_len = snprintf_strlen [] (''Content-Length:'' @ dec_int len @ CRLF);
              Connection = snprintf_strlen [] (''Connection: close'' @ CRLF);
              out = out @ '' HTTP/1.1 400 bad Request '' @ CRLF @ ''openresty'' @ CRLF @ date
                @ ''Content-Type:txt/html'' @ CRLF @ cont_len @ Connection in
          (case env_fopen E log_error_file of
             None \<Rightarrow> Some unix_error
           | Some fp_error \<Rightarrow> error_loop fp_error out))"

section \<open>The search for the file\<close>

abbreviation nonspace :: "char \<Rightarrow> bool" where "nonspace \<equiv> \<lambda>c. \<not> isspace c"

lemma rd_Cons_drop: "drop j b = c # cs \<Longrightarrow> rd b j = Inr c"
  by (metis drop_eq_Nil2 leI list.distinct(1) nth_via_drop rd_def)

lemma drop_Suc_tail: "drop j b = c # cs \<Longrightarrow> drop (Suc j) b = cs"
  by (metis drop_Suc list.sel(3) tl_drop)

lemma copy_part_eq:
  "j + (PARTSIZE - length part) < length buf \<Longrightarrow>
   copy_part buf j part =
     (let w = takeWhile nonspace (take (PARTSIZE - length part) (drop j buf)) in Inr (part @ w, j + length w))"
proof (induction buf j part rule: copy_part.induct)
  case (1 buf j part)
  then obtain c cs where d: "drop j buf = c # cs"
    by (cases "drop j buf") auto
  then have c: "rd buf j = Inr c" and cs: "drop (Suc j) buf = cs"
    by (simp_all add: rd_Cons_drop drop_Suc_tail)
  show ?case
  proof (cases "nonspace c \<and> length part < PARTSIZE")
    case True
    then have n: "PARTSIZE - length part = Suc (PARTSIZE - Suc (length part))"
      by (simp add: Suc_diff_Suc)
    have "copy_part buf (j + 1) (part @ [c])
      = (let w = takeWhile nonspace (take (PARTSIZE - length (part @ [c])) (drop (j + 1) buf))
         in Inr ((part @ [c]) @ w, j + 1 + length w))"
      using True "1.prems" by (intro "1.IH" [OF c]) auto
    then show ?thesis
      using True by (subst copy_part.simps) (simp add: c d cs n Let_def)
  next
    case False
    then show ?thesis
      by (subst copy_part.simps) (cases "PARTSIZE - length part", auto simp: c d Let_def)
  qed
qed

lemma takeWhile_take_commute: "takeWhile P (take n xs) = take n (takeWhile P xs)"
  by (induction xs arbitrary: n) (auto simp: take_Cons split: nat.split)

lemma copy_part_word:
  assumes "length pre + PARTSIZE < length buf" "buf = pre @ word @ rest" "\<forall>c\<in>set word. nonspace c"
    "rest \<noteq> []" "isspace (hd rest)"
  shows "copy_part buf (length pre) [] = Inr (take PARTSIZE word, length pre + min PARTSIZE (length word))"
proof -
  from assms obtain r rs where rest: "rest = r # rs" "isspace r" by (cases rest) auto
  with assms have "takeWhile nonspace (drop (length pre) buf) = word" by simp
  then have w: "takeWhile nonspace (take PARTSIZE (drop (length pre) buf)) = take PARTSIZE word"
    by (simp only: takeWhile_take_commute)
  have "copy_part buf (length pre) [] = (let w = take PARTSIZE word in Inr (w, length pre + length w))"
    using copy_part_eq [of "length pre" "[]" buf] assms(1) unfolding list.size diff_zero w by simp
  then show ?thesis by (simp add: Let_def min.commute)
qed

lemma skip_space_one:
  "drop j buf = c # d # rest \<Longrightarrow> isspace c \<Longrightarrow> nonspace d \<Longrightarrow> j < BUFFSIZE \<Longrightarrow> skip_space buf j = Inr (Suc j)"
  using rd_Cons_drop [of j buf c "d # rest"] rd_Cons_drop [of "Suc j" buf d rest] drop_Suc_tail [of j buf c "d # rest"]
  by (subst skip_space.simps, simp, subst skip_space.simps) simp

lemma end_part_word: "NUL \<notin> set u \<Longrightarrow> length (u @ NUL # post) < PARTSIZE \<Longrightarrow> end_part (u @ NUL # post) = Inr u"
  using str_at_append [of u 0 "[]" "post @ [NUL]"] by (simp add: end_part_def)

lemma end_part_plain: "NUL \<notin> set u \<Longrightarrow> length u < PARTSIZE \<Longrightarrow> end_part u = Inr u"
  using str_at_append [of u 0 "[]" "[]"] by (simp add: end_part_def)


text \<open>What the code means to do for method \<open>m\<close> and url \<open>u\<close>: the code and the path.\<close>

definition supported :: "string \<Rightarrow> bool" where
  "supported m \<longleftrightarrow> strcasecmp_eq m ''GET'' \<or> strcasecmp_eq m ''POST''"

definition indexed :: "string \<Rightarrow> string" where
  "indexed t = (if last t = CHR ''/'' then t @ ''index.html'' else t)"

definition found_path :: "env \<Rightarrow> string \<Rightarrow> int \<times> string" where
  "found_path E u =
     (case env_stat E (indexed (local_prefix @ u)) of
        None \<Rightarrow> (HTTP_ERROR_NOT_FIND, indexed (local_prefix @ u))
      | Some (dir, sz) \<Rightarrow> (HTTP_SUCCESS, if dir then local_prefix @ u else indexed (local_prefix @ u)))"

text \<open>The url as \<open>accept_request\<close> reads it: up to the first blank, past the NUL.\<close>

definition overrun :: "string \<Rightarrow> string \<Rightarrow> carray \<Rightarrow> nat" where
  "overrun m u g = length u + 1 + length (takeWhile nonspace (drop (length m + length u + 2) g))"

definition word_ok :: "string \<Rightarrow> bool" where
  "word_ok s \<longleftrightarrow> NUL \<notin> set s \<and> (\<forall>c\<in>set s. nonspace c)"

lemma local_prefix_facts [simp]: "length local_prefix = 25" "NUL \<notin> set local_prefix" "local_prefix \<noteq> []"
  by (simp_all add: local_prefix_def)

lemma copy_url:
  assumes "length g = BUFFSIZE" "length m < 511" "length m + length u + 1 < BUFFSIZE" "word_ok u"
  defines "buf \<equiv> m @ CHR '' '' # u @ NUL # drop (length m + length u + 2) g"
  shows "\<exists>j. copy_part buf (Suc (length m)) []
      = Inr (take PARTSIZE (u @ NUL # takeWhile nonspace (drop (length m + length u + 2) g)), j)"
proof -
  have d: "drop (Suc (length m)) buf = u @ NUL # drop (length m + length u + 2) g"
    by (simp add: buf_def)
  have "takeWhile nonspace (drop (Suc (length m)) buf)
      = u @ NUL # takeWhile nonspace (drop (length m + length u + 2) g)"
    unfolding d using assms(4) by (subst takeWhile_append2) (auto simp: word_ok_def)
  then have w: "takeWhile nonspace (take PARTSIZE (drop (Suc (length m)) buf))
      = take PARTSIZE (u @ NUL # takeWhile nonspace (drop (length m + length u + 2) g))"
    by (simp only: takeWhile_take_commute)
  have "Suc (length m) + PARTSIZE < length buf"
    using assms by (simp add: BUFFSIZE_def PARTSIZE_def)
  then show ?thesis
    using copy_part_eq [of "Suc (length m)" "[]" buf] unfolding list.size diff_zero w by (simp add: Let_def)
qed

lemma accept_parts:
  assumes "length g = BUFFSIZE" "length m < 511" "length m + length u + 1 < BUFFSIZE" "word_ok m" "word_ok u"
  defines "s \<equiv> m @ CHR '' '' # u"
  defines "buf \<equiv> m @ CHR '' '' # u @ NUL # drop (length m + length u + 2) g"
  shows "put_str g 0 s = Inr buf" "copy_part buf 0 [] = Inr (m, length m)" "end_part m = Inr m"
    "skip_space buf (length m) = Inr (Suc (length m))"
proof -
  note sizes = assms BUFFSIZE_def PARTSIZE_def
  show "put_str g 0 s = Inr buf"
    using sizes by (simp add: put_str_0)
  have "copy_part buf (length ([] :: string)) [] = Inr (take PARTSIZE m, length ([] :: string) + min PARTSIZE (length m))"
    using sizes by (intro copy_part_word [where rest = "drop (length m) buf"]) (auto simp: word_ok_def)
  then show "copy_part buf 0 [] = Inr (m, length m)"
    using sizes by (simp add: min_def)
  show "end_part m = Inr m"
    using sizes by (intro end_part_plain) (auto simp: word_ok_def)
  obtain d rest where "u @ NUL # drop (length m + length u + 2) g = d # rest" "nonspace d"
    using assms(5) by (cases u) (auto simp: word_ok_def)
  then show "skip_space buf (length m) = Inr (Suc (length m))"
    using sizes by (intro skip_space_one [where c = "CHR '' ''" and d = d and rest = rest]) auto
qed


text \<open>The result of \<open>accept_request\<close> once the method and the url are known.\<close>

lemma put_path:
  assumes "length t < length p" "NUL \<notin> set t"
  shows "put_str p 0 t = Inr (t @ NUL # drop (length t + 1) p)"
    and "str_at (t @ NUL # post) 0 = Inr t"
  using assms str_at_append [of t 0 "[]" post] by (simp_all add: put_str_0)

lemma strcat_path:
  assumes "NUL \<notin> set t" "NUL \<notin> set x" "length x \<le> length post"
  shows "strcat (t @ NUL # post) x = Inr ((t @ x) @ NUL # drop (length x) post)"
  using strcat_str [of t x post] assms by simp

lemma index_texts: "NUL \<notin> set ''index.html''" "NUL \<notin> set ''/index.html''"
  by simp_all

lemma find_file_path:
  assumes u: "NUL \<notin> set u" and len: "length u + 50 \<le> length p"
  shows "\<exists>p'. find_file E u p = Inr (fst (found_path E u), p') \<and>
     str_at p' 0 = Inr (snd (found_path E u)) \<and> length p' = length p"
proof -
  define t where "t = local_prefix @ u"
  define i where "i = indexed t"
  define bt where "bt = t @ NUL # drop (length t + 1) p"
  define bi where "bi = i @ NUL # drop (length i + 1) p"
  have t: "NUL \<notin> set t" "length t < length p" using u len by (simp_all add: t_def)
  have i: "NUL \<notin> set i" "length i < length p" "length i \<le> length u + 35"
    using t len by (auto simp: i_def indexed_def t_def)
  have cat: "(if last t = CHR ''/'' then strcat bt ''index.html'' else Inr bt) = Inr bi"
    using t len strcat_path [of t "''index.html''" "drop (length t + 1) p"]
    by (auto simp: i_def bi_def bt_def indexed_def t_def add_ac)
  obtain x where dirpath: "strcat bi ''/index.html'' = Inr x" "length x = length p"
    using i len strcat_path [of i "''/index.html''" "drop (length i + 1) p"] by (auto simp: bi_def)
  have put: "put_str p 0 t = Inr bt" "str_at bt 0 = Inr t" "str_at bi 0 = Inr i" "length bi = length p"
    using t i put_path [of t p] put_path(2) [of i p] by (auto simp: bt_def bi_def)
  obtain x' where reset: "put_str x 0 t = Inr x'" "str_at x' 0 = Inr t" "length x' = length p"
    using t dirpath put_path [of t x] by auto
  show ?thesis
    unfolding find_file_def found_path_def t_def [symmetric] i_def [symmetric] put bindE_simps cat
    using put dirpath reset by (auto split: option.split)
qed

lemma accept_request_eq:
  assumes "length g = BUFFSIZE" "length m < 511" "length m + length u + 1 < BUFFSIZE" "word_ok m" "word_ok u"
    "length p = BUFFSIZE" "str_at p 0 = Inr (m @ '' '' @ u)"
  shows "PARTSIZE \<le> overrun m u g \<Longrightarrow> accept_request E g p = Inl (Undef WriteOOB)"
    and "overrun m u g < PARTSIZE \<Longrightarrow> \<not> supported m \<Longrightarrow> accept_request E g p = Inr (HTTP_ERROR_METHOD, p)"
    and "overrun m u g < PARTSIZE \<Longrightarrow> supported m \<Longrightarrow> accept_request E g p = find_file E u p"
proof -
  let ?gap = "takeWhile nonspace (drop (length m + length u + 2) g)"
  note parts = accept_parts [OF assms(1-5)]
  obtain j where j: "copy_part (m @ CHR '' '' # u @ NUL # drop (length m + length u + 2) g) (Suc (length m)) []
      = Inr (take PARTSIZE (u @ NUL # ?gap), j)"
    using copy_url [OF assms(1-3,5)] by blast
  have run: "accept_request E g p = bindE (end_part (take PARTSIZE (u @ NUL # ?gap)))
      (\<lambda>url. if \<not> strcasecmp_eq m ''GET'' \<and> \<not> strcasecmp_eq m ''POST'' then
         Inr (HTTP_ERROR_METHOD, p) else find_file E url p)"
    unfolding accept_request_def assms(7) append_Cons append_Nil parts bindE_simps split_conv j
    by (rule refl)
  show "accept_request E g p = Inl (Undef WriteOOB)" if "PARTSIZE \<le> overrun m u g"
  proof -
    have "length (take PARTSIZE (u @ NUL # ?gap)) = PARTSIZE"
      using that by (simp add: overrun_def)
    then show ?thesis unfolding run end_part_def by (simp only: less_irrefl if_False bindE_simps)
  qed
  have url: "end_part (take PARTSIZE (u @ NUL # ?gap)) = Inr u" if "overrun m u g < PARTSIZE"
    using that end_part_word [of u ?gap] assms(5) by (simp add: overrun_def word_ok_def)
  show "accept_request E g p = Inr (HTTP_ERROR_METHOD, p)" if "overrun m u g < PARTSIZE" "\<not> supported m"
    using that unfolding run url [OF that(1)] by (simp add: supported_def)
  show "accept_request E g p = find_file E u p" if "overrun m u g < PARTSIZE" "supported m"
    using that unfolding run url [OF that(1)] by (auto simp: supported_def)
qed


section \<open>The file transfer\<close>

definition reading :: "string \<Rightarrow> stream" where
  "reading c = \<lparr>fs_rest = c, fs_bad = False, fs_eof = False, fs_err = False\<rparr>"

text \<open>The portions in which \<open>response_ok\<close> reads a file.\<close>

lemma BUFFER_SIZE_pos [simp]: "0 < BUFFER_SIZE"
  by (simp add: BUFFER_SIZE_def)

function portions :: "string \<Rightarrow> string list" where
  "portions c = (if length c < BUFFER_SIZE then [c] else take BUFFER_SIZE c # portions (drop BUFFER_SIZE c))"
  by pat_completeness auto
termination
  by (relation "measure length") (auto simp: BUFFER_SIZE_def)

declare portions.simps [simp del]

lemma concat_portions: "concat (portions c) = c"
  by (induction c rule: portions.induct) (subst portions.simps, simp)

lemma portion_length: "p \<in> set (portions c) \<Longrightarrow> length p \<le> BUFFER_SIZE"
proof (induction c rule: portions.induct)
  case (1 c)
  then show ?case by (subst (asm) (2) portions.simps) (auto split: if_splits)
qed

text \<open>The transfer is \<open>http_send\<close> applied to the portions one after the other.\<close>

lemma body_loop_portions:
  "body_loop script (reading c) w =
     Some (bindE (write_all http_send script (portions c)) (\<lambda>(u, script).
       Inr (w @ u, \<lparr>fs_rest = [], fs_bad = False, fs_eof = True, fs_err = False\<rparr>, script)))"
proof (induction c arbitrary: script w rule: portions.induct)
  case (1 c)
  show ?case
  proof (cases "length c < BUFFER_SIZE")
    case True
    then have "fread BUFFER_SIZE (reading c) = (c, \<lparr>fs_rest = [], fs_bad = False, fs_eof = True, fs_err = False\<rparr>)"
      by (simp add: fread_def reading_def Let_def)
    then show ?thesis
      using True by (subst body_loop.simps, subst portions.simps)
        (auto simp: reading_def body_loop.simps [of _ "\<lparr>fs_rest = _, fs_bad = _, fs_eof = True, fs_err = _\<rparr>"]
          split: sum.split prod.split)
  next
    case False
    then have "fread BUFFER_SIZE (reading c) = (take BUFFER_SIZE c, reading (drop BUFFER_SIZE c))"
      by (simp add: fread_def reading_def Let_def min_def)
    moreover have "\<not> fs_eof (reading c)" by (simp add: reading_def)
    moreover have "length (take BUFFER_SIZE c) = BUFFER_SIZE" using False by simp
    ultimately show ?thesis
      using False "1.IH" [OF False]
      by (subst body_loop.simps, subst portions.simps)
        (auto simp: bindE_assoc split_beta split: sum.split)
  qed
qed

text \<open>On a stream whose reads fail the loop never ends.\<close>

lemma http_send_nothing [simp]: "http_send script [] 0 = Inr (0, [], script)"
  using http_send_spec [of 0 "[]" script] by simp

lemma body_loop_directory:
  "body_loop script fp w = Some res \<Longrightarrow> fs_bad fp \<longrightarrow> \<not> fs_eof fp \<longrightarrow> fs_rest fp \<noteq> []"
proof (erule body_loop.raw_induct [rotated])
  fix f script fp w res
  assume "\<And>script fp w res. f script fp w = Some res \<Longrightarrow> fs_bad fp \<longrightarrow> \<not> fs_eof fp \<longrightarrow> fs_rest fp \<noteq> []"
    and "(if fs_eof fp then Some (Inr (w, fp, script))
      else let (byte, fp') = fread BUFFER_SIZE fp in
        case http_send script byte (length byte) of
          Inl e \<Rightarrow> Some (Inl e)
        | Inr (r, u, script') \<Rightarrow> f script' fp' (w @ u)) = Some res"
  then show "fs_bad fp \<longrightarrow> \<not> fs_eof fp \<longrightarrow> fs_rest fp \<noteq> []"
    by (fastforce simp: fread_def Let_def)
qed


text \<open>On a stream whose reads succeed the loop ends: every round but the last shortens what is left.\<close>

lemma body_loop_ends: "\<not> fs_bad fp \<Longrightarrow> body_loop script fp w \<noteq> None"
proof (induction "length (fs_rest fp)" arbitrary: script fp w rule: less_induct)
  case less
  obtain byte fp' where r: "fread BUFFER_SIZE fp = (byte, fp')" by fastforce
  have rest: "fs_eof fp' \<or> length (fs_rest fp') < length (fs_rest fp) \<and> \<not> fs_bad fp'"
    using r less.prems by (auto simp: fread_def Let_def BUFFER_SIZE_def split: if_splits)
  have stop: "body_loop s fp' v \<noteq> None" if "fs_eof fp'" for s v
    using that by (subst body_loop.simps) simp
  show ?case
    by (subst body_loop.simps) (use rest stop less.hyps in \<open>auto simp: r split: sum.splits\<close>)
qed

definition readable_files :: "env \<Rightarrow> bool" where
  "readable_files E \<longleftrightarrow> (\<forall>path fp. env_fopen E path = Some fp \<longrightarrow> \<not> fs_bad fp)"

lemma response_ok_ends: "readable_files E \<Longrightarrow> response_ok E g script path \<noteq> None"
  using body_loop_ends
  by (auto simp: response_ok_def readable_files_def simp del: not_None_eq split: option.splits sum.splits)

lemma handler_ends: "readable_files E \<Longrightarrow> http_module_handler_response E g1 g2 g3 script req \<noteq> None"
  using response_ok_ends
  by (auto simp: http_module_handler_response_def error_page_def split: option.splits sum.splits)

section \<open>Pages\<close>

text \<open>A kernel that takes every text of a page at once.\<close>

definition roomy :: "wr_ret list \<Rightarrow> bool" where
  "roomy script = list_all (\<lambda>r. case r of WrN k \<Rightarrow> BUFFSIZE \<le> k | WrErr e \<Rightarrow> False) script"

lemma say_roomy:
  assumes "f = say s \<or> f = say_raw s" "roomy [r]" "s \<noteq> []" "NUL \<notin> set s" "length s < length buf"
    "length buf = BUFFSIZE"
  shows "f (buf, r # rs) = Inr (s, s @ NUL # drop (length s + 1) buf, rs)"
proof -
  from assms(2) obtain k where r: "r = WrN k" "BUFFSIZE \<le> k"
    by (auto simp: roomy_def split: wr_ret.splits)
  have str: "str_at (s @ NUL # drop (length s + 1) buf) 0 = Inr s"
    using assms str_at_append [of s 0 "[]"] by simp
  have "http_send (WrN k # rs) (s @ NUL # drop (length s + 1) buf) (length s) = Inr (int (length s), s, rs)"
    using assms r http_writer.complete [of "WrN k # rs" "length s" rs "s @ NUL # drop (length s + 1) buf"]
    by (simp add: BUFFSIZE_def)
  then show ?thesis
    using assms r str by (auto simp: say_def say_raw_def put_str_0 raw_send_def)
qed

definition page_text :: "string \<Rightarrow> bool" where
  "page_text s \<longleftrightarrow> s \<noteq> [] \<and> NUL \<notin> set s \<and> length s < BUFFSIZE"

lemma steps_roomy:
  "list_all2 (\<lambda>f s. f = say s \<or> f = say_raw s) fs ss \<Longrightarrow> \<forall>s\<in>set ss. page_text s \<Longrightarrow>
   roomy taken \<Longrightarrow> length taken = length ss \<Longrightarrow> length buf = BUFFSIZE \<Longrightarrow>
   \<exists>buf'. steps fs (buf, taken @ script) = Inr (concat ss, buf', script) \<and> length buf' = BUFFSIZE"
proof (induction fs ss arbitrary: buf taken rule: list_all2_induct)
  case (Cons f fs s ss)
  from Cons.prems obtain r rs where script: "taken = r # rs" by (cases taken) auto
  with Cons.prems have "roomy rs" by (simp add: roomy_def)
  moreover have "f (buf, r # rs @ script) = Inr (s, s @ NUL # drop (length s + 1) buf, rs @ script)"
    using Cons.prems Cons.hyps by (intro say_roomy) (simp_all add: script page_text_def roomy_def)
  moreover have "length (s @ NUL # drop (length s + 1) buf) = BUFFSIZE"
    using Cons.prems by (simp add: page_text_def)
  ultimately show ?case
    using Cons.IH [of rs "s @ NUL # drop (length s + 1) buf"] Cons.prems script by auto
qed simp

text \<open>A page that sends the whole array sends what the array held before.\<close>

lemma say_whole_progress:
  assumes "progress again script BUFFSIZE = Some rest" "length buf = BUFFSIZE" "length s < BUFFSIZE"
  shows "say_whole s (buf, script) = Inr (s @ NUL # drop (length s + 1) buf, s @ NUL # drop (length s + 1) buf, rest)"
  using assms http_writer.complete [of script BUFFSIZE rest "s @ NUL # drop (length s + 1) buf"]
  by (simp add: say_whole_def put_str_0 BUFFSIZE_def)

text \<open>Every block of such a page ends with the former contents of the array.\<close>

lemma steps_whole:
  "\<forall>s\<in>set ss. length s < L \<Longrightarrow> L \<le> BUFFSIZE \<Longrightarrow>
   progress_all again script (replicate (length ss) BUFFSIZE) = Some rest \<Longrightarrow> length buf = BUFFSIZE \<Longrightarrow>
   \<exists>blocks buf'. steps (map say_whole ss) (buf, script) = Inr (concat blocks, buf', rest) \<and>
     list_all2 (\<lambda>b s. \<exists>mid. b = s @ NUL # mid @ drop L buf \<and> length b = BUFFSIZE) blocks ss"
proof (induction ss arbitrary: buf script)
  case (Cons s ss)
  then obtain rs where rs: "progress again script BUFFSIZE = Some rs"
    "progress_all again rs (replicate (length ss) BUFFSIZE) = Some rest"
    by (auto split: option.splits)
  let ?b = "s @ NUL # drop (length s + 1) buf"
  have b: "say_whole s (buf, script) = Inr (?b, ?b, rs)" "length ?b = BUFFSIZE"
    using Cons.prems say_whole_progress [OF rs(1), of buf s] by auto
  have tail: "drop L ?b = drop L buf" "drop (length s + 1) buf = take (L - (length s + 1)) (drop (length s + 1) buf) @ drop L buf"
    using Cons.prems append_take_drop_id [of "L - (length s + 1)" "drop (length s + 1) buf"]
    by (auto simp: Cons_nth_drop_Suc drop_Cons' )
  from Cons.IH [OF _ _ rs(2) b(2)] Cons.prems obtain blocks buf' where
    "steps (map say_whole ss) (?b, rs) = Inr (concat blocks, buf', rest)"
    "list_all2 (\<lambda>b s. \<exists>mid. b = s @ NUL # mid @ drop L ?b \<and> length b = BUFFSIZE) blocks ss"
    by auto
  then show ?case
    using b tail by (intro exI [of _ "?b # blocks"] exI [of _ buf']) auto
qed simp
text \<open>The headers of a successful response.\<close>

definition ok_text :: "int \<Rightarrow> string \<Rightarrow> string" where
  "ok_text n name = ''HTTP/1.0 200 OK '' @ CRLF @ ''Content-Length: '' @ dec_int n @ CRLF
     @ ''Content-Type: application/octet-stream'' @ CRLF
     @ ''Content-Disposition: filename='' @ name @ CRLF @ ''Connection: close'' @ CRLF @ CRLF"

lemma digit_no_NUL: "d < 10 \<Longrightarrow> NUL \<noteq> digit d"
proof
  assume "d < 10" "NUL = digit d"
  then have "of_char NUL = 48 + d" using of_char_digit [of d] by simp
  then show False by simp
qed

lemma dec_nat_no_NUL: "NUL \<notin> set (dec_nat n)"
proof (induction n rule: dec_nat.induct)
  case (1 n)
  then show ?case by (subst dec_nat.simps) (auto simp: digit_no_NUL)
qed

lemma dec_int_no_NUL: "NUL \<notin> set (dec_int i)"
  by (simp add: dec_int_def dec_nat_no_NUL)

lemma dec_nat_length: "n < 10 ^ k \<Longrightarrow> 0 < k \<Longrightarrow> length (dec_nat n) \<le> k"
proof (induction k arbitrary: n)
  case (Suc k)
  show ?case
  proof (cases "n < 10")
    case False
    then have "n div 10 < 10 ^ k" using Suc.prems by auto
    moreover have "0 < k" using False Suc.prems by (cases k) auto
    ultimately show ?thesis using Suc.IH [of "n div 10"] False by (simp add: dec_nat.simps [of n])
  qed (simp add: dec_nat.simps [of n])
qed simp

lemma dec_int_length: "- (2 ^ 63) \<le> i \<Longrightarrow> i < 2 ^ 63 \<Longrightarrow> length (dec_int i) \<le> 20"
proof -
  assume "- (2 ^ 63) \<le> i" "i < 2 ^ 63"
  then have "nat \<bar>i\<bar> < 10 ^ 19" by auto
  from dec_nat_length [OF this] show ?thesis by (auto simp: dec_int_def)
qed

lemma ok_header_roomy:
  assumes "length g = BUFFSIZE" "length ks = 5" "\<forall>k\<in>set ks. BUFFSIZE \<le> k" "NUL \<notin> set name" "length name < 900"
    "- (2 ^ 63) \<le> n" "n < 2 ^ 63"
  shows "\<exists>buf. ok_header n name (g, map WrN ks @ script) = Inr (ok_text n name, buf, script)"
proof -
  let ?ss = "[''HTTP/1.0 200 OK '' @ CRLF, ''Content-Length: '' @ dec_int n @ CRLF,
    ''Content-Type: application/octet-stream'' @ CRLF, ''Content-Disposition: filename='' @ name @ CRLF,
    ''Connection: close'' @ CRLF @ CRLF]"
  have "\<exists>buf. ok_header n name (g, map WrN ks @ script) = Inr (concat ?ss, buf, script) \<and> length buf = BUFFSIZE"
    unfolding ok_header_def
  proof (rule steps_roomy)
    show "\<forall>s\<in>set ?ss. page_text s"
      using assms dec_int_length [of n] by (simp add: page_text_def dec_int_no_NUL BUFFSIZE_def)
    show "roomy (map WrN ks)"
      using assms by (simp add: roomy_def list_all_iff)
  qed (use assms in simp_all)
  then show ?thesis by (auto simp: ok_text_def)
qed


section \<open>Properties\<close>

lemma response_ok_file:
  assumes "env_stat E path = Some (dir, n)" "after_last (CHR ''/'') path = Some name" "env_fopen E path = Some (reading c)"
    "length g = BUFFSIZE" "length ks = 5" "\<forall>k\<in>set ks. BUFFSIZE \<le> k" "NUL \<notin> set name" "length name < 900"
    "- (2 ^ 63) \<le> n" "n < 2 ^ 63" "progress_all again script (map length (portions c)) = Some rest"
    "logOut E ''010'' name = Inr entry"
  shows "response_ok E g (map WrN ks @ script) path = Some (Inr (ok_text n name @ c, [entry], rest))"
proof -
  obtain buf where "ok_header n name (g, map WrN ks @ script) = Inr (ok_text n name, buf, script)"
    using ok_header_roomy [OF assms(4-10)] by blast
  moreover have "write_all http_send script (portions c) = Inr (c, rest)"
    using http_writer.write_all_complete [OF assms(11)] portion_length [of _ c]
    by (fastforce simp: concat_portions BUFFER_SIZE_def)
  ultimately show ?thesis
    using assms by (simp add: response_ok_def body_loop_portions log_err_def strcasecmp_eq_def)
qed

text \<open>The path handed to \<open>response_ok\<close> and the name in its headers.\<close>

lemma handler_path:
  assumes "length g1 = BUFFSIZE" "length g2 = BUFFSIZE" "length m < 511" "length m + length u + 1 < BUFFSIZE"
    "word_ok m" "word_ok u"
  obtains b where "bindE (put_str g1 0 (m @ '' '')) (\<lambda>b. strcat b u) = Inr b" "length b = BUFFSIZE"
    "str_at b 0 = Inr (m @ '' '' @ u)"
proof -
  let ?b = "((m @ '' '') @ u) @ NUL # drop (length u) (drop (length m + 2) g1)"
  have nul: "NUL \<notin> set (m @ '' '')" "NUL \<notin> set ((m @ '' '') @ u)"
    using assms by (auto simp: word_ok_def)
  have "put_str g1 0 (m @ '' '') = Inr ((m @ '' '') @ NUL # drop (length m + 2) g1)"
    using assms put_str_0 [of "m @ '' ''" g1] by simp
  moreover have "strcat ((m @ '' '') @ NUL # drop (length m + 2) g1) u = Inr ?b"
    using strcat_path [OF nul(1), of u "drop (length m + 2) g1"] assms by (auto simp: word_ok_def)
  moreover have "length ?b = BUFFSIZE" using assms by simp
  moreover have "str_at ?b 0 = Inr (m @ '' '' @ u)"
    using str_at_append [OF nul(2), of 0 "[]"] by simp
  ultimately show ?thesis using that [of ?b] by simp
qed

lemma handler_eq:
  assumes "length g1 = BUFFSIZE" "length g2 = BUFFSIZE" "length m < 511" "length m + length u + 1 < BUFFSIZE"
    "word_ok m" "word_ok u" "overrun m u g2 < PARTSIZE" "method_f req = Some m" "url req = Some u"
  shows "http_module_handler_response E g1 g2 g3 script req =
    (if \<not> supported m then error_page error_method g3 script
     else if env_stat E (indexed (local_prefix @ u)) = None then error_page unknow g3 script
     else response_ok E g3 script (snd (found_path E u)))"
proof -
  obtain b where b: "bindE (put_str g1 0 (m @ '' '')) (\<lambda>b. strcat b u) = Inr b" "length b = BUFFSIZE"
      "str_at b 0 = Inr (m @ '' '' @ u)"
    using handler_path [OF assms(1-6)] by blast
  note acc = accept_request_eq [OF assms(2-6) b(2,3)]
  have flat: "bindE (put_str g1 0 (m @ '' '')) (\<lambda>b. bindE (strcat b u) f) = f b" for f :: "carray \<Rightarrow> 'z exec"
    using b(1) by (simp add: bindE_assoc [symmetric])
  have size: "NUL \<notin> set u" "length u + 50 \<le> length b"
    using assms b by (auto simp: word_ok_def overrun_def BUFFSIZE_def PARTSIZE_def)
  show ?thesis
  proof (cases "supported m")
    case True
    from find_file_path [OF size, of E] acc(3) [OF assms(7) True] show ?thesis
      using True assms(8,9) unfolding http_module_handler_response_def
      by (auto simp: flat found_path_def HTTP_SUCCESS_def HTTP_ERROR_NOT_FIND_def split: option.splits)
  next
    case False
    then show ?thesis
      using acc(2) [OF assms(7) False] b(3) assms(8,9) unfolding http_module_handler_response_def
      by (simp add: flat HTTP_SUCCESS_def HTTP_ERROR_NOT_FIND_def HTTP_ERROR_METHOD_def)
  qed
qed

text \<open>
  C13. Finding the file: for a request line made of the words \<open>m\<close> and \<open>u\<close> that fits
  the arrays, and a stack whose bytes behind the copied line have a blank before
  \<open>PARTSIZE\<close> characters from the start of the url (\<open>overrun\<close>; without one the array
  \<open>url\<close> is overrun, see \<open>accept_request_overflow\<close>), the code
  and path are the intended ones: 500 with the line unchanged for a method other than
  GET and POST, else the local path of \<open>u\<close>, with \<open>index.html\<close> after a final
  slash, and 404 or 200 as \<open>stat\<close> says; a directory is answered with its own path.
\<close>

theorem accept_request_finds:
  assumes "length g = BUFFSIZE" "length m < 511" "length m + length u + 1 < BUFFSIZE" "word_ok m" "word_ok u"
    "length p = BUFFSIZE" "str_at p 0 = Inr (m @ '' '' @ u)" "overrun m u g < PARTSIZE"
  shows "\<exists>p'. accept_request E g p = Inr (if supported m then fst (found_path E u) else HTTP_ERROR_METHOD, p') \<and>
    str_at p' 0 = Inr (if supported m then snd (found_path E u) else m @ '' '' @ u) \<and> length p' = BUFFSIZE"
proof (cases "supported m")
  case True
  have "NUL \<notin> set u" "length u + 50 \<le> length p"
    using assms by (auto simp: word_ok_def overrun_def BUFFSIZE_def PARTSIZE_def)
  from find_file_path [OF this, of E] accept_request_eq(3) [OF assms(1-8) True]
  show ?thesis using True assms(6) by auto
next
  case False
  with accept_request_eq(2) [OF assms(1-8)] assms(6,7) show ?thesis by auto
qed


text \<open>An environment with one file, a directory, and a log.\<close>

definition sample_env :: env where
  "sample_env = \<lparr>
     env_stat = (\<lambda>p. if p = ''/home/jackwu/Desktop/test/a.txt'' then Some (False, 5)
                     else if p = ''/home/jackwu/Desktop/test/d'' then Some (True, 4096) else None),
     env_fopen = (\<lambda>p. if p = ''/home/jackwu/Desktop/test/a.txt'' then Some (reading ''hello'')
                     else if p = ''/home/jackwu/Desktop/test/d''
                     then Some \<lparr>fs_rest = [], fs_bad = True, fs_eof = False, fs_err = False\<rparr> else None),
     env_log = (\<lambda>p. True),
     env_now = \<lparr>tm_year = 117, tm_mon = 7, tm_mday = 1, tm_hour = 0, tm_min = 0, tm_sec = 0\<rparr>\<rparr>"

definition blanks :: carray where
  "blanks = replicate BUFFSIZE (CHR '' '')"

definition line_array :: "string \<Rightarrow> carray" where
  "line_array s = s @ replicate (BUFFSIZE - length s) NUL"

lemma line_array_str: "length s < BUFFSIZE \<Longrightarrow> NUL \<notin> set s \<Longrightarrow> length (line_array s) = BUFFSIZE \<and> str_at (line_array s) 0 = Inr s"
  using str_at_append [of s 0 "[]" "replicate (BUFFSIZE - length s - 1) NUL"]
  by (cases "BUFFSIZE - length s") (auto simp: line_array_def)

lemma sample_words: "word_ok ''GET''" "word_ok ''PUT''" "word_ok ''/a.txt''" "word_ok ''/d''" "word_ok ''/x''"
  by (simp_all add: word_ok_def isspace_def)

lemma blanks_facts: "length blanks = BUFFSIZE" "overrun m u blanks = length u + 1"
proof -
  have "takeWhile nonspace (replicate k (CHR '' '')) = []" for k by (cases k) simp_all
  then show "overrun m u blanks = length u + 1" by (simp add: overrun_def blanks_def)
qed (simp add: blanks_def)

theorem accept_request_finds_witness:
  "\<exists>p'. accept_request sample_env blanks (line_array ''GET /a.txt'') = Inr (200, p') \<and>
    str_at p' 0 = Inr ''/home/jackwu/Desktop/test/a.txt'' \<and> length p' = BUFFSIZE"
proof -
  have "found_path sample_env ''/a.txt'' = (200, ''/home/jackwu/Desktop/test/a.txt'')" "supported ''GET''"
    by (simp_all add: found_path_def indexed_def sample_env_def local_prefix_def HTTP_SUCCESS_def
        supported_def strcasecmp_eq_def)
  then show ?thesis
    using accept_request_finds [of blanks "''GET''" "''/a.txt''" "line_array ''GET /a.txt''" sample_env]
      line_array_str [of "''GET /a.txt''"]
    by (simp add: blanks_facts sample_words BUFFSIZE_def PARTSIZE_def)
qed

text \<open>
  The array overrun: when the url, the NUL behind it and the bytes the stack
  happens to hold there contain no blank within \<open>PARTSIZE\<close> characters,
  \<open>accept_request\<close> writes behind its array \<open>url\<close>, whatever the method.
\<close>

theorem accept_request_overflow:
  assumes "length g = BUFFSIZE" "length m < 511" "length m + length u + 1 < BUFFSIZE" "word_ok m" "word_ok u"
    "length p = BUFFSIZE" "str_at p 0 = Inr (m @ '' '' @ u)" "PARTSIZE \<le> overrun m u g"
  shows "accept_request E g p = Inl (Undef WriteOOB)"
  by (rule accept_request_eq(1) [OF assms])

theorem accept_request_overflow_witness:
  "accept_request sample_env (replicate BUFFSIZE NUL) (line_array ''GET /a.txt'') = Inl (Undef WriteOOB)"
proof -
  have "overrun ''GET'' ''/a.txt'' (replicate BUFFSIZE NUL) = 1020"
    by (simp add: overrun_def BUFFSIZE_def takeWhile_replicate)
  then show ?thesis
    using accept_request_overflow [of "replicate BUFFSIZE NUL" "''GET''" "''/a.txt''" "line_array ''GET /a.txt''" sample_env]
      line_array_str [of "''GET /a.txt''"]
    by (simp add: sample_words BUFFSIZE_def PARTSIZE_def)
qed

text \<open>
  Dispatch of a response: an unsupported method gets the 501 page, a path that
  does not exist the 404 page, and every other request the file at the path found.
\<close>

theorem handler_response_dispatch:
  assumes "length g1 = BUFFSIZE" "length g2 = BUFFSIZE" "length m < 511" "length m + length u + 1 < BUFFSIZE"
    "word_ok m" "word_ok u" "overrun m u g2 < PARTSIZE" "method_f req = Some m" "url req = Some u"
  shows "http_module_handler_response E g1 g2 g3 script req =
    (if \<not> supported m then error_page error_method g3 script
     else if env_stat E (indexed (local_prefix @ u)) = None then error_page unknow g3 script
     else response_ok E g3 script (snd (found_path E u)))"
  by (rule handler_eq [OF assms])

definition sample_request :: "string \<Rightarrow> string \<Rightarrow> http_request" where
  "sample_request m u = raw_request\<lparr>method_f := Some m, url := Some u, version := Some ''HTTP/1.1''\<rparr>"

theorem handler_response_dispatch_witness:
  "http_module_handler_response sample_env blanks blanks blanks [WrN 7] (sample_request ''GET'' ''/x'')
     = error_page unknow blanks [WrN 7]"
  using handler_response_dispatch [of blanks blanks "''GET''" "''/x''" "sample_request ''GET'' ''/x''" sample_env blanks "[WrN 7]"]
  by (simp add: blanks_facts sample_words sample_request_def BUFFSIZE_def PARTSIZE_def supported_def
      strcasecmp_eq_def indexed_def local_prefix_def sample_env_def)


lemma after_last_Some: "after_last c s = Some t \<Longrightarrow> set t \<subseteq> set s \<and> length t \<le> length s"
proof -
  assume "after_last c s = Some t"
  then have t: "rev t = takeWhile (\<lambda>x. x \<noteq> c) (rev s)"
    by (auto simp: after_last_def split: if_splits)
  have "set (rev t) \<subseteq> set (rev s)" unfolding t by (auto dest: set_takeWhileD)
  moreover have "length (rev t) \<le> length (rev s)" unfolding t by (rule length_takeWhile_le)
  ultimately show ?thesis by simp
qed

lemma file_response:
  assumes "length g1 = BUFFSIZE" "length g2 = BUFFSIZE" "length m < 511" "length m + length u + 1 < BUFFSIZE"
    "word_ok m" "word_ok u" "overrun m u g2 < PARTSIZE" "method_f req = Some m" "url req = Some u"
    and "supported m" "path = indexed (local_prefix @ u)" "env_stat E path = Some (False, int (length c))"
    "env_fopen E path = Some (reading c)" "length c < 2 ^ 63" "after_last (CHR ''/'') path = Some name"
    and "length g3 = BUFFSIZE" "length ks = 5" "\<forall>k\<in>set ks. BUFFSIZE \<le> k"
    "progress_all again script (map length (portions c)) = Some rest" "logOut E ''010'' name = Inr entry"
  shows "http_module_handler_response E g1 g2 g3 (map WrN ks @ script) req
      = Some (Inr (ok_text (int (length c)) name @ c, [entry], rest))"
proof -
  have "length path \<le> length u + 35" "NUL \<notin> set path"
    using assms(6,11) by (auto simp: indexed_def word_ok_def)
  moreover have "length u < 512" using assms(7) by (simp add: overrun_def PARTSIZE_def)
  ultimately have name: "NUL \<notin> set name" "length name < 900"
    using after_last_Some [OF assms(15)] by auto
  have "http_module_handler_response E g1 g2 g3 (map WrN ks @ script) req = response_ok E g3 (map WrN ks @ script) path"
    using handler_eq [OF assms(1-9)] assms(10-12) by (simp add: found_path_def)
  also have "\<dots> = Some (Inr (ok_text (int (length c)) name @ c, [entry], rest))"
    using assms name by (intro response_ok_file) auto
  finally show ?thesis .
qed

text \<open>
  C7. Serving a file end to end: for a supported request (a method of fewer than
  511 characters and a url that fit the arrays) whose path is a regular file of
  content \<open>c\<close>, the client receives the headers with the exact length of \<open>c\<close> and
  then \<open>c\<close>, and the download is logged once.  This needs that the uninitialised
  array of \<open>accept_request\<close> has a blank soon enough behind the url (\<open>overrun\<close>, else
  \<open>accept_request_overflow\<close>), that the kernel takes each of the five header lines
  whole and the content in portions that are not empty, and that the log opens.
\<close>

theorem handler_serves_file:
  assumes "length g1 = BUFFSIZE" "length g2 = BUFFSIZE" "length m < 511" "length m + length u + 1 < BUFFSIZE"
    "word_ok m" "word_ok u" "overrun m u g2 < PARTSIZE" "method_f req = Some m" "url req = Some u"
    and "supported m" "path = indexed (local_prefix @ u)" "env_stat E path = Some (False, int (length c))"
    "env_fopen E path = Some (reading c)" "length c < 2 ^ 63" "after_last (CHR ''/'') path = Some name"
    and "length g3 = BUFFSIZE" "length ks = 5" "\<forall>k\<in>set ks. BUFFSIZE \<le> k"
    "progress_all again script (map length (portions c)) = Some rest" "logOut E ''010'' name = Inr entry"
  shows "http_module_handler_response E g1 g2 g3 (map WrN ks @ script) req
      = Some (Inr (ok_text (int (length c)) name @ c, [entry], rest))"
  by (rule file_response [OF assms])

theorem handler_serves_file_witness:
  "\<exists>entry. http_module_handler_response sample_env blanks blanks blanks
      [WrN 1024, WrN 1024, WrN 1024, WrN 1024, WrN 1024, WrErr EAGAIN, WrN 2, WrN 2000] (sample_request ''GET'' ''/a.txt'')
    = Some (Inr (ok_text 5 ''a.txt'' @ ''hello'', [entry], []))"
proof -
  have path: "indexed (local_prefix @ ''/a.txt'') = ''/home/jackwu/Desktop/test/a.txt''"
    "after_last (CHR ''/'') ''/home/jackwu/Desktop/test/a.txt'' = Some ''a.txt''"
    by (simp_all add: indexed_def local_prefix_def after_last_def)
  have "portions ''hello'' = [''hello'']" by (simp add: portions.simps BUFFER_SIZE_def)
  then have sent: "progress_all again [WrErr EAGAIN, WrN 2, WrN 2000] (map length (portions ''hello'')) = Some []"
    by (simp add: again_iff)
  obtain entry where log: "logOut sample_env ''010'' ''a.txt'' = Inr entry"
    by (auto simp: logOut_def sample_env_def log_path_def dec_int_def dec_nat.simps Let_def)
  have "http_module_handler_response sample_env blanks blanks blanks
      (map WrN [1024, 1024, 1024, 1024, 1024] @ [WrErr EAGAIN, WrN 2, WrN 2000]) (sample_request ''GET'' ''/a.txt'')
    = Some (Inr (ok_text (int (length ''hello'')) ''a.txt'' @ ''hello'', [entry], []))"
    by (rule handler_serves_file [OF _ _ _ _ _ _ _ _ _ _ path(1) [symmetric] _ _ _ path(2) _ _ _ sent log, of _ _ "''GET''"])
      (simp_all add: blanks_facts sample_words sample_request_def BUFFSIZE_def PARTSIZE_def supported_def
      strcasecmp_eq_def sample_env_def)
  then show ?thesis by auto
qed

text \<open>
  C37. A request for a directory whose url has no final slash hangs the worker:
  \<open>accept_request\<close> answers 200 with the path of the directory, which can be
  opened, every read from it fails, the end of the file is never reached, and
  the loop of \<open>response_ok\<close> does not end.  As for a file, the request fits the
  arrays, the stack of \<open>accept_request\<close> has a blank soon enough, and the five header
  lines are taken whole.  (With a final slash \<open>index.html\<close> is looked up.)
\<close>

theorem handler_directory_hangs:
  assumes "length g1 = BUFFSIZE" "length g2 = BUFFSIZE" "length m < 511" "length m + length u + 1 < BUFFSIZE"
    "word_ok m" "word_ok u" "overrun m u g2 < PARTSIZE" "method_f req = Some m" "url req = Some u"
    and "supported m" "last (local_prefix @ u) \<noteq> CHR ''/''" "env_stat E (local_prefix @ u) = Some (True, n)"
    "- (2 ^ 63) \<le> n" "n < 2 ^ 63" "env_fopen E (local_prefix @ u) = Some fp"
    "fs_bad fp" "\<not> fs_eof fp" "fs_rest fp = []"
    and "length g3 = BUFFSIZE" "length ks = 5" "\<forall>k\<in>set ks. BUFFSIZE \<le> k"
  shows "http_module_handler_response E g1 g2 g3 (map WrN ks @ script) req = None"
proof -
  obtain name where name: "after_last (CHR ''/'') (local_prefix @ u) = Some name"
    by (simp add: after_last_def local_prefix_def)
  have "NUL \<notin> set name" "length name < 900"
    using after_last_Some [OF name] assms(6,7) by (auto simp: word_ok_def overrun_def PARTSIZE_def)
  then obtain buf where "ok_header n name (g3, map WrN ks @ script) = Inr (ok_text n name, buf, script)"
    using ok_header_roomy [of g3 ks name n script] assms by auto
  moreover have "body_loop script fp (ok_text n name) = None"
    using body_loop_directory [of script fp "ok_text n name"] assms(16-18) by fastforce
  ultimately have "response_ok E g3 (map WrN ks @ script) (local_prefix @ u) = None"
    using assms(12,15) name by (simp add: response_ok_def)
  then show ?thesis
    using handler_eq [OF assms(1-9)] assms(10-12) by (simp add: found_path_def indexed_def)
qed

theorem handler_directory_hangs_witness:
  "http_module_handler_response sample_env blanks blanks blanks (map WrN [1024, 1024, 1024, 1024, 1024] @ [])
     (sample_request ''GET'' ''/d'') = None"
  by (rule handler_directory_hangs [of _ _ "''GET''" "''/d''" _ sample_env 4096
        "\<lparr>fs_rest = [], fs_bad = True, fs_eof = False, fs_err = False\<rparr>"])
    (simp_all add: blanks_facts sample_words sample_request_def BUFFSIZE_def PARTSIZE_def supported_def
      strcasecmp_eq_def sample_env_def local_prefix_def)


definition not_found_text :: string where
  "not_found_text = ''HTTP/1.0 404 NOT FOUND'' @ CRLF @ SERVER_TYPE @ ''Content-Type: text/html'' @ CRLF
     @ ''Connection: close'' @ CRLF @ CRLF @ ''<HTML><TITLE>Not Found</TITLE>'' @ CRLF
     @ ''<BODY><P>The server could not fulfill'' @ CRLF @ ''your request because the resource specified'' @ CRLF
     @ ''is unavailable or nonexistent.'' @ CRLF @ ''</BODY></HTML>'' @ CRLF"

lemma unknow_roomy:
  assumes "roomy taken" "length taken = 10" "length g = BUFFSIZE"
  shows "\<exists>buf'. unknow (g, taken @ script) = Inr (not_found_text, buf', script)"
proof -
  let ?ss = "[''HTTP/1.0 404 NOT FOUND'' @ CRLF, SERVER_TYPE, ''Content-Type: text/html'' @ CRLF,
    ''Connection: close'' @ CRLF, CRLF, ''<HTML><TITLE>Not Found</TITLE>'' @ CRLF,
    ''<BODY><P>The server could not fulfill'' @ CRLF, ''your request because the resource specified'' @ CRLF,
    ''is unavailable or nonexistent.'' @ CRLF, ''</BODY></HTML>'' @ CRLF]"
  have "\<exists>buf'. unknow (g, taken @ script) = Inr (concat ?ss, buf', script) \<and> length buf' = BUFFSIZE"
    unfolding unknow_def using assms
    by (intro steps_roomy) (simp_all add: page_text_def BUFFSIZE_def SERVER_TYPE_def)
  moreover have "concat ?ss = not_found_text" by (simp add: not_found_text_def)
  ultimately show ?thesis by metis
qed

lemma not_found_response:
  assumes "length g1 = BUFFSIZE" "length g2 = BUFFSIZE" "length m < 511" "length m + length u + 1 < BUFFSIZE"
    "word_ok m" "word_ok u" "overrun m u g2 < PARTSIZE" "method_f req = Some m" "url req = Some u"
    and "supported m" "env_stat E (indexed (local_prefix @ u)) = None"
    and "roomy taken" "length taken = 10" "length g3 = BUFFSIZE"
  shows "http_module_handler_response E g1 g2 g3 (taken @ script) req = Some (Inr (not_found_text, [], script))"
  using handler_eq [OF assms(1-9), of E g3 "taken @ script"] unknow_roomy [OF assms(12-14), of script] assms(10,11)
  by (auto simp: error_page_def)

lemma sample_not_found:
  "http_module_handler_response sample_env blanks blanks blanks (replicate 10 (WrN 2000)) (sample_request ''GET'' ''/x'')
     = Some (Inr (not_found_text, [], []))"
  using not_found_response [of blanks blanks "''GET''" "''/x''" "sample_request ''GET'' ''/x''" sample_env
      "replicate 10 (WrN 2000)" blanks "[]"]
  by (simp add: blanks_facts sample_words sample_request_def BUFFSIZE_def PARTSIZE_def supported_def
      strcasecmp_eq_def sample_env_def local_prefix_def indexed_def roomy_def list_all_iff)

text \<open>
  A request for a path that does not exist: with a kernel that takes the ten
  texts whole, the client receives exactly the 404 page, nothing of the array
  behind the texts, and nothing is logged.
\<close>

theorem handler_not_found:
  assumes "length g1 = BUFFSIZE" "length g2 = BUFFSIZE" "length m < 511" "length m + length u + 1 < BUFFSIZE"
    "word_ok m" "word_ok u" "overrun m u g2 < PARTSIZE" "method_f req = Some m" "url req = Some u"
    and "supported m" "env_stat E (indexed (local_prefix @ u)) = None"
    and "roomy taken" "length taken = 10" "length g3 = BUFFSIZE"
  shows "http_module_handler_response E g1 g2 g3 (taken @ script) req = Some (Inr (not_found_text, [], script))"
  by (rule not_found_response [OF assms])

theorem handler_not_found_witness:
  "http_module_handler_response sample_env blanks blanks blanks (replicate 10 (WrN 2000) @ []) (sample_request ''GET'' ''/x'')
     = Some (Inr (not_found_text, [], []))"
  by (rule handler_not_found [of _ _ "''GET''" "''/x''"])
    (simp_all add: blanks_facts sample_words sample_request_def BUFFSIZE_def PARTSIZE_def supported_def
      strcasecmp_eq_def sample_env_def local_prefix_def indexed_def roomy_def list_all_iff)

definition sizeof_texts :: "string \<Rightarrow> string \<Rightarrow> string list" where
  "sizeof_texts status reason = [status @ CRLF, ''Content-type: text/html'' @ CRLF, CRLF, reason,
     ''such as a POST without a Content-Length.'' @ CRLF]"

lemma sizeof_pages:
  "bad_request = steps (map say_whole (sizeof_texts ''HTTP/1.0 400 BAD REQUEST'' ''<P>Your browser sent a bad request, ''))"
  "Conti_request = steps (map say_whole (sizeof_texts ''HTTP/1.0 100 REQUEST not full'' ''<P>Your browser sent a missing data, ''))"
  "wrong_path = steps (map say_whole (sizeof_texts ''HTTP/1.0 303 BAD PATH'' ''<P>Your browser sent a wrong localpath, ''))"
  "toolongUrl = steps (map say_whole (sizeof_texts ''HTTP/1.0 411 BAD REQUEST'' ''<P>Your browser sent a so long request that cant read full, ''))"
  "bad_http = steps (map say_whole (sizeof_texts ''HTTP/1.0 505 BAD REQUEST'' ''<P>Your http is not fit, ''))"
  by (simp_all add: bad_request_def Conti_request_def wrong_path_def toolongUrl_def bad_http_def sizeof_texts_def)

lemma sizeof_page_texts:
  assumes "page = bad_request \<or> page = Conti_request \<or> page = wrong_path \<or> page = toolongUrl \<or> page = bad_http"
  shows "\<exists>status reason. page = steps (map say_whole (sizeof_texts status reason)) \<and> length status < 60 \<and> length reason < 64"
proof -
  have "length ''<P>Your browser sent a so long request that cant read full, '' < 64" by simp
  then show ?thesis
    using assms unfolding sizeof_pages by (elim disjE) (intro exI conjI, assumption, simp, simp)+
qed

lemma replicate_five: "replicate 5 x = [x, x, x, x, x]"
  by (simp add: numeral_eq_Suc)

text \<open>
  The pages sent with \<open>sizeof\<close> leak the stack: each of the five texts goes out
  as a block of \<open>BUFFSIZE\<close> bytes, the text, its NUL, and then bytes of which all
  from position 64 on are the former contents of the uninitialised array.
\<close>

theorem sizeof_pages_leak:
  assumes "page = bad_request \<or> page = Conti_request \<or> page = wrong_path \<or> page = toolongUrl \<or> page = bad_http"
    and "progress_all again script (replicate 5 BUFFSIZE) = Some rest" "length g = BUFFSIZE"
  shows "\<exists>blocks buf. page (g, script) = Inr (concat blocks, buf, rest) \<and> length blocks = 5 \<and>
    (\<forall>b\<in>set blocks. \<exists>t. length b = BUFFSIZE \<and> b = t @ drop 64 g)"
proof -
  obtain status reason where p: "page = steps (map say_whole (sizeof_texts status reason))"
      "length status < 60" "length reason < 64"
    using sizeof_page_texts [OF assms(1)] by blast
  let ?ss = "sizeof_texts status reason"
  have len: "length ?ss = 5" "\<forall>s\<in>set ?ss. length s < 64"
    using p by (simp_all add: sizeof_texts_def)
  have "\<exists>blocks buf. steps (map say_whole ?ss) (g, script) = Inr (concat blocks, buf, rest) \<and>
      list_all2 (\<lambda>b s. \<exists>mid. b = s @ NUL # mid @ drop 64 g \<and> length b = BUFFSIZE) blocks ?ss"
    using len(2) assms(2,3) unfolding len(1) [symmetric] by (intro steps_whole) (simp_all add: BUFFSIZE_def)
  then obtain blocks buf where b: "page (g, script) = Inr (concat blocks, buf, rest)"
      "list_all2 (\<lambda>b s. \<exists>mid. b = s @ NUL # mid @ drop 64 g \<and> length b = BUFFSIZE) blocks ?ss"
    unfolding p(1) by blast
  moreover from list_all2_lengthD [OF b(2)] have "length blocks = 5" by (simp add: sizeof_texts_def)
  moreover have "\<exists>t. length x = BUFFSIZE \<and> x = t @ drop 64 g" if "x \<in> set blocks" for x
    using that b(2) by (fastforce simp: list_all2_conv_all_nth in_set_conv_nth intro: exI [of _ "_ @ NUL # _"])
  ultimately show ?thesis by blast
qed

theorem sizeof_pages_leak_witness:
  "\<exists>blocks buf. wrong_path (blanks, replicate 5 (WrN 1024)) = Inr (concat blocks, buf, []) \<and> length blocks = 5 \<and>
    (\<forall>b\<in>set blocks. \<exists>t. length b = BUFFSIZE \<and> b = t @ drop 64 blanks)"
proof (rule sizeof_pages_leak)
  show "progress_all again (replicate 5 (WrN 1024)) (replicate 5 BUFFSIZE) = Some []"
    by (simp add: BUFFSIZE_def replicate_five)
qed (simp_all add: blanks_facts)


lemma accept_request_empty:
  assumes "length g = BUFFSIZE" "accept_request E g (replicate BUFSIZE NUL) = Inr (r, p)"
  shows "r = HTTP_ERROR_METHOD \<and> p = replicate BUFSIZE NUL"
proof -
  have s: "str_at (replicate BUFSIZE NUL) 0 = Inr []"
    by (simp add: str_at_def BUFSIZE_def)
  from assms obtain x xs where g: "g = x # xs" by (cases g) (auto simp: BUFFSIZE_def)
  then have buf: "put_str g 0 [] = Inr (NUL # xs)" by (simp add: put_str_0)
  obtain part j where m: "copy_part (NUL # xs) 0 [] = Inr (NUL # part, j)"
  proof -
    have "0 + (PARTSIZE - length ([] :: string)) < length (NUL # xs)"
      using assms g by (simp add: BUFFSIZE_def PARTSIZE_def)
    from copy_part_eq [OF this] that show ?thesis by (simp add: PARTSIZE_def Let_def)
  qed
  have e: "end_part (NUL # part) = Inr [] \<or> end_part (NUL # part) = Inl (Undef WriteOOB)"
    by (simp add: end_part_def str_at_def)
  from assms(2) e show ?thesis
    unfolding accept_request_def s bindE_simps buf m
    by (auto simp: bindE_eq_Inr strcasecmp_eq_def)
qed

text \<open>
  \<open>http_module_handler_request\<close> never looks at a request: it hands an empty
  line to \<open>accept_request\<close>, so whenever it returns, the answer is 500 with an
  empty file name.
\<close>

theorem handler_request_always_500:
  assumes "length g = BUFFSIZE" "http_module_handler_request E mem g = Inr info"
  shows "errtype info = HTTP_ERROR_METHOD \<and> filename_f info = []"
proof -
  have "strcpy_member (replicate BUFSIZE NUL) 0 = Inr []"
    by (simp add: strcpy_member_def str_at_def BUFSIZE_def)
  then show ?thesis
    using assms accept_request_empty [OF assms(1), of E]
    by (fastforce simp: http_module_handler_request_def bindE_eq_Inr split: if_splits)
qed

lemma handler_request_runs:
  "\<exists>info. http_module_handler_request sample_env True (''- - '' @ replicate 1020 NUL) = Inr info"
proof -
  let ?g = "''- - '' @ replicate 1020 NUL" and ?buf = "NUL # '' - '' @ replicate 1020 NUL"
  have "put_str ?g 0 [] = Inr ?buf" by (simp add: put_str_0)
  moreover have "copy_part ?buf 0 [] = Inr ([NUL], 1)" "copy_part ?buf 2 [] = Inr (''-'', 3)"
    by (simp_all add: copy_part_eq PARTSIZE_def takeWhile_take_commute Let_def isspace_def)
  moreover have "skip_space ?buf 1 = Inr (Suc 1)"
    by (rule skip_space_one [where c = "CHR '' ''" and d = "CHR ''-''" and rest = "'' '' @ replicate 1020 NUL"])
      (simp_all add: BUFFSIZE_def isspace_def)
  moreover have "end_part [NUL] = Inr []" "end_part ''-'' = Inr ''-''"
    by (simp_all add: end_part_def PARTSIZE_def str_at_def)
  moreover have "str_at (replicate BUFSIZE NUL) 0 = Inr []" "strcpy_member (replicate BUFSIZE NUL) 0 = Inr []"
    by (simp_all add: strcpy_member_def str_at_def BUFSIZE_def)
  ultimately show ?thesis
    by (simp add: http_module_handler_request_def accept_request_def strcasecmp_eq_def numeral_2_eq_2)
qed

theorem handler_request_always_500_witness:
  "\<exists>info. http_module_handler_request sample_env True (''- - '' @ replicate 1020 NUL) = Inr info \<and>
     errtype info = 500 \<and> filename_f info = []"
  using handler_request_always_500 [of "''- - '' @ replicate 1020 NUL" sample_env True] handler_request_runs
  by (auto simp: BUFFSIZE_def HTTP_ERROR_METHOD_def)

text \<open>
  The static error page is never sent: \<open>http_module_error\<close> ends the program
  in \<open>get_file_length\<close>, also when the page exists and can be read.
\<close>

theorem http_module_error_exits:
  assumes "3 \<le> length (outcomes w)"
  shows "http_module_error E n w out = Some (Inl (Exited 0))"
  by (simp add: http_module_error_def get_file_length_stops [OF assms])

theorem http_module_error_exits_witness:
  "http_module_error sample_env 166 \<lparr>outcomes = [SysOk 5, SysOk 0, SysOk 0], trace = []\<rparr> [] = Some (Inl (Exited 0))"
  by (rule http_module_error_exits) simp

end
