(* ===== verification/Event_Loop.thy ===== *)
theory Event_Loop
  imports Connections Http_Module
begin

text \<open>
  The event loop of a worker process: \<open>jump_task_pool_obj\<close> of \<open>inc/http_task.h\<close>
  and the event functions of \<open>inc/http_io_base.h\<close>.  The member \<open>data\<close> of an epoll
  event is a union; it is modelled as the 64-bit word that holds either the
  pointer or, in its low half, the descriptor.  The state of a worker holds
  the kernel's interest list, the connections and requests by address, and
  what has been sent on which descriptor.
\<close>

section \<open>Events\<close>

definition FDSIZE :: int where "FDSIZE = 1000"
definition MAXSIZE :: nat where "MAXSIZE = 1024"
definition EPOLLIN :: "32 word" where "EPOLLIN = 1"
definition EPOLLOUT :: "32 word" where "EPOLLOUT = 4"
definition EPOLL_CTL_ADD :: int where "EPOLL_CTL_ADD = 1"
definition EPOLL_CTL_DEL :: int where "EPOLL_CTL_DEL = 2"
definition EPOLL_CTL_MOD :: int where "EPOLL_CTL_MOD = 3"
definition O_NONBLOCK :: int where "O_NONBLOCK = 2048"

record epoll_event =
  events :: "32 word"
  ev_data :: "64 word"

text \<open>Reading \<open>data.fd\<close>, and writing it into a union that held \<open>g\<close>.\<close>

definition data_fd :: "64 word \<Rightarrow> int" where
  "data_fd d = sint (ucast d :: 32 word)"

definition set_data_fd :: "64 word \<Rightarrow> int \<Rightarrow> 64 word" where
  "set_data_fd g f = word_cat (ucast (drop_bit 32 g) :: 32 word) (word_of_int f :: 32 word)"

record worker =
  epfd :: int
  clientfd :: int
  interest :: "int \<rightharpoonup> epoll_event"
  tcps :: "64 word \<rightharpoonup> http_tcp"
  reqs :: "64 word \<rightharpoonup> http_request"
  sent :: "(int \<times> string) list"
  kworld :: world

text \<open>The kernel's interest list after a call of \<open>epoll_ctl\<close> that returned \<open>r\<close>.\<close>

definition epoll_apply :: "int \<Rightarrow> int \<Rightarrow> epoll_event \<Rightarrow> int \<Rightarrow> (int \<rightharpoonup> epoll_event) \<Rightarrow> (int \<rightharpoonup> epoll_event)" where
  "epoll_apply op f ev r m =
     (if r = - 1 then m else if op = EPOLL_CTL_DEL then m(f := None) else m(f \<mapsto> ev))"

definition ctl :: "int \<Rightarrow> int \<Rightarrow> epoll_event \<Rightarrow> worker \<Rightarrow> worker exec" where
  "ctl op f ev W =
     bindE (Epoll_ctl (epfd W) op f (kworld W)) (\<lambda>(r, k).
     Inr (W\<lparr>kworld := k, interest := epoll_apply op f ev r (interest W)\<rparr>))"

definition close_fd :: "int \<Rightarrow> worker \<Rightarrow> worker exec" where
  "close_fd f W = bindE (sys (CClose f) (kworld W)) (\<lambda>(r, k). Inr (W\<lparr>kworld := k\<rparr>))"

text \<open>
  \<open>add_event\<close> ignores the result of \<open>epoll_ctl\<close>, \<open>delete_event\<close> and \<open>modify_event\<close>
  that of the wrapper; \<open>g\<close> is the uninitialised union.
\<close>

definition add_event :: "64 word \<Rightarrow> int \<Rightarrow> 32 word \<Rightarrow> worker \<Rightarrow> worker exec" where
  "add_event g f state W =
     bindE (sys (CEpollCtl (epfd W) EPOLL_CTL_ADD f) (kworld W)) (\<lambda>(r, k).
     Inr (W\<lparr>kworld := k, interest :=
       epoll_apply EPOLL_CTL_ADD f \<lparr>events = state, ev_data = set_data_fd g f\<rparr> (sys_val r) (interest W)\<rparr>))"

definition delete_event :: "64 word \<Rightarrow> int \<Rightarrow> 32 word \<Rightarrow> worker \<Rightarrow> worker exec" where
  "delete_event g f state W = ctl EPOLL_CTL_DEL f \<lparr>events = state, ev_data = set_data_fd g f\<rparr> W"

definition modify_event :: "64 word \<Rightarrow> int \<Rightarrow> 32 word \<Rightarrow> worker \<Rightarrow> worker exec" where
  "modify_event g f state W = ctl EPOLL_CTL_MOD f \<lparr>events = state, ev_data = set_data_fd g f\<rparr> W"

text \<open>\<open>handle_accpet\<close>, \<open>do_read\<close>, \<open>do_write\<close> and \<open>handle_events\<close> of \<open>inc/http_io_base.h\<close>.\<close>

definition handle_accpet :: "64 word \<Rightarrow> int \<Rightarrow> worker \<Rightarrow> worker exec" where
  "handle_accpet g listenfd W =
     bindE (sys (CAccept listenfd) (kworld W)) (\<lambda>(r, k).
     if sys_val r = - 1 then Inr (W\<lparr>kworld := k\<rparr>)
     else add_event g (sys_val r) EPOLLIN (W\<lparr>kworld := k\<rparr>))"

definition do_read :: "env \<Rightarrow> bool \<Rightarrow> carray \<Rightarrow> worker \<Rightarrow> worker exec" where
  "do_read E mem g W = bindE (http_module_handler_request E mem g) (\<lambda>_. Inr W)"

text \<open>
  \<open>do_write\<close>: \<open>r\<close> is what \<open>write\<close> does.  The buffer is cleared in both cases: the
  \<open>else\<close> branch is the call of \<open>modify_event\<close> alone.
\<close>

definition do_write :: "wr_ret \<Rightarrow> 64 word \<Rightarrow> int \<Rightarrow> carray \<Rightarrow> worker \<Rightarrow> (carray \<times> worker) exec" where
  "do_write r g f buf W =
     bindE (str_at buf 0) (\<lambda>s.
     bindE (case r of
         WrErr _ \<Rightarrow> bindE (close_fd f W) (delete_event g f EPOLLOUT)
       | WrN k \<Rightarrow> modify_event g f EPOLLIN (W\<lparr>sent := sent W @ [(f, take k s)]\<rparr>)) (\<lambda>W.
     if MAXSIZE \<le> length buf then Inr (replicate MAXSIZE NUL @ drop MAXSIZE buf, W) else Inl (Undef WriteOOB)))"

fun handle_events ::
  "env \<Rightarrow> bool \<Rightarrow> carray \<Rightarrow> 64 word \<Rightarrow> (epoll_event \<times> wr_ret) list \<Rightarrow> carray \<Rightarrow> worker \<Rightarrow> (carray \<times> worker) exec" where
  "handle_events E mem g u [] buf W = Inr (buf, W)"
| "handle_events E mem g u ((ev, r) # evs) buf W =
     bindE (if and (events ev) EPOLLIN \<noteq> 0 then bindE (do_read E mem g W) (\<lambda>W. Inr (buf, W))
            else if and (events ev) EPOLLOUT \<noteq> 0 then do_write r u (data_fd (ev_data ev)) buf W
            else Inr (buf, W)) (\<lambda>(buf, W).
     handle_events E mem g u evs buf W)"

section \<open>The worker\<close>

text \<open>
  What happens outside the program while one event is handled: the message
  received (with the former control buffer), the blocks allocated for a
  connection and its address, the reads, the address of a parsed request, and
  the surroundings of a response.
\<close>

record inputs =
  in_rcv :: rcv
  in_ctl :: cmsghdr
  in_blocks :: "carray option \<times> carray option \<times> carray option \<times> carray option"
  in_tcp :: "64 word"
  in_reads :: "rd_ret list"
  in_req :: "64 word"
  in_env :: env
  in_g1 :: carray
  in_g2 :: carray
  in_g3 :: carray
  in_writes :: "wr_ret list"

text \<open>A new client; \<open>True\<close> is the \<open>break\<close> out of the loop over the events.\<close>

definition new_client :: "inputs \<Rightarrow> worker \<Rightarrow> (worker \<times> bool) exec" where
  "new_client I W =
     bindE (Sock_fd_read (in_rcv I) (in_ctl I) 2 (Some (clientfd W))) (\<lambda>(readfd, buf, c).
     let W = W\<lparr>clientfd := (case c of Some f \<Rightarrow> f | None \<Rightarrow> clientfd W)\<rparr> in
     if readfd < 0 \<and> (in_rcv I = RcvErr EAGAIN \<or> in_rcv I = RcvErr EWOULDBLOCK) then Inr (W, True)
     else
       case in_blocks I of (b1, b2, b3, b4) \<Rightarrow>
       (case http_tcp_alloc b1 b2 b3 b4 (clientfd W) of
          None \<Rightarrow> Inl (Undef NullDeref)
        | Some tcp \<Rightarrow>
            bindE (Setnoblock (clientfd W) O_NONBLOCK (kworld W)) (\<lambda>(r, k).
            bindE (ctl EPOLL_CTL_ADD (clientfd W) \<lparr>events = EPOLLIN, ev_data = in_tcp I\<rparr>
                (W\<lparr>kworld := k, tcps := (tcps W)(in_tcp I \<mapsto> tcp)\<rparr>)) (\<lambda>W.
            Inr (W, False)))))"

definition client_readable :: "epoll_event \<Rightarrow> inputs \<Rightarrow> worker \<Rightarrow> (worker \<times> bool) exec" where
  "client_readable ev I W =
     (case tcps W (ev_data ev) of
        None \<Rightarrow> Inl (Undef BadPointer)
      | Some tcp \<Rightarrow>
          bindE (tcp_callback tcp (http_contxt tcp) onRecv (in_reads I) (tcp_buf tcp) READ_COUNT)
            (\<lambda>(req, ctx, b, rs).
          let W = W\<lparr>tcps := (tcps W)(ev_data ev \<mapsto> tcp\<lparr>http_contxt := ctx, tcp_buf := Some b\<rparr>)\<rparr> in
          case req of
            None \<Rightarrow> Inr (W, True)
          | Some h \<Rightarrow>
              bindE (ctl EPOLL_CTL_MOD (clientfd W) \<lparr>events = EPOLLOUT, ev_data = in_req I\<rparr>
                  (W\<lparr>reqs := (reqs W)(in_req I \<mapsto> h)\<rparr>)) (\<lambda>W.
              Inr (W, False))))"

definition client_writable :: "epoll_event \<Rightarrow> inputs \<Rightarrow> worker \<Rightarrow> (worker \<times> bool) exec option" where
  "client_writable ev I W =
     (case reqs W (ev_data ev) of
        None \<Rightarrow> Some (Inl (Undef BadPointer))
      | Some h \<Rightarrow>
          (case http_module_handler_response (in_env I) (in_g1 I) (in_g2 I) (in_g3 I) (in_writes I) h of
             None \<Rightarrow> None
           | Some (Inl e) \<Rightarrow> Some (Inl e)
           | Some (Inr (w, l, rest)) \<Rightarrow> Some
               (let f = data_fd (ev_data ev) in
                bindE (ctl EPOLL_CTL_DEL f ev (W\<lparr>sent := sent W @ [(f, w)]\<rparr>)) (\<lambda>W.
                bindE (close_fd f W) (\<lambda>W. Inr (W, False))))))"

definition handle_event :: "int \<Rightarrow> epoll_event \<Rightarrow> inputs \<Rightarrow> worker \<Rightarrow> (worker \<times> bool) exec option" where
  "handle_event fd0 ev I W =
     (if data_fd (ev_data ev) = fd0 then Some (new_client I W)
      else if and (events ev) EPOLLIN \<noteq> 0 then Some (client_readable ev I W)
      else if and (events ev) EPOLLOUT \<noteq> 0 then client_writable ev I W
      else Some (bindE (ctl EPOLL_CTL_DEL fd0 ev W) (\<lambda>W. bindE (close_fd fd0 W) (\<lambda>W. Inr (W, False)))))"

text \<open>
  The loop over the events of one \<open>epoll_wait\<close>.  The state comes with the way the
  loop ended: \<open>None\<close> when an event is handled for ever.  What the events before
  the last one did is in the state; what the event that stops the worker did before
  it stopped is not.
\<close>

fun handle_batch :: "int \<Rightarrow> (epoll_event \<times> inputs) list \<Rightarrow> worker \<Rightarrow> worker \<times> unit run" where
  "handle_batch fd0 [] W = (W, Some (Inr ()))"
| "handle_batch fd0 ((ev, I) # evs) W =
     (case handle_event fd0 ev I W of
        None \<Rightarrow> (W, None)
      | Some (Inl e) \<Rightarrow> (W, Some (Inl e))
      | Some (Inr (W, brk)) \<Rightarrow> if brk then (W, Some (Inr ())) else handle_batch fd0 evs W)"

text \<open>
  The endless loop: the events of the successive calls of \<open>epoll_wait\<close> are given
  (an \<open>errno\<close> when it fails), and the process waits once they are used up.
\<close>

fun worker_loop :: "int \<Rightarrow> (errno + (epoll_event \<times> inputs) list) list \<Rightarrow> worker \<Rightarrow> worker \<times> stop option" where
  "worker_loop fd0 [] W = (W, Some Blocked)"
| "worker_loop fd0 (Inl e # bs) W = (W, Some (Exited 0))"
| "worker_loop fd0 (Inr evs # bs) W =
     (case handle_batch fd0 evs W of
        (W, None) \<Rightarrow> (W, None)
      | (W, Some (Inl e)) \<Rightarrow> (W, Some e)
      | (W, Some (Inr _)) \<Rightarrow> worker_loop fd0 bs W)"

text \<open>\<open>jump_task_pool_obj\<close>: \<open>g\<close> is the uninitialised \<open>data\<close>, \<open>c\<close> the uninitialised \<open>clientfd\<close>.\<close>

definition jump_task_pool_obj ::
  "int \<times> int \<Rightarrow> 64 word \<Rightarrow> int \<Rightarrow> (errno + (epoll_event \<times> inputs) list) list \<Rightarrow> world \<Rightarrow> (worker \<times> stop option) exec" where
  "jump_task_pool_obj fds g c batches k =
     bindE (sys (CClose (snd fds)) k) (\<lambda>(_, k).
     bindE (Epoll_create FDSIZE k) (\<lambda>(e, k).
     bindE (Setnoblock (fst fds) O_NONBLOCK k) (\<lambda>(_, k).
     bindE (add_event g (fst fds) EPOLLIN \<lparr>epfd = e, clientfd = c, interest = Map.empty, tcps = Map.empty,
         reqs = Map.empty, sent = [], kworld = k\<rparr>) (\<lambda>W.
     Inr (worker_loop (fst fds) batches W)))))"


section \<open>The union\<close>

lemma data_fd_set_data_fd:
  assumes "- (2 ^ 31) \<le> f" "f < 2 ^ 31"
  shows "data_fd (set_data_fd g f) = f"
proof -
  have "(ucast (set_data_fd g f) :: 32 word) = word_of_int f"
    unfolding set_data_fd_def by (rule bit_eqI) (simp add: bit_simps bit_word_cat_iff)
  then show ?thesis
    using assms by (simp add: data_fd_def sint_sbintrunc' signed_take_bit_int_eq_self)
qed

lemma ctl_simps:
  "outcomes (kworld W) = r # rs \<Longrightarrow>
   ctl op f ev W = Inr (W\<lparr>kworld := (kworld W)\<lparr>outcomes := rs, trace := trace (kworld W) @ [(CEpollCtl (epfd W) op f, r)]\<rparr>,
     interest := epoll_apply op f ev (sys_val r) (interest W)\<rparr>)"
  by (simp add: ctl_def Epoll_ctl_def)

lemma close_fd_simps:
  "outcomes (kworld W) = r # rs \<Longrightarrow>
   close_fd f W = Inr (W\<lparr>kworld := (kworld W)\<lparr>outcomes := rs, trace := trace (kworld W) @ [(CClose f, r)]\<rparr>\<rparr>)"
  by (simp add: close_fd_def)

section \<open>Reachable states of a worker\<close>

text \<open>
  What the kernel may report: an event carries the data of an entry of the
  interest list, and input or output only if the entry asked for it.
\<close>

definition reported :: "worker \<Rightarrow> epoll_event \<Rightarrow> bool" where
  "reported W ev \<longleftrightarrow> (\<exists>f reg. interest W f = Some reg \<and> ev_data ev = ev_data reg \<and>
     (and (events ev) EPOLLIN \<noteq> 0 \<longrightarrow> and (events reg) EPOLLIN \<noteq> 0) \<and>
     (and (events ev) EPOLLOUT \<noteq> 0 \<longrightarrow> and (events reg) EPOLLOUT \<noteq> 0))"

text \<open>
  The states of a worker with the events that its last \<open>epoll_wait\<close> reported and
  that it has not yet handled; a \<open>break\<close> drops them.
\<close>

inductive worker_reaches :: "int \<Rightarrow> worker \<Rightarrow> worker \<Rightarrow> epoll_event list \<Rightarrow> bool" for fd0 W0 where
  start: "worker_reaches fd0 W0 W0 []"
| wait: "worker_reaches fd0 W0 W [] \<Longrightarrow> \<forall>ev\<in>set evs. reported W ev \<Longrightarrow> worker_reaches fd0 W0 W evs"
| event: "worker_reaches fd0 W0 W (ev # evs) \<Longrightarrow> handle_event fd0 ev I W = Some (Inr (W', brk)) \<Longrightarrow>
    worker_reaches fd0 W0 W' (if brk then [] else evs)"

inductive_cases worker_reachesE: "worker_reaches fd0 W0 W evs"

text \<open>A batch of \<open>epoll_wait\<close> is a sequence of such steps.\<close>

lemma handle_batch_reaches:
  "worker_reaches fd0 W0 W (map fst evs) \<Longrightarrow> handle_batch fd0 evs W = (W', Some (Inr u)) \<Longrightarrow> worker_reaches fd0 W0 W' []"
proof (induction fd0 evs W rule: handle_batch.induct)
  case (2 fd0 ev I evs W)
  from "2.prems"(2) obtain W1 brk where one: "handle_event fd0 ev I W = Some (Inr (W1, brk))"
    and rest: "if brk then W1 = W' else handle_batch fd0 evs W1 = (W', Some (Inr u))"
    by (fastforce split: option.splits sum.splits if_splits)
  from worker_reaches.event [of fd0 W0 W ev "map fst evs", OF _ one] "2.prems"(1)
  have "worker_reaches fd0 W0 W1 (if brk then [] else map fst evs)" by simp
  with rest "2.IH" [OF one refl refl] show ?case by (cases brk) auto
qed simp

text \<open>Every entry is the one of the pair, a connection waiting for input or a request waiting for output.\<close>

definition entry_ok :: "int \<Rightarrow> worker \<Rightarrow> epoll_event \<Rightarrow> bool" where
  "entry_ok fd0 W reg \<longleftrightarrow> data_fd (ev_data reg) = fd0 \<or>
     (events reg = EPOLLIN \<and> tcps W (ev_data reg) \<noteq> None) \<or>
     (events reg = EPOLLOUT \<and> reqs W (ev_data reg) \<noteq> None)"

text \<open>An event that can be handled: what its data points to has been allocated.\<close>

definition event_ok :: "int \<Rightarrow> worker \<Rightarrow> epoll_event \<Rightarrow> bool" where
  "event_ok fd0 W ev \<longleftrightarrow> data_fd (ev_data ev) = fd0 \<or>
     (and (events ev) EPOLLIN \<noteq> 0 \<longrightarrow> tcps W (ev_data ev) \<noteq> None) \<and>
     (and (events ev) EPOLLOUT \<noteq> 0 \<longrightarrow> reqs W (ev_data ev) \<noteq> None)"

definition interest_ok :: "int \<Rightarrow> epoll_event list \<Rightarrow> worker \<Rightarrow> bool" where
  "interest_ok fd0 evs W \<longleftrightarrow> (\<forall>f reg. interest W f = Some reg \<longrightarrow> entry_ok fd0 W reg) \<and>
     (\<forall>ev\<in>set evs. event_ok fd0 W ev)"

lemma reported_event_ok:
  assumes "interest_ok fd0 evs W" "reported W ev"
  shows "event_ok fd0 W ev"
proof -
  from assms(2) obtain f reg where reg: "interest W f = Some reg" "ev_data ev = ev_data reg"
      "and (events ev) EPOLLIN \<noteq> 0 \<longrightarrow> and (events reg) EPOLLIN \<noteq> 0"
      "and (events ev) EPOLLOUT \<noteq> 0 \<longrightarrow> and (events reg) EPOLLOUT \<noteq> 0"
    unfolding reported_def by blast
  with assms(1) have "entry_ok fd0 W reg" by (simp add: interest_ok_def)
  with reg show ?thesis by (auto simp: entry_ok_def event_ok_def EPOLLIN_def EPOLLOUT_def)
qed

lemma ctl_Inr:
  "ctl op f ev W = Inr W' \<Longrightarrow> tcps W' = tcps W \<and> reqs W' = reqs W \<and> sent W' = sent W \<and>
   (interest W' = interest W \<or> interest W' = (interest W)(f := None) \<or> op \<noteq> EPOLL_CTL_DEL \<and> interest W' = (interest W)(f \<mapsto> ev))"
  by (auto simp: ctl_def bindE_eq_Inr epoll_apply_def split: if_splits)

lemma close_fd_Inr:
  "close_fd f W = Inr W' \<Longrightarrow> tcps W' = tcps W \<and> reqs W' = reqs W \<and> interest W' = interest W \<and> sent W' = sent W"
  by (auto simp: close_fd_def bindE_eq_Inr)

lemma interest_ok_grows:
  assumes "interest_ok fd0 evs W" "dom (tcps W) \<subseteq> dom (tcps W')" "dom (reqs W) \<subseteq> dom (reqs W')"
    and "\<And>f reg. interest W' f = Some reg \<Longrightarrow> interest W f = Some reg \<or> entry_ok fd0 W' reg"
  shows "interest_ok fd0 evs W'"
proof -
  have "entry_ok fd0 W' reg" if "entry_ok fd0 W reg" for reg
    using that assms(2,3) by (auto simp: entry_ok_def)
  moreover have "event_ok fd0 W' ev" if "event_ok fd0 W ev" for ev
    using that assms(2,3) by (auto simp: event_ok_def)
  ultimately show ?thesis using assms(1,4) unfolding interest_ok_def by blast
qed

text \<open>A new client: nothing is done, or a connection is allocated and registered.\<close>

lemma new_client_cases:
  assumes "new_client I W = Inr (W', brk)"
  obtains (broken) c where "W' = W\<lparr>clientfd := c\<rparr>"
  | (added) f tcp r k where "case in_blocks I of (b1, b2, b3, b4) \<Rightarrow> http_tcp_alloc b1 b2 b3 b4 f = Some tcp"
      "Setnoblock f O_NONBLOCK (kworld W) = Inr (r, k)"
      "ctl EPOLL_CTL_ADD f \<lparr>events = EPOLLIN, ev_data = in_tcp I\<rparr>
         (W\<lparr>clientfd := f, kworld := k, tcps := (tcps W)(in_tcp I \<mapsto> tcp)\<rparr>) = Inr W'"
proof -
  obtain readfd buf c b1 b2 b3 b4 where
    rd: "Sock_fd_read (in_rcv I) (in_ctl I) 2 (Some (clientfd W)) = Inr (readfd, buf, c)"
    and blocks: "in_blocks I = (b1, b2, b3, b4)"
    using assms by (cases "in_blocks I") (auto simp: new_client_def bindE_eq_Inr)
  define f where "f = (case c of Some f \<Rightarrow> f | None \<Rightarrow> clientfd W)"
  show ?thesis
  proof (cases "readfd < 0 \<and> (in_rcv I = RcvErr EAGAIN \<or> in_rcv I = RcvErr EWOULDBLOCK)")
    case True
    then show ?thesis using assms rd blocks by (intro broken [of f]) (simp add: new_client_def f_def Let_def)
  next
    case False
    with assms rd blocks obtain tcp r k where "http_tcp_alloc b1 b2 b3 b4 f = Some tcp" "Setnoblock f O_NONBLOCK (kworld W) = Inr (r, k)"
      "ctl EPOLL_CTL_ADD f \<lparr>events = EPOLLIN, ev_data = in_tcp I\<rparr>
         (W\<lparr>clientfd := f, kworld := k, tcps := (tcps W)(in_tcp I \<mapsto> tcp)\<rparr>) = Inr W'"
      by (auto simp: new_client_def Let_def f_def [symmetric] bindE_eq_Inr split: option.splits)
    then show ?thesis using blocks by (intro added) simp_all
  qed
qed

lemma new_client_ok:
  assumes "new_client I W = Inr (W', brk)" "interest_ok fd0 evs W"
  shows "interest_ok fd0 evs W'"
  using assms(1)
proof (cases rule: new_client_cases)
  case broken
  with assms(2) show ?thesis by (simp add: interest_ok_def entry_ok_def event_ok_def)
next
  case added
  from ctl_Inr [OF added(3)] show ?thesis
    by (intro interest_ok_grows [OF assms(2)]) (auto simp: entry_ok_def split: if_splits)
qed

lemma client_readable_ok:
  assumes "client_readable ev I W = Inr (W', brk)" "interest_ok fd0 evs W"
  shows "interest_ok fd0 evs W'"
proof -
  from assms(1) obtain tcp req ctx b rs where tcp: "tcps W (ev_data ev) = Some tcp"
    and cb: "tcp_callback tcp (http_contxt tcp) onRecv (in_reads I) (tcp_buf tcp) READ_COUNT = Inr (req, ctx, b, rs)"
    by (auto simp: client_readable_def bindE_eq_Inr split: option.splits)
  define Wc where "Wc = W\<lparr>tcps := (tcps W)(ev_data ev \<mapsto> tcp\<lparr>http_contxt := ctx, tcp_buf := Some b\<rparr>)\<rparr>"
  have same: "dom (tcps W) \<subseteq> dom (tcps Wc)" "reqs Wc = reqs W" "interest Wc = interest W" by (auto simp: Wc_def)
  show ?thesis
  proof (cases req)
    case None
    then have "W' = Wc" using assms(1) tcp cb by (simp add: client_readable_def Let_def Wc_def)
    with same show ?thesis by (intro interest_ok_grows [OF assms(2)]) auto
  next
    case (Some h)
    with assms(1) tcp cb have "ctl EPOLL_CTL_MOD (clientfd Wc) \<lparr>events = EPOLLOUT, ev_data = in_req I\<rparr>
         (Wc\<lparr>reqs := (reqs Wc)(in_req I \<mapsto> h)\<rparr>) = Inr W'"
      by (auto simp: client_readable_def Let_def Wc_def bindE_eq_Inr)
    from ctl_Inr [OF this] same show ?thesis
      by (intro interest_ok_grows [OF assms(2)]) (auto simp: entry_ok_def split: if_splits)
  qed
qed

lemma drop_ok:
  assumes "ctl EPOLL_CTL_DEL f ev W1 = Inr W2" "close_fd f W2 = Inr W'" "interest_ok fd0 evs W"
    and "tcps W1 = tcps W" "reqs W1 = reqs W" "interest W1 = interest W"
  shows "interest_ok fd0 evs W'"
  using ctl_Inr [OF assms(1)] close_fd_Inr [OF assms(2)] assms(4-6)
  by (intro interest_ok_grows [OF assms(3)]) (auto split: if_splits)

lemma handle_event_ok:
  assumes "handle_event fd0 ev I W = Some (Inr (W', brk))" "interest_ok fd0 evs W"
  shows "interest_ok fd0 evs W'"
proof -
  from assms(1) consider "new_client I W = Inr (W', brk)" | "client_readable ev I W = Inr (W', brk)"
    | "client_writable ev I W = Some (Inr (W', brk))"
    | W2 where "ctl EPOLL_CTL_DEL fd0 ev W = Inr W2" "close_fd fd0 W2 = Inr W'"
    by (auto simp: handle_event_def bindE_eq_Inr split: if_splits)
  then show ?thesis
  proof cases
    case 3
    then obtain W1 W2 where "ctl EPOLL_CTL_DEL (data_fd (ev_data ev)) ev W1 = Inr W2"
      "close_fd (data_fd (ev_data ev)) W2 = Inr W'" "tcps W1 = tcps W" "reqs W1 = reqs W" "interest W1 = interest W"
      by (fastforce simp: client_writable_def bindE_eq_Inr Let_def split: option.splits sum.splits)
    with drop_ok assms(2) show ?thesis by blast
  next
    case 4
    with drop_ok assms(2) show ?thesis by blast
  qed (use assms(2) in \<open>auto intro: new_client_ok client_readable_ok\<close>)
qed

lemma worker_reaches_ok: "worker_reaches fd0 W0 W evs \<Longrightarrow> interest_ok fd0 [] W0 \<Longrightarrow> interest_ok fd0 evs W"
proof (induction rule: worker_reaches.induct)
  case (wait W evs)
  then show ?case
    using reported_event_ok [of fd0 "[]" W] by (simp add: interest_ok_def)
next
  case (event W ev evs I W' brk)
  then show ?case using handle_event_ok [of fd0 ev I W W' brk "ev # evs"] by (auto simp: interest_ok_def)
qed

section \<open>Responses\<close>

text \<open>Only an output event makes a worker send, and it sends to the low half of the address of a request.\<close>

lemma handle_event_sent:
  assumes "handle_event fd0 ev I W = Some (Inr (W', brk))"
  shows "dom (reqs W) \<subseteq> dom (reqs W') \<and> (sent W' = sent W \<or>
    (\<exists>w. sent W' = sent W @ [(data_fd (ev_data ev), w)] \<and> data_fd (ev_data ev) \<noteq> fd0 \<and> ev_data ev \<in> dom (reqs W)))"
proof -
  from assms consider (pair) "new_client I W = Inr (W', brk)" | (read) "client_readable ev I W = Inr (W', brk)"
    | (send) "client_writable ev I W = Some (Inr (W', brk))" "data_fd (ev_data ev) \<noteq> fd0"
    | (other) W2 where "ctl EPOLL_CTL_DEL fd0 ev W = Inr W2" "close_fd fd0 W2 = Inr W'"
    by (auto simp: handle_event_def bindE_eq_Inr split: if_splits)
  then show ?thesis
  proof cases
    case pair
    then show ?thesis by (cases rule: new_client_cases) (auto dest!: ctl_Inr)
  next
    case read
    then show ?thesis
      by (auto simp: client_readable_def Let_def bindE_eq_Inr split: option.splits dest!: ctl_Inr)
  next
    case send
    then show ?thesis
      by (auto simp: client_writable_def Let_def bindE_eq_Inr split: option.splits sum.splits dest!: ctl_Inr close_fd_Inr)
  next
    case other
    with ctl_Inr [OF other(1)] close_fd_Inr [OF other(2)] show ?thesis by simp
  qed
qed

section \<open>Short reads\<close>

lemma short_read_stops:
  assumes "tcps W (ev_data ev) = Some tcp" "tcp_callback tcp = callback"
    and "in_reads I = RdData d # rs" "d \<noteq> []" "length d < READ_COUNT"
    and "data_fd (ev_data ev) \<noteq> fd0" "and (events ev) EPOLLIN \<noteq> 0"
  shows "\<exists>e. handle_event fd0 ev I W = Some (Inl (Undef e))"
proof (cases "tcp_buf tcp")
  case None
  with assms show ?thesis by (simp add: handle_event_def client_readable_def callback_def)
next
  case (Some b)
  from onRecv_short [OF assms(4,5), of rs b] obtain e where "onRecv (RdData d # rs) b READ_COUNT = Inl (Undef e)"
    by (auto simp: READ_COUNT_def READ_COUNT_BUF_def)
  with Some assms show ?thesis by (simp add: handle_event_def client_readable_def callback_def)
qed

text \<open>Every connection object calls \<open>callback\<close>.\<close>

definition calls_back :: "worker \<Rightarrow> bool" where
  "calls_back W \<longleftrightarrow> (\<forall>tcp\<in>ran (tcps W). tcp_callback tcp = callback)"

lemma http_tcp_alloc_callback: "http_tcp_alloc b1 b2 b3 b4 f = Some tcp \<Longrightarrow> tcp_callback tcp = callback"
  by (auto simp: http_tcp_alloc_def split: option.splits)

lemma calls_back_upd:
  "calls_back W \<Longrightarrow> tcps W' = (tcps W)(a \<mapsto> tcp) \<Longrightarrow> tcp_callback tcp = callback \<Longrightarrow> calls_back W'"
  by (auto simp: calls_back_def ran_def split: if_splits)

lemma calls_back_event:
  assumes "handle_event fd0 ev I (W\<lparr>kworld := k\<rparr>) = Some (Inr (W', brk))" "calls_back W"
  shows "calls_back W'"
proof -
  from assms(1) consider (pair) "new_client I (W\<lparr>kworld := k\<rparr>) = Inr (W', brk)"
    | (readable) "client_readable ev I (W\<lparr>kworld := k\<rparr>) = Inr (W', brk)"
    | (rest) "tcps W' = tcps W"
    by (auto simp: handle_event_def client_writable_def Let_def bindE_eq_Inr split: if_splits option.splits sum.splits
        dest!: ctl_Inr close_fd_Inr)
  then show ?thesis
  proof cases
    case pair
    then show ?thesis
    proof (cases rule: new_client_cases)
      case broken
      with assms(2) show ?thesis by (simp add: calls_back_def)
    next
      case (added f tcp)
      from added(1) have "tcp_callback tcp = callback" by (cases "in_blocks I") (auto dest: http_tcp_alloc_callback)
      with ctl_Inr [OF added(3)] show ?thesis by (intro calls_back_upd [OF assms(2)]) simp_all
    qed
  next
    case readable
    then obtain tcp ctx b where tcp: "tcps W (ev_data ev) = Some tcp"
      and W': "tcps W' = (tcps W)(ev_data ev \<mapsto> tcp\<lparr>http_contxt := ctx, tcp_buf := Some b\<rparr>)"
      by (fastforce simp: client_readable_def Let_def bindE_eq_Inr split: option.splits dest!: ctl_Inr)
    from tcp assms(2) have "tcp_callback tcp = callback" by (auto simp: calls_back_def ran_def)
    then show ?thesis by (intro calls_back_upd [OF assms(2) W']) simp
  next
    case rest
    with assms(2) show ?thesis by (simp add: calls_back_def)
  qed
qed

section \<open>Termination\<close>

lemma handle_event_ends: "readable_files (in_env I) \<Longrightarrow> handle_event fd0 ev I W \<noteq> None"
  using handler_ends by (auto simp: handle_event_def client_writable_def Let_def simp del: not_None_eq split: option.splits sum.splits)

lemma handle_batch_ends: "\<forall>(ev, I)\<in>set evs. readable_files (in_env I) \<Longrightarrow> snd (handle_batch fd0 evs W) \<noteq> None"
  by (induction fd0 evs W rule: handle_batch.induct)
    (use handle_event_ends in \<open>fastforce split: option.splits sum.splits\<close>)+

section \<open>Properties\<close>

text \<open>
  A passed descriptor is registered: when the message carries the descriptor
  \<open>f\<close> and the calls succeed, the worker remembers \<open>f\<close>, makes it non-blocking,
  allocates a connection for it, and the interest list maps \<open>f\<close> to that
  connection's address, waiting for input; the other entries are unchanged.
\<close>

theorem new_client_registers:
  assumes "in_rcv I = RcvMsg d (Some \<lparr>cmsg_len = CMSG_LEN_INT, cmsg_level = SOL_SOCKET, cmsg_type = SCM_RIGHTS, cmsg_data = f\<rparr>)"
    and "in_blocks I = (Some b1, Some b2, Some b3, Some b4)"
    and "outcomes (kworld W) = SysOk old # SysOk v # SysOk r # rs" "0 \<le> old" "0 \<le> v" "0 \<le> r"
  shows "\<exists>W' tcp. new_client I W = Inr (W', False) \<and> clientfd W' = f \<and>
    interest W' = (interest W)(f \<mapsto> \<lparr>events = EPOLLIN, ev_data = in_tcp I\<rparr>) \<and>
    tcps W' (in_tcp I) = Some tcp \<and> fd tcp = f \<and> tcp_buf tcp = Some b4 \<and>
    (CFcntlSet f (or old O_NONBLOCK), SysOk v) \<in> set (trace (kworld W'))"
  using assms
  by (simp add: new_client_def Sock_fd_read_def Let_def http_tcp_alloc_def alloc_http_context_def
      Setnoblock_def ctl_simps epoll_apply_def EPOLL_CTL_ADD_def EPOLL_CTL_DEL_def)

definition sample_inputs :: inputs where
  "sample_inputs = \<lparr>
     in_rcv = RcvMsg ''ab'' (Some \<lparr>cmsg_len = CMSG_LEN_INT, cmsg_level = SOL_SOCKET, cmsg_type = SCM_RIGHTS, cmsg_data = 9\<rparr>),
     in_ctl = \<lparr>cmsg_len = 0, cmsg_level = 0, cmsg_type = 0, cmsg_data = 0\<rparr>,
     in_blocks = (Some [], Some [], Some (replicate BUFSIZE NUL), Some (replicate BUFSIZE NUL)),
     in_tcp = 0x55550010, in_reads = [], in_req = 0x7F0000002000, in_env = sample_env,
     in_g1 = blanks, in_g2 = blanks, in_g3 = blanks, in_writes = replicate 10 (WrN 2000)\<rparr>"

definition sample_worker :: "sys_ret list \<Rightarrow> worker" where
  "sample_worker rs = \<lparr>epfd = 4, clientfd = 0, interest = Map.empty, tcps = Map.empty, reqs = Map.empty, sent = [],
     kworld = \<lparr>outcomes = rs, trace = []\<rparr>\<rparr>"

theorem new_client_registers_witness:
  "\<exists>W' tcp. new_client sample_inputs (sample_worker [SysOk 2, SysOk 0, SysOk 0]) = Inr (W', False) \<and> clientfd W' = 9 \<and>
    interest W' = [9 \<mapsto> \<lparr>events = EPOLLIN, ev_data = 0x55550010\<rparr>] \<and> tcps W' 0x55550010 = Some tcp \<and> fd tcp = 9"
  using new_client_registers [of sample_inputs "''ab''" 9 "[]" "[]" "replicate BUFSIZE NUL" "replicate BUFSIZE NUL"
      "sample_worker [SysOk 2, SysOk 0, SysOk 0]" 2 0 0 "[]"]
  by (fastforce simp: sample_inputs_def sample_worker_def)

text \<open>
  A parsed request re-arms the descriptor accepted last, not the one the
  request came from: the kernel is told to wait for output on \<open>clientfd\<close>, with
  the address of the request, and the entry of the sending client is unchanged.
\<close>

theorem readable_rearms_last_client:
  assumes "tcps W (ev_data ev) = Some tcp" "fd tcp \<noteq> clientfd W"
    and "tcp_callback tcp (http_contxt tcp) onRecv (in_reads I) (tcp_buf tcp) READ_COUNT = Inr (Some h, ctx, b, rest)"
    and "outcomes (kworld W) = SysOk r # rs" "0 \<le> r"
  shows "\<exists>W'. client_readable ev I W = Inr (W', False) \<and>
    interest W' (clientfd W) = Some \<lparr>events = EPOLLOUT, ev_data = in_req I\<rparr> \<and>
    interest W' (fd tcp) = interest W (fd tcp) \<and> reqs W' (in_req I) = Some h"
  using assms by (simp add: client_readable_def ctl_simps epoll_apply_def EPOLL_CTL_MOD_def EPOLL_CTL_DEL_def)

text \<open>A request of exactly \<open>READ_COUNT\<close> bytes, from the client on descriptor 8, after the client on 9.\<close>

definition full_url :: string where
  "full_url = CHR ''/'' # replicate 82 (CHR ''a'')"

definition client_8 :: http_tcp where
  "client_8 = \<lparr>fd = 8, http_contxt = \<lparr>ctx_buf = replicate BUFSIZE NUL, parse_req = analasy\<rparr>, tcp_callback = callback,
     tcp_buf = Some ([] @ NUL # replicate (BUFSIZE - 1) NUL)\<rparr>"

lemma full_request_read:
  "\<exists>h ctx b. callback (http_contxt client_8) onRecv [RdData (request_text ''GET'' full_url ''HTTP/1.1'' [] [])]
     (tcp_buf client_8) READ_COUNT = Inr (Some h, ctx, b, []) \<and> url h = Some full_url"
proof -
  let ?d = "request_text ''GET'' full_url ''HTTP/1.1'' [] []"
  have len: "length ?d = 100" by (simp add: request_witness_simps full_url_def)
  have nul: "NUL \<notin> set ?d" by (simp add: request_witness_simps full_url_def)
  have ok: "request_ok ''GET'' full_url ''HTTP/1.1'' []"
    by (simp add: request_witness_simps full_url_def)
  show ?thesis
    using callback_request [of READ_COUNT ?d "[]" "''GET''" full_url "''HTTP/1.1''" "[]" "[]"
        "replicate (BUFSIZE - 1) NUL" "http_contxt client_8" onRecv "[]"] len nul ok
    by (auto simp: READ_COUNT_def READ_COUNT_BUF_def BUFSIZE_def client_8_def)
qed

theorem readable_rearms_last_client_witness:
  "\<exists>W'. client_readable \<lparr>events = EPOLLIN, ev_data = 0x1000\<rparr>
      (sample_inputs\<lparr>in_reads := [RdData (request_text ''GET'' full_url ''HTTP/1.1'' [] [])]\<rparr>)
      ((sample_worker [SysOk 0])\<lparr>clientfd := 9, tcps := [0x1000 \<mapsto> client_8]\<rparr>) = Inr (W', False) \<and>
    interest W' 9 = Some \<lparr>events = EPOLLOUT, ev_data = 0x7F0000002000\<rparr> \<and> interest W' 8 = None"
proof -
  let ?I = "sample_inputs\<lparr>in_reads := [RdData (request_text ''GET'' full_url ''HTTP/1.1'' [] [])]\<rparr>"
  let ?W = "(sample_worker [SysOk 0])\<lparr>clientfd := 9, tcps := [0x1000 \<mapsto> client_8]\<rparr>"
  obtain h ctx b where "callback (http_contxt client_8) onRecv (in_reads ?I) (tcp_buf client_8) READ_COUNT
      = Inr (Some h, ctx, b, [])"
    using full_request_read by auto
  moreover have "tcp_callback client_8 = callback" "fd client_8 = 8" by (simp_all add: client_8_def)
  ultimately show ?thesis
    using readable_rearms_last_client [of ?W "\<lparr>events = EPOLLIN, ev_data = 0x1000\<rparr>" client_8 ?I h ctx b "[]" 0 "[]"]
    by (force simp: sample_worker_def sample_inputs_def)
qed

text \<open>
  The response goes astray: on a writable event the descriptor used for the
  response, for removing the event and for \<open>close\<close> is the low half of the
  request's address.  Unless that happens to be the client's descriptor, the client receives nothing,
  keeps its entry in the interest list and is not closed.
\<close>

theorem response_goes_to_pointer_fd:
  assumes "reqs W (ev_data ev) = Some h" "f = data_fd (ev_data ev)" "c \<noteq> f"
    and "http_module_handler_response (in_env I) (in_g1 I) (in_g2 I) (in_g3 I) (in_writes I) h = Some (Inr (w, l, rest))"
    and "outcomes (kworld W) = r1 # r2 # rs"
  shows "\<exists>W'. client_writable ev I W = Some (Inr (W', False)) \<and> sent W' = sent W @ [(f, w)] \<and>
    interest W' c = interest W c \<and>
    trace (kworld W') = trace (kworld W) @ [(CEpollCtl (epfd W) EPOLL_CTL_DEL f, r1), (CClose f, r2)]"
  using assms by (simp add: client_writable_def Let_def ctl_simps close_fd_simps epoll_apply_def)

definition waiting_worker :: worker where
  "waiting_worker = (sample_worker [SysErr (EOTHER 2), SysErr (EOTHER 9)])
     \<lparr>clientfd := 9, interest := [9 \<mapsto> \<lparr>events = EPOLLOUT, ev_data = 0x7F0000002000\<rparr>],
      reqs := [0x7F0000002000 \<mapsto> sample_request ''GET'' ''/x'']\<rparr>"

theorem response_goes_to_pointer_fd_witness:
  "\<exists>W'. client_writable \<lparr>events = EPOLLOUT, ev_data = 0x7F0000002000\<rparr> sample_inputs waiting_worker = Some (Inr (W', False)) \<and>
    sent W' = [(0x2000, not_found_text)] \<and> interest W' 9 = Some \<lparr>events = EPOLLOUT, ev_data = 0x7F0000002000\<rparr>"
proof -
  have f: "data_fd 0x7F0000002000 = 0x2000" by (simp add: data_fd_def)
  show ?thesis
    using response_goes_to_pointer_fd [of waiting_worker "\<lparr>events = EPOLLOUT, ev_data = 0x7F0000002000\<rparr>"
        "sample_request ''GET'' ''/x''" "0x2000" 9 sample_inputs not_found_text "[]" "[]"
        "SysErr (EOTHER 2)" "SysErr (EOTHER 9)" "[]"]
    by (force simp: waiting_worker_def sample_worker_def sample_inputs_def f sample_not_found)
qed


text \<open>
  Starting a worker: it closes the other end of the pair, creates its epoll
  instance, makes its end of the pair non-blocking and waits for input on it;
  the event the kernel will report is recognised as one for that descriptor.
\<close>

theorem worker_starts:
  assumes "outcomes k = r1 # SysOk e # SysOk old # SysOk v # SysOk a # rs" "0 \<le> e" "0 \<le> old" "0 \<le> v" "0 \<le> a"
    and "- (2 ^ 31) \<le> f0" "f0 < 2 ^ 31"
  shows "\<exists>W ev. (\<forall>batches. jump_task_pool_obj (f0, f1) g c batches k = Inr (worker_loop f0 batches W)) \<and>
    epfd W = e \<and> interest W = [f0 \<mapsto> ev] \<and> events ev = EPOLLIN \<and> data_fd (ev_data ev) = f0 \<and>
    tcps W = Map.empty \<and> reqs W = Map.empty \<and> sent W = [] \<and> outcomes (kworld W) = rs \<and> trace (kworld W) = trace k @ [(CClose f1, r1), (CEpollCreate FDSIZE, SysOk e), (CFcntlGet f0, SysOk old),
      (CFcntlSet f0 (or old O_NONBLOCK), SysOk v), (CEpollCtl e EPOLL_CTL_ADD f0, SysOk a)]"
proof -
  let ?ev = "\<lparr>events = EPOLLIN, ev_data = set_data_fd g f0\<rparr>"
  let ?W = "\<lparr>epfd = e, clientfd = c, interest = [f0 \<mapsto> ?ev], tcps = Map.empty, reqs = Map.empty, sent = [],
    kworld = k\<lparr>outcomes := rs, trace := trace k @ [(CClose f1, r1), (CEpollCreate FDSIZE, SysOk e), (CFcntlGet f0, SysOk old),
      (CFcntlSet f0 (or old O_NONBLOCK), SysOk v), (CEpollCtl e EPOLL_CTL_ADD f0, SysOk a)]\<rparr>\<rparr>"
  have "jump_task_pool_obj (f0, f1) g c batches k = Inr (worker_loop f0 batches ?W)" for batches
    using assms by (simp add: jump_task_pool_obj_def Epoll_create_def Setnoblock_def add_event_def epoll_apply_def
        EPOLL_CTL_ADD_def EPOLL_CTL_DEL_def)
  then show ?thesis
    using data_fd_set_data_fd [OF assms(6,7), of g] by (intro exI [of _ ?W] exI [of _ ?ev]) simp
qed

theorem worker_starts_witness:
  "\<exists>W ev. jump_task_pool_obj (6, 7) 0xFFFF00000000 0 [] \<lparr>outcomes = [SysOk 0, SysOk 4, SysOk 2, SysOk 0, SysOk 0], trace = []\<rparr>
      = Inr (worker_loop 6 [] W) \<and> interest W = [6 \<mapsto> ev] \<and> data_fd (ev_data ev) = 6"
  using worker_starts [of "\<lparr>outcomes = [SysOk 0, SysOk 4, SysOk 2, SysOk 0, SysOk 0], trace = []\<rparr>"
      "SysOk 0" 4 2 0 0 "[]" 6 7 "0xFFFF00000000" 0]
  by auto

text \<open>
  A short request crashes the worker: when the first read of a connection
  delivers fewer than \<open>READ_COUNT\<close> bytes, \<open>onRecv\<close> clears memory behind its stack
  array before it reads again, whatever comes next.
\<close>

theorem short_request_crashes:
  assumes "tcps W (ev_data ev) = Some tcp" "tcp_callback tcp = callback" "tcp_buf tcp = Some (t @ NUL # post)"
    and "NUL \<notin> set t" "READ_COUNT \<le> length post"
    and "in_reads I = RdData d # rs" "d \<noteq> []" "length d < READ_COUNT"
    and "data_fd (ev_data ev) \<noteq> fd0" "and (events ev) EPOLLIN \<noteq> 0"
  shows "handle_event fd0 ev I W = Some (Inl (Undef WriteOOB))"
proof -
  have "onRecv (RdData d # rs) (t @ NUL # post) READ_COUNT = Inl (Undef WriteOOB)"
    using onRecv_step [of READ_COUNT t post "RdData d" rs] assms
    by (simp add: READ_COUNT_def READ_COUNT_BUF_def Let_def)
  then show ?thesis
    using assms by (simp add: handle_event_def client_readable_def callback_def)
qed

theorem short_request_crashes_witness:
  "handle_event 6 \<lparr>events = EPOLLIN, ev_data = 0x1000\<rparr>
     (sample_inputs\<lparr>in_reads := [RdData (''GET / HTTP/1.1'' @ CRLF @ CRLF), RdErr EAGAIN]\<rparr>)
     ((sample_worker [SysOk 0])\<lparr>tcps := [0x1000 \<mapsto> client_8]\<rparr>) = Some (Inl (Undef WriteOOB))"
  by (rule short_request_crashes [where tcp = client_8 and t = "[]" and post = "replicate (BUFSIZE - 1) NUL"
        and d = "''GET / HTTP/1.1'' @ CRLF @ CRLF" and rs = "[RdErr EAGAIN]"])
    (simp_all add: client_8_def READ_COUNT_def BUFSIZE_def data_fd_def EPOLLIN_def)


text \<open>
  C25. No dangling pointer: among the events a worker has fetched and not yet
  handled, whatever it did since it fetched them, an input event that is not
  for the pair carries the address of a connection that has been allocated, and
  an output event the address of a parsed request.
\<close>

theorem worker_pointers_live:
  assumes "worker_reaches fd0 W0 W evs" "interest W0 = [fd0 \<mapsto> \<lparr>events = EPOLLIN, ev_data = set_data_fd g fd0\<rparr>]"
    "- (2 ^ 31) \<le> fd0" "fd0 < 2 ^ 31" and "ev \<in> set evs" "data_fd (ev_data ev) \<noteq> fd0"
  shows "(and (events ev) EPOLLIN \<noteq> 0 \<longrightarrow> tcps W (ev_data ev) \<noteq> None) \<and>
    (and (events ev) EPOLLOUT \<noteq> 0 \<longrightarrow> reqs W (ev_data ev) \<noteq> None)"
proof -
  have "interest_ok fd0 [] W0"
    using assms(2) data_fd_set_data_fd [OF assms(3,4), of g] by (auto simp: interest_ok_def entry_ok_def split: if_splits)
  with assms(1) have "interest_ok fd0 evs W" by (rule worker_reaches_ok)
  with assms(5,6) show ?thesis by (auto simp: interest_ok_def event_ok_def)
qed

definition started_worker :: worker where
  "started_worker = (sample_worker [SysOk 2, SysOk 0, SysOk 0])
     \<lparr>interest := [6 \<mapsto> \<lparr>events = EPOLLIN, ev_data = set_data_fd 0 6\<rparr>]\<rparr>"

lemma started_worker_step:
  "\<exists>W'. worker_reaches 6 started_worker W' [\<lparr>events = EPOLLIN, ev_data = 0x55550010\<rparr>]"
proof -
  let ?ev = "\<lparr>events = EPOLLIN, ev_data = set_data_fd 0 6\<rparr>"
  have fd: "data_fd (set_data_fd 0 6) = 6" by (rule data_fd_set_data_fd) simp_all
  have rep: "\<forall>ev\<in>set [?ev]. reported started_worker ev" by (auto simp: reported_def started_worker_def)
  obtain W' where step: "handle_event 6 ?ev sample_inputs started_worker = Some (Inr (W', False))"
    and i: "interest W' 9 = Some \<lparr>events = EPOLLIN, ev_data = 0x55550010\<rparr>"
    by (simp add: handle_event_def fd new_client_def Sock_fd_read_def Let_def http_tcp_alloc_def alloc_http_context_def
        Setnoblock_def ctl_simps epoll_apply_def EPOLL_CTL_ADD_def EPOLL_CTL_DEL_def sample_inputs_def
        started_worker_def sample_worker_def)
  have "worker_reaches 6 started_worker W' []"
    using worker_reaches.event [OF worker_reaches.wait [OF worker_reaches.start rep] step] by simp
  moreover have "reported W' \<lparr>events = EPOLLIN, ev_data = 0x55550010\<rparr>"
    unfolding reported_def by (rule exI [of _ 9], rule exI) (use i in auto)
  ultimately show ?thesis using worker_reaches.wait [of 6 started_worker W'] by force
qed

theorem worker_pointers_live_witness:
  "\<exists>W'. worker_reaches 6 started_worker W' [\<lparr>events = EPOLLIN, ev_data = 0x55550010\<rparr>] \<and> tcps W' 0x55550010 \<noteq> None"
proof -
  obtain W' where W': "worker_reaches 6 started_worker W' [\<lparr>events = EPOLLIN, ev_data = 0x55550010\<rparr>]"
    using started_worker_step by auto
  have "tcps W' 0x55550010 \<noteq> None"
    using worker_pointers_live [OF W', of 0 "\<lparr>events = EPOLLIN, ev_data = 0x55550010\<rparr>"]
    by (simp add: started_worker_def data_fd_def EPOLLIN_def)
  with W' show ?thesis by blast
qed

text \<open>
  The loops inside an event are the only ones that can hold a worker: when reading
  an opened file never fails and the kernel stops answering at some point (the
  scripts of the inputs are finite, and a call that finds none left waits), the loop
  over the events comes to the point where the worker waits or stops.  What
  \<open>http_send\<close> does when the kernel answers for ever is \<open>http_send_on_ends\<close>.
\<close>

theorem worker_loop_ends:
  assumes "\<forall>evs. Inr evs \<in> set bs \<longrightarrow> (\<forall>(ev, I)\<in>set evs. readable_files (in_env I))"
  shows "\<exists>W' s. worker_loop fd0 bs W = (W', Some s)"
  using assms
proof (induction fd0 bs W rule: worker_loop.induct)
  case (3 fd0 evs bs W)
  then obtain W1 r where r: "handle_batch fd0 evs W = (W1, Some r)"
    using handle_batch_ends [of evs fd0 W] by (cases "handle_batch fd0 evs W") auto
  with 3 show ?case by (cases r) auto
qed simp_all

theorem worker_loop_ends_witness:
  "\<exists>W' s. worker_loop 6 [Inr [(\<lparr>events = EPOLLOUT, ev_data = 0x7F0000002000\<rparr>,
       sample_inputs\<lparr>in_env := sample_env\<lparr>env_fopen := (\<lambda>p. Some (reading ''hello''))\<rparr>\<rparr>)], Inl (EOTHER 4)] waiting_worker = (W', Some s)"
  by (rule worker_loop_ends) (simp add: readable_files_def reading_def)

end
