(* ===== verification/Slist.thy ===== *)
theory Slist
  imports Http_Prelude
begin

text \<open>
  The singly-linked lists of \<open>inc/list.h\<close> (with the counter \<open>n_proc\<close> this
  program added to the head).  The elements live in a heap, a partial map from
  addresses to elements, with address 0 as the NULL pointer; the macros are
  functions on the heap and the head.  The segment predicate says which
  addresses a chain of pointers visits; the locale \<open>elem_list\<close> is the contract
  of an intrusive list that its clients rely on.
\<close>

section \<open>Data\<close>

record 'a slist_elm =
  elm :: 'a
  sle_next :: nat

record slist_head =
  n_proc :: int
  slh_first :: nat

type_synonym 'a heap = "nat \<rightharpoonup> 'a slist_elm"

definition load :: "'a heap \<Rightarrow> nat \<Rightarrow> 'a slist_elm exec" where
  "load h p = (case h p of
      None \<Rightarrow> Inl (Undef (if p = 0 then NullDeref else BadPointer))
    | Some e \<Rightarrow> Inr e)"

definition store_next :: "'a heap \<Rightarrow> nat \<Rightarrow> nat \<Rightarrow> 'a heap exec" where
  "store_next h p q = bindE (load h p) (\<lambda>e. Inr (h(p \<mapsto> e\<lparr>sle_next := q\<rparr>)))"

section \<open>The macros\<close>

definition SLIST_HEAD_INITIALIZER :: slist_head where
  "SLIST_HEAD_INITIALIZER = \<lparr>n_proc = 0, slh_first = 0\<rparr>"

definition SLIST_EMPTY :: "slist_head \<Rightarrow> bool" where
  "SLIST_EMPTY head \<longleftrightarrow> slh_first head = 0"

definition SLIST_FIRST :: "slist_head \<Rightarrow> nat" where
  "SLIST_FIRST head = slh_first head"

definition SLIST_NEXT :: "'a heap \<Rightarrow> nat \<Rightarrow> nat exec" where
  "SLIST_NEXT h p = bindE (load h p) (\<lambda>e. Inr (sle_next e))"

text \<open>
  The loop over a list: the body works on a state \<open>'s\<close> that holds the heap and
  the local variables, and says whether it leaves the loop.  A loop over a
  cyclic chain does not end, so the result is an option.
\<close>

partial_function (option) SLIST_FOREACH ::
  "('s \<Rightarrow> nat \<Rightarrow> nat exec) \<Rightarrow> (nat \<Rightarrow> 's \<Rightarrow> ('s \<times> bool) exec) \<Rightarrow> nat \<Rightarrow> 's \<Rightarrow> 's exec option" where
  "SLIST_FOREACH nxt body var s =
     (if var = 0 then Some (Inr s)
      else case body var s of
        Inl e \<Rightarrow> Some (Inl e)
      | Inr (s', brk) \<Rightarrow>
          if brk then Some (Inr s')
          else case nxt s' var of
            Inl e \<Rightarrow> Some (Inl e)
          | Inr var' \<Rightarrow> SLIST_FOREACH nxt body var' s')"

definition SLIST_INIT :: "slist_head \<Rightarrow> slist_head" where
  "SLIST_INIT head = head\<lparr>n_proc := 0, slh_first := 0\<rparr>"

definition SLIST_INSERT_AFTER :: "nat \<Rightarrow> nat \<Rightarrow> 'a heap \<Rightarrow> 'a heap exec" where
  "SLIST_INSERT_AFTER slistelm e h =
     bindE (SLIST_NEXT h slistelm) (\<lambda>n.
     bindE (store_next h e n) (\<lambda>h. store_next h slistelm e))"

definition SLIST_INSERT_HEAD :: "nat \<Rightarrow> 'a heap \<times> slist_head \<Rightarrow> ('a heap \<times> slist_head) exec" where
  "SLIST_INSERT_HEAD e = (\<lambda>(h, head).
     bindE (store_next h e (slh_first head)) (\<lambda>h. Inr (h, head\<lparr>slh_first := e\<rparr>)))"

definition SLIST_REMOVE_HEAD :: "'a heap \<times> slist_head \<Rightarrow> ('a heap \<times> slist_head) exec" where
  "SLIST_REMOVE_HEAD = (\<lambda>(h, head).
     bindE (SLIST_NEXT h (slh_first head)) (\<lambda>n. Inr (h, head\<lparr>slh_first := n\<rparr>)))"

text \<open>The search for the predecessor in \<open>SLIST_REMOVE\<close>.\<close>

partial_function (option) find_pred :: "'a heap \<Rightarrow> nat \<Rightarrow> nat \<Rightarrow> nat exec option" where
  "find_pred h e curelm =
     (case SLIST_NEXT h curelm of
        Inl f \<Rightarrow> Some (Inl f)
      | Inr n \<Rightarrow> if n \<noteq> e then find_pred h e n else Some (Inr curelm))"

definition SLIST_REMOVE ::
  "nat \<Rightarrow> 'a heap \<times> slist_head \<Rightarrow> ('a heap \<times> slist_head) exec option" where
  "SLIST_REMOVE e = (\<lambda>(h, head).
     if slh_first head = e then Some (SLIST_REMOVE_HEAD (h, head))
     else case find_pred h e (slh_first head) of
       None \<Rightarrow> None
     | Some (Inl f) \<Rightarrow> Some (Inl f)
     | Some (Inr c) \<Rightarrow> Some
         (bindE (SLIST_NEXT h c) (\<lambda>n.
          bindE (SLIST_NEXT h n) (\<lambda>n2.
          bindE (store_next h c n2) (\<lambda>h. Inr (h, head))))))"

section \<open>Chains in the heap\<close>

fun seg :: "'a heap \<Rightarrow> nat \<Rightarrow> nat list \<Rightarrow> nat \<Rightarrow> bool" where
  "seg h p [] q = (p = q)"
| "seg h p (a # as) q = (p = a \<and> a \<noteq> 0 \<and> (\<exists>e. h a = Some e \<and> seg h (sle_next e) as q))"

definition elems :: "'a heap \<Rightarrow> nat list \<Rightarrow> 'a list" where
  "elems h as = map (\<lambda>a. elm (the (h a))) as"

lemma elems_simps [simp]:
  "elems h [] = []" "elems h (a # as) = elm (the (h a)) # elems h as"
  "elems h (as @ bs) = elems h as @ elems h bs" "length (elems h as) = length as"
  by (simp_all add: elems_def)

lemma elems_upd [simp]: "a \<notin> set as \<Longrightarrow> elems (h(a := e)) as = elems h as"
  by (auto simp: elems_def)

lemma seg_append [simp]: "seg h p (as @ bs) r = (\<exists>q. seg h p as q \<and> seg h q bs r)"
  by (induction as arbitrary: p) auto

lemma seg_upd [simp]: "a \<notin> set as \<Longrightarrow> seg (h(a := e)) p as q = seg h p as q"
  by (induction as arbitrary: p) auto

lemma seg_null [simp]: "seg h 0 as q \<longleftrightarrow> as = [] \<and> q = 0"
  by (cases as) auto

lemma seg_nonnull: "seg h p as q \<Longrightarrow> a \<in> set as \<Longrightarrow> a \<noteq> 0 \<and> a \<in> dom h"
  by (induction as arbitrary: p) auto

lemma seg_unique: "seg h p as 0 \<Longrightarrow> seg h p bs 0 \<Longrightarrow> as = bs"
proof (induction as arbitrary: p bs)
  case (Cons a as)
  then show ?case by (cases bs) auto
qed auto

lemma seg_distinct: "seg h p as 0 \<Longrightarrow> distinct as"
proof (induction as arbitrary: p)
  case (Cons a as)
  then obtain e where e: "h a = Some e" and s: "seg h (sle_next e) as 0" by auto
  have "a \<notin> set as"
  proof
    assume "a \<in> set as"
    then obtain us vs where as: "as = us @ a # vs" by (auto simp: in_set_conv_decomp)
    with s have "seg h a (a # vs) 0" by auto
    moreover from e s have "seg h a (a # as) 0" using Cons.prems by auto
    ultimately have "a # vs = a # as" by (rule seg_unique)
    with as show False by simp
  qed
  with s Cons.IH show ?case by auto
qed simp

lemma seg_first: "seg h p as 0 \<Longrightarrow> (p = 0) = (as = [])"
  by (cases as) auto

section \<open>The contract of an intrusive list\<close>

text \<open>
  What a client of such a list relies on: the addresses in the list, inserting
  an allocated element at the head, and removing an element that is in it;
  no operation changes the payload of an element.
\<close>

fun insert_all :: "(nat \<Rightarrow> 's \<Rightarrow> 's exec) \<Rightarrow> nat list \<Rightarrow> 's \<Rightarrow> 's exec" where
  "insert_all ins [] s = Inr s"
| "insert_all ins (x # xs) s = bindE (ins x s) (insert_all ins xs)"

fun remove_all :: "(nat \<Rightarrow> 's \<Rightarrow> 's exec option) \<Rightarrow> nat list \<Rightarrow> 's \<Rightarrow> 's exec option" where
  "remove_all rm [] s = Some (Inr s)"
| "remove_all rm (x # xs) s =
     (case rm x s of None \<Rightarrow> None | Some (Inl e) \<Rightarrow> Some (Inl e) | Some (Inr s) \<Rightarrow> remove_all rm xs s)"

locale elem_list =
  fixes rel :: "'s \<Rightarrow> nat list \<Rightarrow> bool"
    and payload :: "'s \<Rightarrow> nat \<Rightarrow> 'v option"
    and insert_head :: "nat \<Rightarrow> 's \<Rightarrow> 's exec"
    and remove :: "nat \<Rightarrow> 's \<Rightarrow> 's exec option"
  assumes rel_distinct: "rel s xs \<Longrightarrow> distinct xs"
    and insert_head_law: "rel s xs \<Longrightarrow> x \<noteq> 0 \<Longrightarrow> payload s x \<noteq> None \<Longrightarrow> x \<notin> set xs \<Longrightarrow>
      \<exists>s'. insert_head x s = Inr s' \<and> rel s' (x # xs) \<and> payload s' = payload s"
    and remove_law: "rel s xs \<Longrightarrow> x \<in> set xs \<Longrightarrow>
      \<exists>s'. remove x s = Some (Inr s') \<and> rel s' (remove1 x xs) \<and> payload s' = payload s"
begin

lemma insert_all_law:
  "rel s xs \<Longrightarrow> distinct ys \<Longrightarrow> set ys \<inter> set xs = {} \<Longrightarrow> (\<And>y. y \<in> set ys \<Longrightarrow> y \<noteq> 0 \<and> payload s y \<noteq> None) \<Longrightarrow>
   \<exists>s'. insert_all insert_head ys s = Inr s' \<and> rel s' (rev ys @ xs) \<and> payload s' = payload s"
proof (induction ys arbitrary: s xs)
  case Nil
  then show ?case by simp
next
  case (Cons y ys)
  then obtain s1 where "insert_head y s = Inr s1" "rel s1 (y # xs)" "payload s1 = payload s"
    using insert_head_law [of s xs y] by auto
  with Cons.IH [of s1 "y # xs"] Cons.prems show ?case by auto
qed

lemma remove_all_law:
  "rel s xs \<Longrightarrow> distinct ys \<Longrightarrow> set ys = set xs \<Longrightarrow>
   \<exists>s'. remove_all remove ys s = Some (Inr s') \<and> rel s' [] \<and> payload s' = payload s"
proof (induction ys arbitrary: s xs)
  case Nil
  then show ?case by simp
next
  case (Cons y ys)
  then obtain s1 where s1: "remove y s = Some (Inr s1)" "rel s1 (remove1 y xs)" "payload s1 = payload s"
    using remove_law [of s xs y] by auto
  have "set ys = set (remove1 y xs)"
    using Cons.prems rel_distinct [of s xs] by (auto simp: set_remove1_eq)
  with s1 Cons.IH [of s1 "remove1 y xs"] Cons.prems show ?case by auto
qed

lemma remove_insert_head:
  assumes "rel s xs" and "x \<noteq> 0" and "payload s x \<noteq> None" and "x \<notin> set xs"
  shows "\<exists>s1 s2. insert_head x s = Inr s1 \<and> remove x s1 = Some (Inr s2) \<and> rel s2 xs"
  using insert_head_law [OF assms] remove_law [of _ "x # xs" x] by fastforce

end

text \<open>The macros keep the contract.\<close>

definition slist_rel :: "'a heap \<times> slist_head \<Rightarrow> nat list \<Rightarrow> bool" where
  "slist_rel = (\<lambda>(h, head) xs. seg h (slh_first head) xs 0)"

definition slist_payload :: "'a heap \<times> slist_head \<Rightarrow> nat \<Rightarrow> 'a option" where
  "slist_payload = (\<lambda>(h, head) x. map_option elm (h x))"

lemma store_next_ok: "h p = Some e \<Longrightarrow> store_next h p q = Inr (h(p \<mapsto> e\<lparr>sle_next := q\<rparr>))"
  by (simp add: store_next_def load_def)

lemma SLIST_NEXT_ok: "h p = Some e \<Longrightarrow> SLIST_NEXT h p = Inr (sle_next e)"
  by (simp add: SLIST_NEXT_def load_def)

lemma find_pred_ok:
  "seg h p (us @ [c]) x \<Longrightarrow> x \<notin> set (us @ [c]) \<Longrightarrow> find_pred h x p = Some (Inr c)"
proof (induction us arbitrary: p)
  case Nil
  then show ?case by (auto simp: find_pred.simps [of h x c] SLIST_NEXT_ok)
next
  case (Cons a us)
  then obtain e where e: "p = a" "h a = Some e" "seg h (sle_next e) (us @ [c]) x" by auto
  with Cons.IH Cons.prems have "find_pred h x (sle_next e) = Some (Inr c)" by auto
  moreover from e(3) Cons.prems have "sle_next e \<noteq> x" by (cases us) auto
  ultimately show ?case using e by (simp add: find_pred.simps [of h x a] SLIST_NEXT_ok)
qed

lemma SLIST_REMOVE_inner:
  assumes s: "seg h p (us @ c # x # vs) 0" and p: "slh_first head = p"
  shows "\<exists>e. h c = Some e \<and> (\<exists>f. h x = Some f \<and>
    SLIST_REMOVE x (h, head) = Some (Inr (h(c \<mapsto> e\<lparr>sle_next := sle_next f\<rparr>), head)))"
proof -
  from s obtain e f where ef: "seg h p us c" "h c = Some e" "sle_next e = x" "h x = Some f"
    by auto
  from s have d: "distinct (us @ c # x # vs)" by (rule seg_distinct)
  from s have c0: "c \<noteq> 0" by auto
  have "find_pred h x p = Some (Inr c)"
    using ef c0 d by (intro find_pred_ok [where us = us]) auto
  moreover have "p \<noteq> x" using s d by (cases us) auto
  ultimately show ?thesis
    using ef p by (simp add: SLIST_REMOVE_def SLIST_NEXT_ok store_next_ok)
qed

lemma slist_remove_rel:
  assumes "slist_rel (h, head) xs" and "x \<in> set xs"
  shows "\<exists>s'. SLIST_REMOVE x (h, head) = Some (Inr s') \<and> slist_rel s' (remove1 x xs) \<and>
    slist_payload s' = slist_payload (h, head)"
proof -
  from assms(1) have s: "seg h (slh_first head) xs 0" and d: "distinct xs"
    by (auto simp: slist_rel_def seg_distinct)
  from assms(2) obtain us vs where xs: "xs = us @ x # vs" by (auto simp: in_set_conv_decomp)
  show ?thesis
  proof (cases us rule: rev_cases)
    case Nil
    with s xs show ?thesis
      by (auto simp: SLIST_REMOVE_def SLIST_REMOVE_HEAD_def SLIST_NEXT_ok slist_rel_def slist_payload_def)
  next
    case (snoc ws c)
    with s xs SLIST_REMOVE_inner [of h "slh_first head" ws c x vs head]
    obtain e f where ef: "h c = Some e" "h x = Some f"
      "SLIST_REMOVE x (h, head) = Some (Inr (h(c \<mapsto> e\<lparr>sle_next := sle_next f\<rparr>), head))" by auto
    with s d xs snoc show ?thesis
      by (auto simp: slist_rel_def slist_payload_def remove1_append fun_eq_iff)
  qed
qed

lemma slist_insert_head_rel:
  assumes "slist_rel (h, head) xs" and "x \<noteq> 0" and "slist_payload (h, head) x \<noteq> None" and "x \<notin> set xs"
  shows "\<exists>s'. SLIST_INSERT_HEAD x (h, head) = Inr s' \<and> slist_rel s' (x # xs) \<and>
    slist_payload s' = slist_payload (h, head)"
proof -
  from assms(2,3) obtain e where e: "h x = Some e" "x \<noteq> 0"
    by (auto simp: slist_payload_def)
  let ?s = "(h(x \<mapsto> e\<lparr>sle_next := slh_first head\<rparr>), head\<lparr>slh_first := x\<rparr>)"
  have "SLIST_INSERT_HEAD x (h, head) = Inr ?s"
    using e by (simp add: SLIST_INSERT_HEAD_def store_next_ok)
  moreover have "slist_rel ?s (x # xs)" using assms(1,4) e by (simp add: slist_rel_def)
  moreover have "slist_payload ?s = slist_payload (h, head)"
    using e by (simp add: slist_payload_def fun_eq_iff)
  ultimately show ?thesis by blast
qed

interpretation slist: elem_list slist_rel slist_payload SLIST_INSERT_HEAD SLIST_REMOVE
proof
  show "distinct xs" if "slist_rel s xs" for s :: "'a heap \<times> slist_head" and xs
    using that by (auto simp: slist_rel_def dest: seg_distinct)
  show "\<exists>s'. SLIST_INSERT_HEAD x s = Inr s' \<and> slist_rel s' (x # xs) \<and> slist_payload s' = slist_payload s"
    if "slist_rel s xs" "x \<noteq> 0" "slist_payload s x \<noteq> None" "x \<notin> set xs" for s :: "'a heap \<times> slist_head" and xs x
    using that slist_insert_head_rel by (cases s) blast
  show "\<exists>s'. SLIST_REMOVE x s = Some (Inr s') \<and> slist_rel s' (remove1 x xs) \<and> slist_payload s' = slist_payload s"
    if "slist_rel s xs" "x \<in> set xs" for s :: "'a heap \<times> slist_head" and xs x
    using that slist_remove_rel by (cases s) blast
qed

lemma elems_payload:
  "slist_payload (h, head) = slist_payload (h', head') \<Longrightarrow> set as \<subseteq> dom h \<Longrightarrow> elems h' as = elems h as"
proof -
  assume eq: "slist_payload (h, head) = slist_payload (h', head')" and as: "set as \<subseteq> dom h"
  have "elm (the (h' a)) = elm (the (h a))" if "a \<in> set as" for a
    using fun_cong [OF eq, of a] as that by (cases "h a"; cases "h' a") (auto simp: slist_payload_def)
  then show ?thesis by (simp add: elems_def)
qed

lemma dom_payload: "slist_payload (h, head) = slist_payload (h', head') \<Longrightarrow> dom h' = dom h"
  by (auto simp: slist_payload_def fun_eq_iff dom_def) (metis option.map_disc_iff option.exhaust)+

lemma SLIST_INSERT_HEAD_n_proc:
  "SLIST_INSERT_HEAD x (h, head) = Inr (h', head') \<Longrightarrow> n_proc head' = n_proc head"
  by (auto simp: SLIST_INSERT_HEAD_def bindE_eq_Inr)

section \<open>Loops over a list\<close>

text \<open>
  Most loops of the program read and write the payload of the current element
  and some local variables only.  Such a body is given by a function of the
  address, the payload and the locals; on a well-formed list the loop is the
  function \<open>scan\<close> on the list of payloads.
\<close>

definition local_body ::
  "(nat \<Rightarrow> 'a \<Rightarrow> 'c \<Rightarrow> 'a \<times> 'c \<times> bool) \<Rightarrow> nat \<Rightarrow> 'a heap \<times> 'c \<Rightarrow> (('a heap \<times> 'c) \<times> bool) exec" where
  "local_body f a = (\<lambda>(h, c). bindE (load h a) (\<lambda>e.
     case f a (elm e) c of (x, c', brk) \<Rightarrow> Inr ((h(a \<mapsto> e\<lparr>elm := x\<rparr>), c'), brk)))"

definition heap_next :: "'a heap \<times> 'c \<Rightarrow> nat \<Rightarrow> nat exec" where
  "heap_next = (\<lambda>(h, c) a. SLIST_NEXT h a)"

fun scan :: "(nat \<Rightarrow> 'a \<Rightarrow> 'c \<Rightarrow> 'a \<times> 'c \<times> bool) \<Rightarrow> nat list \<Rightarrow> 'a list \<Rightarrow> 'c \<Rightarrow> 'a list \<times> 'c" where
  "scan f (a # as) (x # xs) c =
     (case f a x c of (x', c', brk) \<Rightarrow>
        if brk then (x' # xs, c')
        else case scan f as xs c' of (ys, c'') \<Rightarrow> (x' # ys, c''))"
| "scan f _ _ c = ([], c)"

lemma seg_elm_upd: "h a = Some e \<Longrightarrow> seg (h(a \<mapsto> e\<lparr>elm := x\<rparr>)) p as q = seg h p as q"
  by (induction as arbitrary: p) auto

lemma elems_elm_upd:
  "distinct as \<Longrightarrow> k < length as \<Longrightarrow> elems (h(as ! k \<mapsto> e\<lparr>elm := x\<rparr>)) as = (elems h as)[k := x]"
  by (auto simp: elems_def list_eq_iff_nth_eq nth_list_update nth_eq_iff_index_eq)

lemma foreach_scan:
  assumes "seg h p as 0"
  shows "\<exists>h'. SLIST_FOREACH heap_next (local_body f) p (h, c)
      = Some (Inr (h', snd (scan f as (elems h as) c))) \<and>
    seg h' p as 0 \<and> elems h' as = fst (scan f as (elems h as) c) \<and>
    (\<forall>a. a \<notin> set as \<longrightarrow> h' a = h a) \<and> dom h' = dom h"
  using assms
proof (induction as arbitrary: p h c)
  case Nil
  then show ?case by (simp add: SLIST_FOREACH.simps)
next
  case (Cons a as)
  then obtain e where e: "p = a" "a \<noteq> 0" "h a = Some e" "seg h (sle_next e) as 0" by auto
  have nin: "a \<notin> set as" using seg_distinct [OF Cons.prems] by simp
  obtain x c1 brk where f: "f a (elm e) c = (x, c1, brk)" by (metis prod_cases3)
  let ?h = "h(a \<mapsto> e\<lparr>elm := x\<rparr>)"
  have body: "local_body f a (h, c) = Inr ((?h, c1), brk)"
    using e f by (simp add: local_body_def load_def)
  have tail: "seg ?h (sle_next e) as 0" "elems ?h as = elems h as" using e nin by simp_all
  show ?case
  proof (cases brk)
    case True
    with e f body nin tail show ?thesis
      by (auto simp: SLIST_FOREACH.simps [of _ _ a])
  next
    case False
    obtain h' where h': "SLIST_FOREACH heap_next (local_body f) (sle_next e) (?h, c1)
        = Some (Inr (h', snd (scan f as (elems h as) c1)))"
      "seg h' (sle_next e) as 0" "elems h' as = fst (scan f as (elems h as) c1)"
      "\<forall>b. b \<notin> set as \<longrightarrow> h' b = ?h b" "dom h' = dom ?h"
      using Cons.IH [OF tail(1), of c1] unfolding tail(2) by blast
    from h'(4) nin have "h' a = Some (e\<lparr>elm := x\<rparr>)" by simp
    then show ?thesis
      using e f body False h'
      by (auto simp: SLIST_FOREACH.simps [of _ _ a] heap_next_def SLIST_NEXT_ok split: prod.splits)
  qed
qed


section \<open>Properties\<close>

text \<open>
  Filling and draining a list: inserting distinct allocated elements into an
  empty list leaves them in the list in reverse order; removing them again, in
  any order whatever, always ends, empties the list, and no step touches a payload.
\<close>

theorem slist_fill_drain:
  assumes "slist_rel s []" "distinct ys" "\<forall>y\<in>set ys. y \<noteq> 0 \<and> slist_payload s y \<noteq> None"
    and "distinct zs" "set zs = set ys"
  shows "\<exists>s1 s2. insert_all SLIST_INSERT_HEAD ys s = Inr s1 \<and> slist_rel s1 (rev ys) \<and>
    remove_all SLIST_REMOVE zs s1 = Some (Inr s2) \<and> slist_rel s2 [] \<and> slist_payload s2 = slist_payload s"
proof -
  obtain s1 where s1: "insert_all SLIST_INSERT_HEAD ys s = Inr s1" "slist_rel s1 (rev ys)" "slist_payload s1 = slist_payload s"
    using slist.insert_all_law [OF assms(1,2)] assms(3) by auto
  moreover obtain s2 where "remove_all SLIST_REMOVE zs s1 = Some (Inr s2)" "slist_rel s2 []" "slist_payload s2 = slist_payload s1"
    using slist.remove_all_law [OF s1(2) assms(4)] assms(5) by auto
  ultimately show ?thesis by metis
qed

theorem slist_fill_drain_witness:
  "\<exists>s1 s2. insert_all SLIST_INSERT_HEAD [1, 2, 3]
      ([1 \<mapsto> \<lparr>elm = 10 :: int, sle_next = 0\<rparr>, 2 \<mapsto> \<lparr>elm = 20, sle_next = 0\<rparr>, 3 \<mapsto> \<lparr>elm = 30, sle_next = 0\<rparr>],
       SLIST_HEAD_INITIALIZER) = Inr s1 \<and> slist_rel s1 [3, 2, 1] \<and>
    remove_all SLIST_REMOVE [2, 1, 3] s1 = Some (Inr s2) \<and> slist_rel s2 []"
  using slist_fill_drain [of "([1 \<mapsto> \<lparr>elm = 10 :: int, sle_next = 0\<rparr>, 2 \<mapsto> \<lparr>elm = 20, sle_next = 0\<rparr>,
      3 \<mapsto> \<lparr>elm = 30, sle_next = 0\<rparr>], SLIST_HEAD_INITIALIZER)" "[1, 2, 3]" "[2, 1, 3]"]
  by (fastforce simp: slist_rel_def slist_payload_def SLIST_HEAD_INITIALIZER_def)

end
