(* ===== verification/Process_Pool.thy ===== *)
theory Process_Pool
  imports Slist
begin

text \<open>
  The pool of worker processes of \<open>inc/http_task.h\<close>: a global singly-linked
  list of processor records in the heap of the master process, the operations
  on it, and their refinement to operations on a plain list of records.
\<close>

section \<open>Data\<close>

definition NPROC_MAX_NUM :: nat where "NPROC_MAX_NUM = 10"
definition MAX_FD_NUM :: int where "MAX_FD_NUM = 200"

record processor_t =
  pid :: int
  nleft :: int
  status :: int

text \<open>
  The heap of the master, the head \<open>proc_pool\<close>, the next address \<open>malloc\<close> hands
  out and the number of allocations that still succeed.  Addresses are never
  reused, so an access to a freed record is seen as one.
\<close>

record pool =
  pcells :: "processor_t heap"
  phead :: slist_head
  pbrk :: nat
  pavail :: nat

definition init_pool :: "nat \<Rightarrow> pool" where
  "init_pool n = \<lparr>pcells = Map.empty, phead = SLIST_HEAD_INITIALIZER, pbrk = 1, pavail = n\<rparr>"

section \<open>Operations\<close>

text \<open>
  \<open>open_max_fd\<close> only changes its local copy of the limits; the result is that
  copy's \<open>rlim_max\<close>.
\<close>

definition open_max_fd :: "sys_ret \<Rightarrow> int \<Rightarrow> int exec" where
  "open_max_fd r rlim_max =
     (if sys_val r < 0 then Inl (Exited 1)
      else Inr (if rlim_max > MAX_FD_NUM then MAX_FD_NUM else rlim_max))"

definition proc_alloc :: "pool \<Rightarrow> (nat \<times> pool) exec" where
  "proc_alloc P =
     (if pavail P = 0 then Inl (Exited 0)
      else Inr (pbrk P, P\<lparr>pcells := (pcells P)(pbrk P \<mapsto>
                  \<lparr>elm = \<lparr>pid = - 1, nleft = MAX_FD_NUM, status = 0\<rparr>, sle_next = 0\<rparr>),
                pbrk := pbrk P + 1, pavail := pavail P - 1\<rparr>))"

definition pool_insert_head :: "nat \<Rightarrow> pool \<Rightarrow> pool exec" where
  "pool_insert_head a P =
     bindE (SLIST_INSERT_HEAD a (pcells P, phead P)) (\<lambda>(h, head). Inr (P\<lparr>pcells := h, phead := head\<rparr>))"

fun create_loop :: "nat \<Rightarrow> pool \<Rightarrow> pool exec" where
  "create_loop 0 P = Inr P"
| "create_loop (Suc i) P =
     bindE (proc_alloc P) (\<lambda>(item, P). bindE (pool_insert_head item P) (create_loop i))"

definition create_proc_pool :: "pool \<Rightarrow> pool exec" where
  "create_proc_pool P = create_loop NPROC_MAX_NUM P"

text \<open>A loop over the pool whose body works on one record and local variables.\<close>

definition pool_foreach ::
  "(nat \<Rightarrow> processor_t \<Rightarrow> 'c \<Rightarrow> processor_t \<times> 'c \<times> bool) \<Rightarrow> 'c \<Rightarrow> pool \<Rightarrow> ('c \<times> pool) exec option" where
  "pool_foreach f c P =
     map_option (\<lambda>r. bindE r (\<lambda>(h, c). Inr (c, P\<lparr>pcells := h\<rparr>)))
       (SLIST_FOREACH heap_next (local_body f) (SLIST_FIRST (phead P)) (pcells P, c))"

definition insert_pool_obj :: "int \<Rightarrow> pool \<Rightarrow> pool exec option" where
  "insert_pool_obj p P =
     map_option (\<lambda>r. bindE r (\<lambda>(n, P). Inr (P\<lparr>phead := (phead P)\<lparr>n_proc := n\<rparr>\<rparr>)))
       (pool_foreach (\<lambda>a item n.
          if pid item = - 1 then (item\<lparr>pid := p\<rparr>, n + 1, True) else (item, n, False))
        (n_proc (phead P)) P)"

text \<open>
  \<open>delete_pool_obj\<close> unlinks and frees the first record with the pid; the loop
  state is the heap, the head and the variable \<open>pre\<close>.
\<close>

definition delete_body ::
  "int \<Rightarrow> nat \<Rightarrow> processor_t heap \<times> slist_head \<times> nat \<Rightarrow>
   ((processor_t heap \<times> slist_head \<times> nat) \<times> bool) exec" where
  "delete_body p item = (\<lambda>(h, head, pre).
     bindE (load h item) (\<lambda>e.
     if pid (elm e) = p then
       if item = SLIST_FIRST head then
         Inr ((h(item := None), head\<lparr>slh_first := sle_next e\<rparr>, pre), True)
       else
         bindE (store_next h pre (sle_next e)) (\<lambda>h. Inr ((h(item := None), head, pre), True))
     else Inr ((h, head, item), False)))"

definition delete_next :: "processor_t heap \<times> slist_head \<times> nat \<Rightarrow> nat \<Rightarrow> nat exec" where
  "delete_next = (\<lambda>(h, head, pre) a. SLIST_NEXT h a)"

definition delete_pool_obj :: "int \<Rightarrow> pool \<Rightarrow> pool exec option" where
  "delete_pool_obj p P =
     map_option (\<lambda>r. bindE r (\<lambda>(h, head, pre).
         Inr (P\<lparr>pcells := h, phead := head\<lparr>n_proc := n_proc head - 1\<rparr>\<rparr>)))
       (SLIST_FOREACH delete_next (delete_body p) (SLIST_FIRST (phead P))
         (pcells P, phead P, SLIST_FIRST (phead P)))"

definition insert_pool :: "int \<Rightarrow> pool \<Rightarrow> pool exec" where
  "insert_pool p P =
     (if n_proc (phead P) < int NPROC_MAX_NUM then
        bindE (proc_alloc P) (\<lambda>(item, P).
        bindE (load (pcells P) item) (\<lambda>e.
        pool_insert_head item (P\<lparr>pcells := (pcells P)(item \<mapsto> e\<lparr>elm := (elm e)\<lparr>pid := p\<rparr>\<rparr>)\<rparr>)))
      else Inr P)"

text \<open>
  \<open>cross_ok\<close>: the condition \<open>item->pid=pid&&item->status==1\<close> assigns the truth
  value of \<open>pid && item->status == 1\<close> to \<open>item->pid\<close> and tests it.
\<close>

definition cross_ok :: "int \<Rightarrow> pool \<Rightarrow> (int \<times> pool) exec option" where
  "cross_ok p P =
     pool_foreach (\<lambda>a item r.
         let v = (if p \<noteq> 0 \<and> status item = 1 then 1 else 0) in
         if v \<noteq> 0 then (item\<lparr>pid := v\<rparr>, 0, True) else (item\<lparr>pid := v\<rparr>, r, False))
       (- 1) P"

text \<open>
  \<open>notice_child\<close>: the local variables are \<open>max\<close>, \<open>pid\<close> and \<open>pre\<close> (both
  uninitialised, \<open>None\<close>, before the loop).
\<close>

definition notice_child :: "pool \<Rightarrow> (int \<times> pool) exec option" where
  "notice_child P =
     (case load (pcells P) (SLIST_FIRST (phead P)) of
        Inl e \<Rightarrow> Some (Inl e)
      | Inr first \<Rightarrow>
          map_option (\<lambda>r. bindE r (\<lambda>((m, best), P).
              case best of
                None \<Rightarrow> Inl (Undef NullDeref)
              | Some (p, pre) \<Rightarrow>
                  bindE (load (pcells P) pre) (\<lambda>e.
                  Inr (p, P\<lparr>pcells := (pcells P)(pre \<mapsto>
                        e\<lparr>elm := (elm e)\<lparr>nleft := nleft (elm e) - 1\<rparr>\<rparr>)\<rparr>))))
            (pool_foreach (\<lambda>a item (m, best).
                if nleft item \<ge> m then (item, (nleft item, Some (pid item, a)), False)
                else (item, (m, best), False))
              (nleft (elm first), None) P))"

text \<open>\<open>tell_chld_exit\<close>: the result is the list of pids that are sent \<open>SIGINT\<close>.\<close>

definition tell_chld_exit :: "pool \<Rightarrow> (int list \<times> pool) exec option" where
  "tell_chld_exit P = pool_foreach (\<lambda>a item ks. (item, ks @ [pid item], False)) [] P"

definition set_status_ok :: "int \<Rightarrow> pool \<Rightarrow> (unit \<times> pool) exec option" where
  "set_status_ok p P =
     pool_foreach (\<lambda>a item c. (if pid item = p then item\<lparr>status := 1\<rparr> else item, c, False)) () P"

text \<open>
  \<open>fork\<close> returns to the parent with the pid of the child (or fails with a
  negative value) and to the child with 0; the child enters the worker loop.
\<close>

definition handler_dead_processor :: "int \<Rightarrow> int \<Rightarrow> pool \<Rightarrow> pool exec option" where
  "handler_dead_processor p fork_ret P =
     map_option (\<lambda>r. bindE r (\<lambda>P.
         if fork_ret < 0 then Inl (Exited 0)
         else if fork_ret = 0 then Inl WorkerLoop
         else insert_pool fork_ret P))
       (delete_pool_obj p P)"

fun manager_loop :: "int list \<Rightarrow> pool \<Rightarrow> pool exec option" where
  "manager_loop [] P = Some (Inr P)"
| "manager_loop (fork_ret # forks) P =
     (if fork_ret < 0 then Some (Inl (Exited 0))
      else if fork_ret = 0 then Some (Inl WorkerLoop)
      else case insert_pool_obj fork_ret P of
        None \<Rightarrow> None
      | Some (Inl e) \<Rightarrow> Some (Inl e)
      | Some (Inr P) \<Rightarrow> manager_loop forks P)"

text \<open>\<open>init_manager_proc\<close> with the results of its \<open>NPROC_MAX_NUM\<close> calls of \<open>fork\<close>.\<close>

definition init_manager_proc :: "int list \<Rightarrow> pool \<Rightarrow> pool exec option" where
  "init_manager_proc forks P =
     (case create_proc_pool P of
        Inl e \<Rightarrow> Some (Inl e)
      | Inr P \<Rightarrow> manager_loop (take NPROC_MAX_NUM forks) P)"

section \<open>The pool as a list\<close>

definition heap_ok :: "pool \<Rightarrow> bool" where
  "heap_ok P \<longleftrightarrow> 0 < pbrk P \<and> (\<forall>a\<in>dom (pcells P). 0 < a \<and> a < pbrk P)"

definition pool_at :: "pool \<Rightarrow> nat list \<Rightarrow> processor_t list \<Rightarrow> bool" where
  "pool_at P as ps \<longleftrightarrow> heap_ok P \<and> seg (pcells P) (slh_first (phead P)) as 0 \<and> elems (pcells P) as = ps"

definition pool_rel :: "pool \<Rightarrow> processor_t list \<Rightarrow> bool" where
  "pool_rel P ps \<longleftrightarrow> (\<exists>as. pool_at P as ps)"

abbreviation procs :: "pool \<Rightarrow> int" where
  "procs P \<equiv> n_proc (phead P)"

lemma pool_foreach_scan:
  assumes "pool_at P as ps"
  shows "\<exists>P'. pool_foreach f c P = Some (Inr (snd (scan f as ps c), P')) \<and>
    pool_at P' as (fst (scan f as ps c)) \<and> phead P' = phead P \<and> pbrk P' = pbrk P \<and> pavail P' = pavail P"
proof -
  from assms have ok: "heap_ok P" "seg (pcells P) (slh_first (phead P)) as 0"
    and ps: "elems (pcells P) as = ps" by (auto simp: pool_at_def)
  from foreach_scan [OF ok(2), of f c] obtain h' where h':
    "SLIST_FOREACH heap_next (local_body f) (slh_first (phead P)) (pcells P, c)
      = Some (Inr (h', snd (scan f as ps c)))"
    "seg h' (slh_first (phead P)) as 0" "elems h' as = fst (scan f as ps c)" "dom h' = dom (pcells P)"
    unfolding ps by blast
  then have "pool_foreach f c P = Some (Inr (snd (scan f as ps c), P\<lparr>pcells := h'\<rparr>))"
    by (simp add: pool_foreach_def SLIST_FIRST_def)
  with h' ok show ?thesis by (auto simp: pool_at_def heap_ok_def)
qed

section \<open>Each operation on the list\<close>

definition fresh_proc :: "int \<Rightarrow> processor_t" where
  "fresh_proc p = \<lparr>pid = p, nleft = MAX_FD_NUM, status = 0\<rparr>"

fun fill_slot :: "int \<Rightarrow> processor_t list \<Rightarrow> processor_t list" where
  "fill_slot p [] = []"
| "fill_slot p (x # xs) = (if pid x = - 1 then x\<lparr>pid := p\<rparr> # xs else x # fill_slot p xs)"

fun drop_pid :: "int \<Rightarrow> processor_t list \<Rightarrow> processor_t list" where
  "drop_pid p [] = []"
| "drop_pid p (x # xs) = (if pid x = p then xs else x # drop_pid p xs)"

lemma pool_insert_head_at:
  assumes "pool_at P as ps" and "a \<in> dom (pcells P)" and "a \<notin> set as"
  shows "\<exists>P'. pool_insert_head a P = Inr P' \<and> pool_at P' (a # as) (elm (the (pcells P a)) # ps) \<and>
    procs P' = procs P \<and> pbrk P' = pbrk P \<and> pavail P' = pavail P"
proof -
  let ?s = "(pcells P, phead P)"
  from assms(1,2) have ok: "heap_ok P" "slist_rel ?s as" "elems (pcells P) as = ps" "a \<noteq> 0"
    "slist_payload ?s a \<noteq> None" "set (a # as) \<subseteq> dom (pcells P)"
    by (auto simp: pool_at_def slist_rel_def heap_ok_def slist_payload_def dest: seg_nonnull)
  from slist.insert_head_law [OF ok(2,4,5) assms(3)] obtain h head where
    s: "SLIST_INSERT_HEAD a ?s = Inr (h, head)" "slist_rel (h, head) (a # as)"
      "slist_payload (h, head) = slist_payload ?s" by fastforce
  have "elems h (a # as) = elems (pcells P) (a # as)" "dom h = dom (pcells P)" "n_proc head = procs P"
    using elems_payload [OF s(3) [symmetric] ok(6)] dom_payload [OF s(3) [symmetric]]
      SLIST_INSERT_HEAD_n_proc [OF s(1)] by auto
  with s ok show ?thesis
    by (auto simp: pool_insert_head_def pool_at_def heap_ok_def slist_rel_def)
qed

lemma proc_alloc_at:
  assumes "pool_at P as ps" and "0 < pavail P"
  shows "\<exists>P'. proc_alloc P = Inr (pbrk P, P') \<and> pool_at P' as ps \<and> pbrk P \<notin> set as \<and>
    pbrk P \<in> dom (pcells P') \<and> elm (the (pcells P' (pbrk P))) = fresh_proc (- 1) \<and>
    procs P' = procs P \<and> pavail P' = pavail P - 1"
proof -
  have new: "pbrk P \<notin> set as"
    using assms(1) by (auto simp: pool_at_def heap_ok_def dest!: seg_nonnull)
  with assms show ?thesis
    by (fastforce simp: proc_alloc_def pool_at_def heap_ok_def fresh_proc_def intro: less_SucI)
qed

lemma create_loop_rel:
  "pool_rel P ps \<Longrightarrow> n \<le> pavail P \<Longrightarrow>
   \<exists>P'. create_loop n P = Inr P' \<and> pool_rel P' (replicate n (fresh_proc (- 1)) @ ps) \<and>
     procs P' = procs P \<and> pavail P' = pavail P - n"
proof (induction n arbitrary: P ps)
  case 0
  then show ?case by simp
next
  case (Suc n)
  then obtain as where as: "pool_at P as ps" by (auto simp: pool_rel_def)
  with Suc.prems proc_alloc_at obtain P1 where P1: "proc_alloc P = Inr (pbrk P, P1)"
    "pool_at P1 as ps" "pbrk P \<notin> set as" "pbrk P \<in> dom (pcells P1)"
    "elm (the (pcells P1 (pbrk P))) = fresh_proc (- 1)" "procs P1 = procs P" "pavail P1 = pavail P - 1"
    by (metis zero_less_Suc less_le_trans)
  from pool_insert_head_at [OF P1(2,4,3)] P1 obtain P2 where P2: "pool_insert_head (pbrk P) P1 = Inr P2"
    "pool_rel P2 (fresh_proc (- 1) # ps)" "procs P2 = procs P" "pavail P2 = pavail P - 1"
    by (auto simp: pool_rel_def)
  from Suc.IH [OF P2(2)] Suc.prems P1 P2 show ?case
    by (auto simp: replicate_app_Cons_same)
qed

lemma scan_insert:
  "length as = length ps \<Longrightarrow>
   scan (\<lambda>a item n. if pid item = - 1 then (item\<lparr>pid := p\<rparr>, n + 1, True) else (item, n, False)) as ps n
   = (fill_slot p ps, if \<exists>x\<in>set ps. pid x = - 1 then n + 1 else (n::int))"
  by (induction as ps arbitrary: n rule: list_induct2) auto

lemma insert_pool_obj_rel:
  assumes "pool_rel P ps"
  shows "\<exists>P'. insert_pool_obj p P = Some (Inr P') \<and> pool_rel P' (fill_slot p ps) \<and>
    procs P' = (if \<exists>x\<in>set ps. pid x = - 1 then procs P + 1 else procs P)"
proof -
  from assms obtain as where as: "pool_at P as ps" by (auto simp: pool_rel_def)
  then have len: "length as = length ps" by (auto simp: pool_at_def)
  from pool_foreach_scan [OF as] show ?thesis
    by (fastforce simp: insert_pool_obj_def scan_insert [OF len] pool_rel_def pool_at_def heap_ok_def)
qed

lemma delete_unlink:
  assumes "seg h p (ws @ c # a # vs) 0"
  shows "\<exists>ec ea. h c = Some ec \<and> h a = Some ea \<and>
    store_next h c (sle_next ea) = Inr (h(c \<mapsto> ec\<lparr>sle_next := sle_next ea\<rparr>)) \<and>
    seg (h(c \<mapsto> ec\<lparr>sle_next := sle_next ea\<rparr>, a := None)) p (ws @ c # vs) 0 \<and>
    elems (h(c \<mapsto> ec\<lparr>sle_next := sle_next ea\<rparr>, a := None)) (ws @ c # vs) = elems h (ws @ c # vs)"
proof -
  have "distinct (ws @ c # a # vs)" using assms by (rule seg_distinct)
  with assms show ?thesis by (auto simp: store_next_ok)
qed

lemma delete_loop:
  assumes "seg h (slh_first head) (us @ vs) 0" and "\<forall>x\<in>set (elems h us). pid x \<noteq> p"
  shows "\<exists>h' head' pre' as'. SLIST_FOREACH delete_next (delete_body p) (if vs = [] then 0 else vs ! 0)
      (h, head, if us = [] then slh_first head else last us) = Some (Inr (h', head', pre')) \<and>
    seg h' (slh_first head') as' 0 \<and> elems h' as' = elems h us @ drop_pid p (elems h vs) \<and>
    n_proc head' = n_proc head \<and> dom h' \<subseteq> dom h"
  using assms
proof (induction vs arbitrary: us)
  case Nil
  then show ?case by (auto simp: SLIST_FOREACH.simps)
next
  case (Cons a vs)
  let ?pre = "if us = [] then slh_first head else last us"
  from Cons.prems obtain e where e: "h a = Some e" "a \<noteq> 0" "seg h (slh_first head) us a"
    "seg h (sle_next e) vs 0" by auto
  have d: "distinct (us @ a # vs)" using Cons.prems(1) by (rule seg_distinct)
  have first: "a = slh_first head \<longleftrightarrow> us = []"
    using e(3) d by (cases us) auto
  have nxt: "sle_next e = (if vs = [] then 0 else vs ! 0)"
    using e(4) by (cases vs) auto
  note unf = SLIST_FOREACH.simps [of _ _ a] delete_body_def load_def SLIST_FIRST_def
  show ?case
  proof (cases "pid (elm e) = p")
    case False
    have "SLIST_FOREACH delete_next (delete_body p) a (h, head, ?pre)
        = SLIST_FOREACH delete_next (delete_body p) (sle_next e) (h, head, a)"
      using e False by (simp add: unf delete_next_def SLIST_NEXT_ok)
    with Cons.IH [of "us @ [a]"] Cons.prems e False nxt show ?thesis by (simp add: ball_Un)
  next
    case match: True
    show ?thesis
    proof (cases us rule: rev_cases)
      case Nil
      with e match first d show ?thesis
        by (auto simp: unf intro!: exI [of _ vs])
    next
      case (snoc ws c)
      from Cons.prems(1) snoc delete_unlink [of h "slh_first head" ws c a vs] obtain ec ea where
        u: "h c = Some ec" "h a = Some ea"
        "store_next h c (sle_next ea) = Inr (h(c \<mapsto> ec\<lparr>sle_next := sle_next ea\<rparr>))"
        "seg (h(c \<mapsto> ec\<lparr>sle_next := sle_next ea\<rparr>, a := None)) (slh_first head) (ws @ c # vs) 0"
        "elems (h(c \<mapsto> ec\<lparr>sle_next := sle_next ea\<rparr>, a := None)) (ws @ c # vs) = elems h (ws @ c # vs)"
        by auto
      have "SLIST_FOREACH delete_next (delete_body p) a (h, head, ?pre)
          = Some (Inr (h(c \<mapsto> ec\<lparr>sle_next := sle_next ea\<rparr>, a := None), head, c))"
        using e match u first snoc by (simp add: unf)
      moreover have "dom (h(c \<mapsto> ec\<lparr>sle_next := sle_next ea\<rparr>, a := None)) \<subseteq> dom h"
        using u by auto
      ultimately show ?thesis
        using u(4,5) e match snoc by (auto intro!: exI [of _ "ws @ c # vs"] simp del: seg_append)
    qed
  qed
qed

lemma delete_pool_obj_rel:
  assumes "pool_rel P ps"
  shows "\<exists>P'. delete_pool_obj p P = Some (Inr P') \<and> pool_rel P' (drop_pid p ps) \<and>
    procs P' = procs P - 1 \<and> pbrk P' = pbrk P \<and> pavail P' = pavail P"
proof -
  from assms obtain as where as: "heap_ok P" "seg (pcells P) (slh_first (phead P)) as 0"
    "elems (pcells P) as = ps" by (auto simp: pool_rel_def pool_at_def)
  have var: "(if as = [] then 0 else as ! 0) = slh_first (phead P)"
    using as(2) by (cases as) auto
  from delete_loop [of "pcells P" "phead P" "[]" as p] as var obtain h head pre as' where
    "SLIST_FOREACH delete_next (delete_body p) (slh_first (phead P)) (pcells P, phead P, slh_first (phead P))
      = Some (Inr (h, head, pre))" "seg h (slh_first head) as' 0" "elems h as' = drop_pid p ps"
    "n_proc head = procs P" "dom h \<subseteq> dom (pcells P)" by auto
  with as(1) show ?thesis
    by (auto simp: delete_pool_obj_def SLIST_FIRST_def pool_rel_def pool_at_def heap_ok_def)
qed

lemma insert_pool_rel:
  assumes "pool_rel P ps" and "procs P < int NPROC_MAX_NUM" and "0 < pavail P"
  shows "\<exists>P'. insert_pool p P = Inr P' \<and> pool_rel P' (fresh_proc p # ps) \<and>
    procs P' = procs P \<and> pavail P' = pavail P - 1"
proof -
  from assms(1) obtain as where as: "pool_at P as ps" by (auto simp: pool_rel_def)
  from proc_alloc_at [OF as assms(3)] obtain P1 where P1: "proc_alloc P = Inr (pbrk P, P1)"
    "pool_at P1 as ps" "pbrk P \<notin> set as" "pbrk P \<in> dom (pcells P1)"
    "elm (the (pcells P1 (pbrk P))) = fresh_proc (- 1)" "procs P1 = procs P" "pavail P1 = pavail P - 1"
    by blast
  then obtain e where e: "pcells P1 (pbrk P) = Some e" "elm e = fresh_proc (- 1)" by auto
  let ?P = "P1\<lparr>pcells := (pcells P1)(pbrk P \<mapsto> e\<lparr>elm := (elm e)\<lparr>pid := p\<rparr>\<rparr>)\<rparr>"
  have at: "pool_at ?P as ps" using P1(2,3) e by (auto simp: pool_at_def heap_ok_def seg_elm_upd)
  from pool_insert_head_at [OF at, of "pbrk P"] P1 e show ?thesis
    using assms(2) by (auto simp: insert_pool_def load_def pool_rel_def fresh_proc_def)
qed

lemma insert_pool_full: "\<not> procs P < int NPROC_MAX_NUM \<Longrightarrow> insert_pool p P = Inr P"
  by (simp add: insert_pool_def)

lemma handler_dead_rel:
  assumes "pool_rel P ps" and "procs P \<le> int NPROC_MAX_NUM" and "0 < pavail P" and "0 < f"
  shows "\<exists>P'. handler_dead_processor p f P = Some (Inr P') \<and>
    pool_rel P' (fresh_proc f # drop_pid p ps) \<and> procs P' = procs P - 1 \<and> pavail P' = pavail P - 1"
proof -
  obtain P1 where P1: "delete_pool_obj p P = Some (Inr P1)" "pool_rel P1 (drop_pid p ps)"
    "procs P1 = procs P - 1" "pavail P1 = pavail P"
    using delete_pool_obj_rel [OF assms(1)] by blast
  with insert_pool_rel [of P1 "drop_pid p ps" f] assms show ?thesis
    by (auto simp: handler_dead_processor_def)
qed

lemma manager_loop_rel:
  "pool_rel P (map fresh_proc done @ replicate (length forks) (fresh_proc (- 1))) \<Longrightarrow>
   (\<forall>f\<in>set forks. 0 < f) \<Longrightarrow> (\<forall>f\<in>set done. 0 < f) \<Longrightarrow>
   \<exists>P'. manager_loop forks P = Some (Inr P') \<and> pool_rel P' (map fresh_proc (done @ forks)) \<and>
     procs P' = procs P + int (length forks)"
proof (induction forks arbitrary: P "done")
  case Nil
  then show ?case by simp
next
  case (Cons f forks)
  let ?ps = "map fresh_proc done @ replicate (length (f # forks)) (fresh_proc (- 1))"
  have pos: "- 1 \<noteq> x" if "x \<in> set done" for x using Cons.prems(3) that by force
  have "fill_slot f ?ps = map fresh_proc (done @ [f]) @ replicate (length forks) (fresh_proc (- 1))"
    using pos by (induction "done") (auto simp: fresh_proc_def)
  moreover have "\<exists>x\<in>set ?ps. pid x = - 1" by (auto simp: fresh_proc_def)
  ultimately obtain P1 where "insert_pool_obj f P = Some (Inr P1)"
    "pool_rel P1 (map fresh_proc (done @ [f]) @ replicate (length forks) (fresh_proc (- 1)))"
    "procs P1 = procs P + 1"
    using insert_pool_obj_rel [OF Cons.prems(1), of f] by auto
  with Cons.IH [of P1 "done @ [f]"] Cons.prems show ?case by auto
qed

lemma init_pool_rel: "pool_rel (init_pool n) []"
  by (auto simp: pool_rel_def pool_at_def heap_ok_def init_pool_def SLIST_HEAD_INITIALIZER_def)

lemma init_manager_rel:
  assumes "NPROC_MAX_NUM \<le> n" and "length forks = NPROC_MAX_NUM" and "\<forall>f\<in>set forks. 0 < f"
  shows "\<exists>P. init_manager_proc forks (init_pool n) = Some (Inr P) \<and>
    pool_rel P (map fresh_proc forks) \<and> procs P = int NPROC_MAX_NUM"
proof -
  obtain P where P: "create_proc_pool (init_pool n) = Inr P"
    "pool_rel P (replicate NPROC_MAX_NUM (fresh_proc (- 1)))" "procs P = 0"
    using create_loop_rel [OF init_pool_rel [of n], of NPROC_MAX_NUM] assms(1)
    by (auto simp: create_proc_pool_def init_pool_def SLIST_HEAD_INITIALIZER_def)
  with manager_loop_rel [of P "[]" forks] assms show ?thesis
    by (auto simp: init_manager_proc_def)
qed

section \<open>Choosing a worker\<close>

abbreviation notice_scan ::
  "nat \<Rightarrow> processor_t \<Rightarrow> int \<times> (int \<times> nat) option \<Rightarrow> processor_t \<times> (int \<times> (int \<times> nat) option) \<times> bool" where
  "notice_scan \<equiv> (\<lambda>a item (m, best).
     if nleft item \<ge> m then (item, (nleft item, Some (pid item, a)), False)
     else (item, (m, best), False))"

definition last_best :: "processor_t list \<Rightarrow> int \<Rightarrow> nat \<Rightarrow> bool" where
  "last_best ps m k \<longleftrightarrow> k < length ps \<and> nleft (ps ! k) = m \<and> (\<forall>x\<in>set ps. nleft x \<le> m) \<and>
     (\<forall>j<length ps. k < j \<longrightarrow> nleft (ps ! j) < m)"

lemma notice_scan_result:
  "length as = length ps \<Longrightarrow>
   \<exists>m' b'. scan notice_scan as ps (m, b) = (ps, (m', b')) \<and>
     (b' = b \<and> m' = m \<and> (\<forall>x\<in>set ps. nleft x < m) \<or>
      (\<exists>k. last_best ps m' k \<and> m \<le> m' \<and> b' = Some (pid (ps ! k), as ! k)))"
proof (induction as ps arbitrary: m b rule: list_induct2)
  case Nil
  then show ?case by simp
next
  case (Cons a as x ps)
  show ?case
  proof (cases "m \<le> nleft x")
    case True
    from Cons.IH [of "nleft x" "Some (pid x, a)"] obtain m' b' where
      s: "scan notice_scan as ps (nleft x, Some (pid x, a)) = (ps, (m', b'))" and
      r: "b' = Some (pid x, a) \<and> m' = nleft x \<and> (\<forall>x'\<in>set ps. nleft x' < nleft x) \<or>
        (\<exists>k. last_best ps m' k \<and> nleft x \<le> m' \<and> b' = Some (pid (ps ! k), as ! k))" by blast
    from r have "\<exists>k. last_best (x # ps) m' k \<and> m \<le> m' \<and> b' = Some (pid ((x # ps) ! k), (a # as) ! k)"
    proof
      assume "b' = Some (pid x, a) \<and> m' = nleft x \<and> (\<forall>x'\<in>set ps. nleft x' < nleft x)"
      with True show ?thesis
        by (intro exI [of _ 0]) (auto simp: last_best_def less_imp_le gr0_conv_Suc)
    next
      assume "\<exists>k. last_best ps m' k \<and> nleft x \<le> m' \<and> b' = Some (pid (ps ! k), as ! k)"
      then obtain k where "last_best ps m' k" "nleft x \<le> m'" "b' = Some (pid (ps ! k), as ! k)" by blast
      with True show ?thesis
        by (intro exI [of _ "Suc k"]) (auto simp: last_best_def nth_Cons')
    qed
    with s True show ?thesis by auto
  next
    case False
    from Cons.IH [of m b] obtain m' b' where
      s: "scan notice_scan as ps (m, b) = (ps, (m', b'))" and
      r: "b' = b \<and> m' = m \<and> (\<forall>x'\<in>set ps. nleft x' < m) \<or>
        (\<exists>k. last_best ps m' k \<and> m \<le> m' \<and> b' = Some (pid (ps ! k), as ! k))" by blast
    have "last_best (x # ps) m' (Suc k)" if "last_best ps m' k" "m \<le> m'" for k
      using that False by (auto simp: last_best_def nth_Cons')
    with r s False show ?thesis by fastforce
  qed
qed

lemma notice_child_rel:
  assumes "pool_rel P ps" and "ps \<noteq> []"
  shows "\<exists>P' k. notice_child P = Some (Inr (pid (ps ! k), P')) \<and> last_best ps (nleft (ps ! k)) k \<and>
    pool_rel P' (ps[k := (ps ! k)\<lparr>nleft := nleft (ps ! k) - 1\<rparr>]) \<and> procs P' = procs P"
proof -
  from assms(1) obtain as where at: "pool_at P as ps" by (auto simp: pool_rel_def)
  then have seg: "seg (pcells P) (slh_first (phead P)) as 0" and ps: "elems (pcells P) as = ps"
    and len: "length as = length ps" by (auto simp: pool_at_def)
  from assms(2) len seg ps obtain e where
    e: "load (pcells P) (slh_first (phead P)) = Inr e" "elm e = ps ! 0"
    by (cases as) (auto simp: load_def)
  from notice_scan_result [OF len, of "nleft (ps ! 0)" None] obtain m b where
    s: "scan notice_scan as ps (nleft (ps ! 0), None) = (ps, (m, b))" and
    r: "b = None \<and> m = nleft (ps ! 0) \<and> (\<forall>x\<in>set ps. nleft x < nleft (ps ! 0)) \<or>
       (\<exists>k. last_best ps m k \<and> nleft (ps ! 0) \<le> m \<and> b = Some (pid (ps ! k), as ! k))" by blast
  from r assms(2) obtain k where k: "last_best ps m k" "b = Some (pid (ps ! k), as ! k)"
    by (metis length_greater_0_conv less_irrefl nth_mem)
  from k(1) have kl: "k < length as" "nleft (ps ! k) = m" using len by (auto simp: last_best_def)
  from pool_foreach_scan [OF at, of notice_scan "(nleft (ps ! 0), None)"] s obtain P1 where
    P1: "pool_foreach notice_scan (nleft (ps ! 0), None) P = Some (Inr ((m, b), P1))"
      "pool_at P1 as ps" "phead P1 = phead P" by auto
  from P1(2) kl(1) obtain ek where ek: "pcells P1 (as ! k) = Some ek"
    by (auto simp: pool_at_def dest!: seg_nonnull [OF _ nth_mem])
  have elm: "elm ek = ps ! k"
    using P1(2) kl(1) ek by (auto simp: pool_at_def elems_def)
  let ?P = "P1\<lparr>pcells := (pcells P1)(as ! k \<mapsto> ek\<lparr>elm := (elm ek)\<lparr>nleft := nleft (elm ek) - 1\<rparr>\<rparr>)\<rparr>"
  have "notice_child P = Some (Inr (pid (ps ! k), ?P))"
    using e P1(1) k(2) ek by (simp add: notice_child_def SLIST_FIRST_def load_def)
  moreover have "pool_at ?P as (ps[k := (ps ! k)\<lparr>nleft := nleft (ps ! k) - 1\<rparr>])"
    using P1(2) ek kl(1) elm seg_distinct [of "pcells P1" _ as]
    by (auto simp: pool_at_def heap_ok_def seg_elm_upd elems_elm_upd)
  ultimately show ?thesis using k(1) kl P1(3) by (auto simp: pool_rel_def)
qed

section \<open>The other loops\<close>

lemma set_status_rel:
  assumes "pool_rel P ps"
  shows "\<exists>P'. set_status_ok p P = Some (Inr ((), P')) \<and> procs P' = procs P \<and>
    pool_rel P' (map (\<lambda>x. if pid x = p then x\<lparr>status := 1\<rparr> else x) ps)"
proof -
  let ?f = "\<lambda>(a::nat) item (c::unit). (if pid item = p then item\<lparr>status := 1\<rparr> else item, c, False)"
  from assms obtain as where at: "pool_at P as ps" and len: "length as = length ps"
    by (auto simp: pool_rel_def pool_at_def)
  have "scan ?f as ps () = (map (\<lambda>x. if pid x = p then x\<lparr>status := 1\<rparr> else x) ps, ())"
    using len by (induction as ps rule: list_induct2) auto
  with pool_foreach_scan [OF at, of ?f "()"] show ?thesis
    by (auto simp: set_status_ok_def pool_rel_def)
qed

lemma tell_chld_rel:
  assumes "pool_rel P ps"
  shows "\<exists>P'. tell_chld_exit P = Some (Inr (map pid ps, P')) \<and> pool_rel P' ps \<and> procs P' = procs P"
proof -
  let ?f = "\<lambda>(a::nat) item ks. (item, ks @ [pid item], False)"
  from assms obtain as where at: "pool_at P as ps" and len: "length as = length ps"
    by (auto simp: pool_rel_def pool_at_def)
  have "scan ?f as ps ks = (ps, ks @ map pid ps)" for ks
    using len by (induction as ps arbitrary: ks rule: list_induct2) auto
  with pool_foreach_scan [OF at, of ?f "[]"] show ?thesis
    by (auto simp: tell_chld_exit_def pool_rel_def)
qed

text \<open>What \<open>cross_ok\<close> leaves behind: every record it visits loses its pid.\<close>

fun clobber :: "processor_t list \<Rightarrow> processor_t list" where
  "clobber [] = []"
| "clobber (x # xs) = (if status x = 1 then x\<lparr>pid := 1\<rparr> # xs else x\<lparr>pid := 0\<rparr> # clobber xs)"

lemma cross_ok_rel:
  assumes "pool_rel P ps" and "p \<noteq> 0"
  shows "\<exists>P'. cross_ok p P = Some (Inr (if \<exists>x\<in>set ps. status x = 1 then 0 else - 1, P')) \<and>
    pool_rel P' (clobber ps) \<and> procs P' = procs P"
proof -
  let ?f = "\<lambda>(a::nat) item (r::int).
    let v = (if p \<noteq> 0 \<and> status item = 1 then 1 else 0) in
    if v \<noteq> 0 then (item\<lparr>pid := v\<rparr>, 0, True) else (item\<lparr>pid := v\<rparr>, r, False)"
  from assms obtain as where at: "pool_at P as ps" and len: "length as = length ps"
    by (auto simp: pool_rel_def pool_at_def)
  have "scan ?f as ps r = (clobber ps, if \<exists>x\<in>set ps. status x = 1 then 0 else r)" for r
    using len assms(2) by (induction as ps rule: list_induct2) auto
  with pool_foreach_scan [OF at, of ?f "- 1"] show ?thesis
    by (auto simp: cross_ok_def pool_rel_def)
qed

section \<open>Reachable pools\<close>

text \<open>
  The life of the master's pool: it is set up by \<open>init_manager_proc\<close>; then
  children of the pool die and are replaced, a worker is chosen, a status is
  recorded.
\<close>

inductive reachable_pool :: "pool \<Rightarrow> bool" where
  start: "length forks = NPROC_MAX_NUM \<Longrightarrow> init_manager_proc forks (init_pool n) = Some (Inr P) \<Longrightarrow>
    reachable_pool P"
| death: "reachable_pool P \<Longrightarrow> pool_rel P ps \<Longrightarrow> p \<in> pid ` set ps \<Longrightarrow>
    handler_dead_processor p f P = Some (Inr P') \<Longrightarrow> reachable_pool P'"
| choose: "reachable_pool P \<Longrightarrow> notice_child P = Some (Inr (p, P')) \<Longrightarrow> reachable_pool P'"
| ready: "reachable_pool P \<Longrightarrow> set_status_ok p P = Some (Inr ((), P')) \<Longrightarrow> reachable_pool P'"

inductive_cases reachable_poolE: "reachable_pool P"

lemma create_loop_avail: "create_loop n P = Inr P' \<Longrightarrow> n \<le> pavail P"
proof (induction n arbitrary: P)
  case (Suc n)
  then obtain item P1 P2 where "proc_alloc P = Inr (item, P1)" "pool_insert_head item P1 = Inr P2"
    "create_loop n P2 = Inr P'" by (auto simp: bindE_eq_Inr)
  moreover from this have "pavail P2 = pavail P - 1" "pavail P \<noteq> 0"
    by (auto simp: proc_alloc_def pool_insert_head_def bindE_eq_Inr split: if_splits)
  ultimately show ?case using Suc.IH [of P2] by simp
qed simp

lemma manager_loop_pos: "manager_loop forks P = Some (Inr P') \<Longrightarrow> \<forall>f\<in>set forks. 0 < f"
  by (induction forks P rule: manager_loop.induct)
    (auto split: if_splits option.splits sum.splits)

lemma handler_dead_Inr:
  assumes "handler_dead_processor p f P = Some (Inr P')" and "pool_rel P ps"
    and "procs P \<le> int NPROC_MAX_NUM"
  shows "0 < f \<and> 0 < pavail P"
proof -
  obtain P1 where P1: "delete_pool_obj p P = Some (Inr P1)" "procs P1 = procs P - 1" "pavail P1 = pavail P"
    using delete_pool_obj_rel [OF assms(2)] by blast
  with assms(1) have f: "0 < f" "insert_pool f P1 = Inr P'"
    by (auto simp: handler_dead_processor_def split: if_splits)
  from f(2) P1 assms(3) have "pavail P1 \<noteq> 0"
    by (auto simp: insert_pool_def proc_alloc_def split: if_splits)
  with f P1 show ?thesis by simp
qed

lemma drop_pid_length: "p \<in> pid ` set ps \<Longrightarrow> length (drop_pid p ps) = length ps - 1"
proof (induction ps)
  case (Cons x xs)
  then show ?case by (cases xs) auto
qed simp

lemma drop_pid_subset: "set (drop_pid p ps) \<subseteq> set ps"
  by (induction ps) auto

definition pool_inv :: "pool \<Rightarrow> processor_t list \<Rightarrow> bool" where
  "pool_inv P ps \<longleftrightarrow> pool_rel P ps \<and> length ps = NPROC_MAX_NUM \<and> procs P \<le> int NPROC_MAX_NUM \<and>
     (\<forall>x\<in>set ps. nleft x \<le> MAX_FD_NUM \<and> 0 < pid x)"

lemma pool_rel_unique: "pool_rel P ps \<Longrightarrow> pool_rel P qs \<Longrightarrow> ps = qs"
  by (auto simp: pool_rel_def pool_at_def dest: seg_unique)

lemma pool_inv_start:
  assumes "length forks = NPROC_MAX_NUM" and "init_manager_proc forks (init_pool n) = Some (Inr P)"
  shows "pool_inv P (map fresh_proc forks)"
proof -
  from assms have "NPROC_MAX_NUM \<le> n" "\<forall>f\<in>set forks. 0 < f"
    by (auto simp: init_manager_proc_def create_proc_pool_def init_pool_def
        dest!: create_loop_avail manager_loop_pos split: sum.splits)
  with init_manager_rel [of n forks] assms show ?thesis
    by (auto simp: pool_inv_def fresh_proc_def)
qed

lemma pool_inv_death:
  assumes "pool_inv P ps" and "p \<in> pid ` set ps" and "handler_dead_processor p f P = Some (Inr P')"
  shows "pool_inv P' (fresh_proc f # drop_pid p ps)"
proof -
  from assms(1) have inv: "pool_rel P ps" "procs P \<le> int NPROC_MAX_NUM" by (auto simp: pool_inv_def)
  from handler_dead_Inr [OF assms(3) inv] handler_dead_rel [OF inv, of f p] assms(3)
  have "pool_rel P' (fresh_proc f # drop_pid p ps)" "procs P' = procs P - 1" "0 < f" by auto
  then show ?thesis
    using assms(1) drop_pid_length [OF assms(2)] drop_pid_subset [of p ps]
    by (auto simp: pool_inv_def fresh_proc_def NPROC_MAX_NUM_def)
qed

lemma reachable_pool_inv: "reachable_pool P \<Longrightarrow> \<exists>ps. pool_inv P ps"
proof (induction rule: reachable_pool.induct)
  case (start forks n P)
  then show ?case using pool_inv_start by blast
next
  case (death P ps p f P')
  then obtain qs where "pool_inv P qs" by blast
  with death.hyps(2) have "pool_inv P ps" by (metis pool_inv_def pool_rel_unique)
  with death show ?case using pool_inv_death by blast
next
  case (choose P p P')
  then obtain ps where ps: "pool_inv P ps" by blast
  then have "pool_rel P ps" "ps \<noteq> []" by (auto simp: pool_inv_def NPROC_MAX_NUM_def)
  from notice_child_rel [OF this] choose.hyps(2) obtain k where
    "last_best ps (nleft (ps ! k)) k" "procs P' = procs P"
    "pool_rel P' (ps[k := (ps ! k)\<lparr>nleft := nleft (ps ! k) - 1\<rparr>])" by auto
  moreover from this ps have "nleft (ps ! k) \<le> MAX_FD_NUM" "0 < pid (ps ! k)"
    by (simp_all add: pool_inv_def last_best_def)
  ultimately show ?case using ps
    by (auto simp: pool_inv_def dest!: set_update_subset_insert [THEN subsetD] intro!: exI)
next
  case (ready P p P')
  then obtain ps where ps: "pool_inv P ps" by blast
  with set_status_rel [of P ps p] ready.hyps(2) have
    "pool_rel P' (map (\<lambda>x. if pid x = p then x\<lparr>status := 1\<rparr> else x) ps)" "procs P' = procs P"
    by (auto simp: pool_inv_def)
  with ps show ?case by (auto simp: pool_inv_def intro!: exI)
qed

section \<open>Properties\<close>

text \<open>
  Setting up the pool: with ten successful forks (and memory for ten
  records) \<open>init_manager_proc\<close> returns a list of ten records that carry the
  pids of the children in the order of their creation, and \<open>n_proc\<close> is ten.
\<close>

theorem init_manager_proc_correct:
  assumes "NPROC_MAX_NUM \<le> n" and "length forks = NPROC_MAX_NUM" and "\<forall>f\<in>set forks. 0 < f"
  shows "\<exists>P. init_manager_proc forks (init_pool n) = Some (Inr P) \<and>
    pool_rel P (map fresh_proc forks) \<and> procs P = int NPROC_MAX_NUM"
  using assms by (rule init_manager_rel)

definition ten_pids :: "int list" where
  "ten_pids = [101, 102, 103, 104, 105, 106, 107, 108, 109, 110]"

theorem init_manager_proc_correct_witness:
  "\<exists>P. init_manager_proc ten_pids (init_pool 10) = Some (Inr P) \<and>
    pool_rel P (map fresh_proc ten_pids) \<and> procs P = 10"
  using init_manager_proc_correct [of 10 ten_pids] by (simp add: ten_pids_def NPROC_MAX_NUM_def)

lemma ten_pool:
  "\<exists>P. init_manager_proc ten_pids (init_pool 20) = Some (Inr P) \<and>
    pool_rel P (map fresh_proc ten_pids) \<and> procs P = 10"
  using init_manager_rel [of 20 ten_pids] by (simp add: ten_pids_def NPROC_MAX_NUM_def)

text \<open>
  C21. Choosing a worker: on a non-empty pool \<open>notice_child\<close> returns the pid
  of a record with the largest \<open>nleft\<close> (the last one of these in the list),
  decrements that \<open>nleft\<close> and changes nothing else.
\<close>

theorem notice_child_best:
  assumes "pool_rel P ps" and "ps \<noteq> []"
  shows "\<exists>P' k. notice_child P = Some (Inr (pid (ps ! k), P')) \<and> k < length ps \<and>
    (\<forall>x\<in>set ps. nleft x \<le> nleft (ps ! k)) \<and> (\<forall>j<length ps. k < j \<longrightarrow> nleft (ps ! j) < nleft (ps ! k)) \<and>
    pool_rel P' (ps[k := (ps ! k)\<lparr>nleft := nleft (ps ! k) - 1\<rparr>])"
  using notice_child_rel [OF assms] unfolding last_best_def by blast

theorem notice_child_best_witness:
  "\<exists>P P' p. pool_rel P (map fresh_proc ten_pids) \<and> notice_child P = Some (Inr (p, P'))"
proof -
  obtain P where P: "pool_rel P (map fresh_proc ten_pids)" using ten_pool by blast
  have "map fresh_proc ten_pids \<noteq> []" by (simp add: ten_pids_def)
  from notice_child_best [OF P this] P show ?thesis by blast
qed

text \<open>
  C22. Removing a record: \<open>delete_pool_obj\<close> ends on every well-formed pool,
  without touching a freed or NULL record; it takes the first record with the
  pid out of the list and keeps the order of the others, and it decrements
  \<open>n_proc\<close> even when no record has the pid.
\<close>

theorem delete_pool_obj_correct:
  assumes "pool_rel P ps"
  shows "\<exists>P'. delete_pool_obj p P = Some (Inr P') \<and> pool_rel P' (drop_pid p ps) \<and>
    procs P' = procs P - 1"
  using delete_pool_obj_rel [OF assms] by blast

theorem delete_pool_obj_correct_witness:
  "\<exists>P P'. pool_rel P (map fresh_proc ten_pids) \<and> delete_pool_obj 103 P = Some (Inr P') \<and>
    pool_rel P' (map fresh_proc [101, 102, 104, 105, 106, 107, 108, 109, 110])"
proof -
  obtain P where P: "pool_rel P (map fresh_proc ten_pids)" using ten_pool by blast
  from delete_pool_obj_correct [OF this, of 103] P show ?thesis
    by (auto simp: ten_pids_def fresh_proc_def)
qed

text \<open>
  Replacing a dead worker keeps the number of records but lets the
  counter \<open>n_proc\<close> drop by one at every death, since \<open>insert_pool\<close> does not
  count the record it adds.
\<close>

theorem handler_dead_counter_drifts:
  assumes "pool_rel P ps" and "p \<in> pid ` set ps" and "procs P \<le> int NPROC_MAX_NUM"
    and "0 < pavail P" and "0 < f"
  shows "\<exists>P'. handler_dead_processor p f P = Some (Inr P') \<and>
    pool_rel P' (fresh_proc f # drop_pid p ps) \<and> length (fresh_proc f # drop_pid p ps) = length ps \<and>
    procs P' = procs P - 1"
proof -
  have "0 < length ps" using assms(2) by auto
  with handler_dead_rel [OF assms(1,3-5), of p] drop_pid_length [OF assms(2)] show ?thesis by auto
qed

lemma small_pool: "\<exists>P. pool_rel P [fresh_proc 7] \<and> procs P = 0 \<and> 0 < pavail P"
  using insert_pool_rel [OF init_pool_rel [of 5], of 7]
  by (auto simp: init_pool_def SLIST_HEAD_INITIALIZER_def NPROC_MAX_NUM_def)

theorem handler_dead_counter_drifts_witness:
  "\<exists>P P'. pool_rel P [fresh_proc 7] \<and> procs P = 0 \<and> handler_dead_processor 7 8 P = Some (Inr P') \<and>
    pool_rel P' [fresh_proc 8] \<and> procs P' = - 1"
proof -
  obtain P where P: "pool_rel P [fresh_proc 7]" "procs P = 0" "0 < pavail P" using small_pool by blast
  with handler_dead_counter_drifts [of P "[fresh_proc 7]" 7 8] show ?thesis
    by (auto simp: fresh_proc_def NPROC_MAX_NUM_def)
qed

text \<open>
  A pid that is not in the pool makes it grow: \<open>handler_dead_processor\<close>
  adds a record without removing one, past the intended maximum of ten.
\<close>

theorem handler_dead_unknown_grows:
  assumes "pool_rel P ps" and "p \<notin> pid ` set ps" and "procs P \<le> int NPROC_MAX_NUM"
    and "0 < pavail P" and "0 < f"
  shows "\<exists>P'. handler_dead_processor p f P = Some (Inr P') \<and> pool_rel P' (fresh_proc f # ps)"
proof -
  have "drop_pid p ps = ps" using assms(2) by (induction ps) auto
  with handler_dead_rel [OF assms(1,3-5), of p] show ?thesis by auto
qed

theorem handler_dead_unknown_grows_witness:
  "\<exists>P P'. pool_rel P [fresh_proc 7] \<and> handler_dead_processor 9 8 P = Some (Inr P') \<and>
    pool_rel P' [fresh_proc 8, fresh_proc 7]"
proof -
  obtain P where P: "pool_rel P [fresh_proc 7]" "procs P = 0" "0 < pavail P" using small_pool by blast
  with handler_dead_unknown_grows [of P "[fresh_proc 7]" 9 8] show ?thesis
    by (auto simp: fresh_proc_def NPROC_MAX_NUM_def)
qed

text \<open>
  \<open>cross_ok\<close> answers 0 exactly when some record has status 1, whatever pid
  it is asked for, and destroys the pids it walks over: when no record is
  ready all of them become 0, so that a later \<open>tell_chld_exit\<close> signals
  process group 0 once per record and none of the workers by pid.
\<close>

theorem cross_ok_clobbers:
  assumes "pool_rel P ps" and "p \<noteq> 0" and "\<forall>x\<in>set ps. status x \<noteq> 1"
  shows "\<exists>P1 P2. cross_ok p P = Some (Inr (- 1, P1)) \<and>
    tell_chld_exit P1 = Some (Inr (replicate (length ps) 0, P2))"
proof -
  have c: "map pid (clobber ps) = replicate (length ps) 0"
    using assms(3) by (induction ps) auto
  obtain P1 where P1: "cross_ok p P = Some (Inr (- 1, P1))" "pool_rel P1 (clobber ps)"
    using cross_ok_rel [OF assms(1,2)] assms(3) by auto
  from tell_chld_rel [OF P1(2)] P1(1) c show ?thesis by auto
qed

theorem cross_ok_clobbers_witness:
  "\<exists>P P1 P2. pool_rel P (map fresh_proc ten_pids) \<and> cross_ok 101 P = Some (Inr (- 1, P1)) \<and>
    tell_chld_exit P1 = Some (Inr (replicate 10 0, P2))"
proof -
  obtain P where P: "pool_rel P (map fresh_proc ten_pids)" using ten_pool by blast
  have r: "\<forall>x\<in>set (map fresh_proc ten_pids). status x \<noteq> 1" "(101::int) \<noteq> 0"
    "length (map fresh_proc ten_pids) = 10"
    by (simp_all add: fresh_proc_def ten_pids_def)
  from cross_ok_clobbers [OF P r(2,1)] P show ?thesis unfolding r(3) by blast
qed

text \<open>
  C15. Invariant of the pool: however children of the pool die and are
  replaced, workers are chosen and marked, the pool is a well-formed list of
  exactly ten records, each with the positive pid of a child, \<open>n_proc\<close> never
  exceeds ten and no \<open>nleft\<close> exceeds \<open>MAX_FD_NUM\<close>.
\<close>

theorem reachable_pool_size:
  assumes "reachable_pool P"
  shows "\<exists>ps. pool_rel P ps \<and> length ps = NPROC_MAX_NUM \<and> procs P \<le> int NPROC_MAX_NUM \<and>
    (\<forall>x\<in>set ps. nleft x \<le> MAX_FD_NUM \<and> 0 < pid x)"
  using reachable_pool_inv [OF assms] unfolding pool_inv_def by blast

theorem reachable_pool_size_witness:
  "\<exists>P ps. reachable_pool P \<and> pool_rel P ps \<and> length ps = 10 \<and> (\<forall>x\<in>set ps. 0 < pid x)"
proof -
  obtain P where "init_manager_proc ten_pids (init_pool 20) = Some (Inr P)" using ten_pool by blast
  then have "reachable_pool P"
    by (rule reachable_pool.start [rotated]) (simp add: ten_pids_def NPROC_MAX_NUM_def)
  with reachable_pool_size [OF this] show ?thesis by (auto simp: NPROC_MAX_NUM_def)
qed

end
