(* ===== verification/Dispatcher.thy ===== *)
theory Dispatcher
  imports Event_Loop Process_Pool
begin

text \<open>
  The main process: \<open>start\<close> of \<open>src/core/epoll_circle.h\<close>, which creates the worker
  processes, listens, and hands every accepted connection to the workers over
  the socket pair, and the message queues of \<open>inc/http_ipc.h\<close>.
\<close>

section \<open>Handing over connections\<close>

text \<open>\<open>Sock_fd_write\<close> on the pair; \<open>buf\<close> is the (uninitialised) array of two bytes.\<close>

definition hand_over :: "int \<Rightarrow> string \<Rightarrow> int \<Rightarrow> world \<Rightarrow> (int \<times> world) exec" where
  "hand_over sock buf c w = bindE (Sock_fd_write sock buf 2 c w) (\<lambda>(size, msg, w). Inr (size, w))"

lemma hand_over_eq:
  "hand_over sock buf c w =
     (if length buf < 2 then Inl (Undef ReadOOB)
      else bindE (sys (CSendmsg sock c) w) (\<lambda>(r, w). Inr (sys_val r, w)))"
  by (cases "outcomes w")
    (auto simp: hand_over_def Sock_fd_write_def passed_fd_def Let_def split: if_splits)

lemma sys_length: "sys c w = Inr (r, w') \<Longrightarrow> length (outcomes w') < length (outcomes w)"
  by (auto simp: sys_Inr)

lemma hand_over_length: "hand_over s b c w = Inr (r, w') \<Longrightarrow> length (outcomes w') < length (outcomes w)"
  by (auto simp: hand_over_eq bindE_eq_Inr dest: sys_length split: if_splits)

function hand_over_loop :: "int \<Rightarrow> string \<Rightarrow> int \<Rightarrow> world \<Rightarrow> world exec" where
  "hand_over_loop sock buf c w =
     bindE (hand_over sock buf c w) (\<lambda>(write_cnt, w).
     if write_cnt \<le> 0 then bindE (hand_over sock buf c w) (\<lambda>(_, w). hand_over_loop sock buf c w)
     else Inr w)"
  by pat_completeness auto
termination
  by (relation "measure (\<lambda>(sock, buf, c, w). length (outcomes w))") (auto dest!: hand_over_length)

declare hand_over_loop.simps [simp del]

lemma Accept_length: "Accept l w = Inr (r, w') \<Longrightarrow> length (outcomes w') < length (outcomes w)"
  by (auto simp: Accept_def bindE_eq_Inr dest!: sys_length split: if_splits)

lemma hand_over_loop_length: "hand_over_loop s b c w = Inr w' \<Longrightarrow> length (outcomes w') < length (outcomes w)"
proof (induction s b c w rule: hand_over_loop.induct)
  case (1 sock buf c w)
  from "1.prems" obtain n w1 where first: "hand_over sock buf c w = Inr (n, w1)"
    and more: "(if n \<le> 0 then bindE (hand_over sock buf c w1) (\<lambda>(_, w). hand_over_loop sock buf c w) else Inr w1) = Inr w'"
    by (subst (asm) hand_over_loop.simps) (auto simp: bindE_eq_Inr simp del: if_split)
  show ?case
  proof (cases "n \<le> 0")
    case True
    with more obtain m w2 where second: "hand_over sock buf c w1 = Inr (m, w2)" "hand_over_loop sock buf c w2 = Inr w'"
      by (auto simp: bindE_eq_Inr)
    from "1.IH" [OF first refl True second(1) refl second(2)] hand_over_length [OF first] hand_over_length [OF second(1)]
    show ?thesis by simp
  qed (use more hand_over_length [OF first] in simp)
qed

text \<open>The loop that accepts; \<open>g_count\<close> counts the connections handed over.\<close>

function accept_loop :: "int \<Rightarrow> int \<Rightarrow> string \<Rightarrow> nat \<Rightarrow> world \<Rightarrow> (nat \<times> world) exec" where
  "accept_loop listenfd sock buf g_count w =
     bindE (Accept listenfd w) (\<lambda>(c, w).
     if c = 0 then Inr (g_count, w)
     else if c = - 1 then unix_error
     else bindE (hand_over_loop sock buf c w) (\<lambda>w. accept_loop listenfd sock buf (g_count + 1) w))"
  by pat_completeness auto
termination
  by (relation "measure (\<lambda>(l, s, b, g, w). length (outcomes w))")
    (auto dest!: Accept_length hand_over_loop_length)

declare accept_loop.simps [simp del]


section \<open>Signals\<close>

text \<open>
  The handlers of the main process, which its workers inherit; \<open>start\<close> installs
  the first two.  \<open>sig_handler\<close>, which counts, is not installed anywhere.
\<close>

definition SIGINT :: int where "SIGINT = 2"
definition SIGQUIT :: int where "SIGQUIT = 3"

definition sig_int_kill :: "int \<Rightarrow> unit exec" where
  "sig_int_kill sig = Inl (Exited 0)"

definition sig_quit :: "int \<Rightarrow> unit exec" where
  "sig_quit sig = Inl (Exited 0)"

definition sig_handler :: "int \<Rightarrow> nat \<Rightarrow> nat" where
  "sig_handler sig g_count = g_count + 1"

definition start_handlers :: "int \<Rightarrow> (int \<Rightarrow> unit exec) option" where
  "start_handlers = [SIGINT \<mapsto> sig_int_kill, SIGQUIT \<mapsto> sig_quit]"

section \<open>The main process\<close>

definition EPOLLERR :: "32 word" where "EPOLLERR = 8"
definition EPOLLHUP :: "32 word" where "EPOLLHUP = 16"
definition EPOLLET :: "32 word" where "EPOLLET = push_bit 31 1"

text \<open>
  The local variables of \<open>start\<close>: \<open>m_client\<close> is \<open>clientfd\<close>, \<open>m_buf\<close> the inner array
  \<open>buf[2]\<close>, \<open>m_data\<close> the union in \<open>event\<close>; \<open>m_freed\<close> says whether \<open>pevent\<close> has been
  freed; \<open>m_interest\<close> is the kernel's list.
\<close>

record master =
  m_listen :: int
  m_sock :: int
  m_epfd :: int
  m_client :: int
  m_buf :: string
  m_data :: "64 word"
  m_count :: nat
  m_freed :: bool
  m_interest :: "int \<rightharpoonup> epoll_event"
  m_world :: world

definition master_event :: "epoll_event \<Rightarrow> master \<Rightarrow> master exec" where
  "master_event ev M =
     (if m_freed M then Inl (Undef BadPointer)
      else if and (events ev) EPOLLERR \<noteq> 0 \<or> and (events ev) EPOLLHUP \<noteq> 0 then
        bindE (sys (CClose (m_listen M)) (m_world M)) (\<lambda>_. unix_error)
      else if data_fd (ev_data ev) = m_listen M then
        bindE (accept_loop (m_listen M) (m_sock M) (m_buf M) (m_count M) (m_world M)) (\<lambda>(n, w).
        Inr (M\<lparr>m_client := 0, m_count := n, m_world := w\<rparr>))
      else if and (events ev) EPOLLIN \<noteq> 0 then
        let d = set_data_fd (m_data M) (m_client M) in
        bindE (Epoll_ctl (m_epfd M) EPOLL_CTL_ADD (m_client M) (m_world M)) (\<lambda>(r, w).
        Inr (M\<lparr>m_data := d, m_world := w, m_interest :=
          epoll_apply EPOLL_CTL_ADD (m_client M) \<lparr>events = or EPOLLOUT EPOLLET, ev_data = d\<rparr> r (m_interest M)\<rparr>))
      else if and (events ev) EPOLLOUT \<noteq> 0 then Inr M
      else
        bindE (sys (CClose (m_client M)) (m_world M)) (\<lambda>(_, w).
        Inr (M\<lparr>m_freed := True, m_world := w\<rparr>)))"

text \<open>
  The loop over the events of one \<open>epoll_wait\<close>: the state comes with the way the
  process stopped, if it did.  What the events before the last one did is in the
  state; what the event that stops the process did before it stopped is not.
\<close>

fun master_batch :: "epoll_event list \<Rightarrow> master \<Rightarrow> master \<times> stop option" where
  "master_batch [] M = (M, None)"
| "master_batch (ev # evs) M =
     (case master_event ev M of
        Inl e \<Rightarrow> (M, Some e)
      | Inr M \<Rightarrow> master_batch evs M)"

text \<open>The endless loop, with the events of the successive calls of \<open>epoll_wait\<close>.\<close>

fun master_loop :: "(errno + epoll_event list) list \<Rightarrow> master \<Rightarrow> master \<times> stop" where
  "master_loop [] M = (M, Blocked)"
| "master_loop (b # bs) M =
     (if m_freed M then (M, Undef BadPointer)
      else case b of
        Inl e \<Rightarrow> (M, Exited 0)
      | Inr evs \<Rightarrow>
          (case master_batch evs M of
             (M, Some e) \<Rightarrow> (M, e)
           | (M, None) \<Rightarrow> master_loop bs M))"

function pair_loop :: "world \<Rightarrow> world exec" where
  "pair_loop w = bindE (S_pipe w) (\<lambda>(ret, w). if ret < 0 then pair_loop w else Inr w)"
  by pat_completeness auto
termination
  by (relation "measure (\<lambda>w. length (outcomes w))") (auto simp: S_pipe_def bindE_eq_Inr dest!: sys_length)

declare pair_loop.simps [simp del]

text \<open>
  \<open>start\<close>: \<open>sv\<close> is the pair \<open>socketpair\<close> fills in, \<open>forks\<close> the results of the forks,
  \<open>addrs\<close> what \<open>getaddrinfo\<close> finds, \<open>mem\<close> whether \<open>malloc\<close> succeeds, and \<open>c\<close>, \<open>d\<close>,
  \<open>b\<close> the uninitialised \<open>clientfd\<close>, \<open>event.data\<close> and \<open>buf[2]\<close>.
\<close>

definition start ::
  "int \<times> int \<Rightarrow> int list \<Rightarrow> pool \<Rightarrow> addrinfo list \<Rightarrow> bool \<Rightarrow> int \<Rightarrow> 64 word \<Rightarrow> string \<Rightarrow>
   (errno + epoll_event list) list \<Rightarrow> world \<Rightarrow> (pool \<times> master \<times> stop) exec option" where
  "start sv forks P addrs mem c d b batches w =
     (case pair_loop w of
        Inl e \<Rightarrow> Some (Inl e)
      | Inr w \<Rightarrow>
          (case init_manager_proc forks P of
             None \<Rightarrow> None
           | Some (Inl e) \<Rightarrow> Some (Inl e)
           | Some (Inr P) \<Rightarrow> Some
               (bindE (open_listenfd ''127.0.0.1'' ''8080'' addrs w) (\<lambda>(listenfd, w).
                bindE (Setnoblock listenfd O_NONBLOCK w) (\<lambda>(_, w).
                bindE (sys (CSetsockopt listenfd SOL_SOCKET SO_REUSEADDR) w) (\<lambda>(r, w).
                if sys_val r = - 1 then Inl (Exited 1)
                else
                  bindE (Malloc (if mem then Some () else None)) (\<lambda>_.
                  bindE (Epoll_create (int BUFSIZE) w) (\<lambda>(ep, w).
                  let d = set_data_fd d listenfd in
                  bindE (Epoll_ctl ep EPOLL_CTL_ADD listenfd w) (\<lambda>(r, w).
                  Inr (P, master_loop batches
                    \<lparr>m_listen = listenfd, m_sock = snd sv, m_epfd = ep, m_client = c, m_buf = b, m_data = d,
                     m_count = 0, m_freed = False,
                     m_interest = epoll_apply EPOLL_CTL_ADD listenfd \<lparr>events = EPOLLIN, ev_data = d\<rparr> r Map.empty,
                     m_world = w\<rparr>))))))))))"

section \<open>Properties\<close>

lemma hand_over_once:
  "outcomes w = SysOk n # rs \<Longrightarrow> 0 < n \<Longrightarrow> length buf = 2 \<Longrightarrow>
   hand_over_loop s buf c w = Inr (w\<lparr>outcomes := rs, trace := trace w @ [(CSendmsg s c, SysOk n)]\<rparr>)"
  by (subst hand_over_loop.simps) (simp add: hand_over_eq)

text \<open>What the kernel does when clients \<open>cs\<close> are waiting and every message is sent at once.\<close>

fun arrivals :: "int list \<Rightarrow> sys_ret list" where
  "arrivals [] = []"
| "arrivals (c # cs) = SysOk c # SysOk 2 # arrivals cs"

fun handed :: "int \<Rightarrow> int \<Rightarrow> int list \<Rightarrow> (call \<times> sys_ret) list" where
  "handed l s [] = []"
| "handed l s (c # cs) = (CAccept l, SysOk c) # (CSendmsg s c, SysOk 2) # handed l s cs"

lemma accept_loop_arrivals:
  "outcomes w = arrivals cs @ SysErr e # rs \<Longrightarrow> e = EAGAIN \<or> e = EWOULDBLOCK \<Longrightarrow> \<forall>c\<in>set cs. 0 < c \<Longrightarrow> length buf = 2 \<Longrightarrow>
   accept_loop l s buf g w = Inr (g + length cs,
     w\<lparr>outcomes := rs, trace := trace w @ handed l s cs @ [(CAccept l, SysErr e)]\<rparr>)"
proof (induction cs arbitrary: g w)
  case Nil
  then show ?case by (subst accept_loop.simps) (auto simp: Accept_def)
next
  case (Cons c cs)
  let ?w = "w\<lparr>outcomes := arrivals cs @ SysErr e # rs,
    trace := trace w @ [(CAccept l, SysOk c), (CSendmsg s c, SysOk 2)]\<rparr>"
  have "accept_loop l s buf g w = accept_loop l s buf (g + 1) ?w"
    using Cons.prems hand_over_once [of "w\<lparr>outcomes := SysOk 2 # arrivals cs @ SysErr e # rs,
      trace := trace w @ [(CAccept l, SysOk c)]\<rparr>" 2 _ buf s c]
    by (subst accept_loop.simps) (simp add: Accept_def)
  also have "\<dots> = Inr (g + 1 + length cs, ?w\<lparr>outcomes := rs, trace := trace ?w @ handed l s cs @ [(CAccept l, SysErr e)]\<rparr>)"
    using Cons.prems by (intro Cons.IH) auto
  finally show ?case by simp
qed

text \<open>
  Every waiting connection is handed over exactly once and in order: the
  loop ends when \<open>accept\<close> reports that none is left, having counted them; the
  main process keeps its own descriptor of each open.
\<close>

theorem accept_loop_hands_over:
  assumes "outcomes w = arrivals cs @ SysErr e # rs" "e = EAGAIN \<or> e = EWOULDBLOCK" "\<forall>c\<in>set cs. 0 < c" "length buf = 2"
  shows "accept_loop l s buf g w = Inr (g + length cs,
     w\<lparr>outcomes := rs, trace := trace w @ handed l s cs @ [(CAccept l, SysErr e)]\<rparr>)"
  by (rule accept_loop_arrivals [OF assms])

theorem accept_loop_hands_over_witness:
  "accept_loop 3 7 ''ab'' 5 \<lparr>outcomes = [SysOk 8, SysOk 2, SysOk 9, SysOk 2, SysErr EAGAIN], trace = []\<rparr>
    = Inr (7, \<lparr>outcomes = [], trace = [(CAccept 3, SysOk 8), (CSendmsg 7 8, SysOk 2), (CAccept 3, SysOk 9),
        (CSendmsg 7 9, SysOk 2), (CAccept 3, SysErr EAGAIN)]\<rparr>)"
  using accept_loop_hands_over [of "\<lparr>outcomes = [SysOk 8, SysOk 2, SysOk 9, SysOk 2, SysErr EAGAIN], trace = []\<rparr>"
      "[8, 9]" EAGAIN "[]" "''ab''" 3 7 5]
  by simp

text \<open>
  A retried hand-over duplicates the connection: after one failure the loop
  body sends the descriptor and so does the loop condition, so two workers can
  receive the same connection.
\<close>

theorem hand_over_duplicates:
  assumes "outcomes w = SysErr e # SysOk m # SysOk n # rs" "0 < n" "length buf = 2"
  shows "hand_over_loop s buf c w = Inr (w\<lparr>outcomes := rs,
    trace := trace w @ [(CSendmsg s c, SysErr e), (CSendmsg s c, SysOk m), (CSendmsg s c, SysOk n)]\<rparr>)"
  using assms hand_over_once [of "w\<lparr>outcomes := SysOk n # rs,
    trace := trace w @ [(CSendmsg s c, SysErr e), (CSendmsg s c, SysOk m)]\<rparr>" n rs buf s c]
  by (subst hand_over_loop.simps) (simp add: hand_over_eq)

theorem hand_over_duplicates_witness:
  "hand_over_loop 7 ''ab'' 8 \<lparr>outcomes = [SysErr EAGAIN, SysOk 2, SysOk 2], trace = []\<rparr>
     = Inr \<lparr>outcomes = [], trace = [(CSendmsg 7 8, SysErr EAGAIN), (CSendmsg 7 8, SysOk 2), (CSendmsg 7 8, SysOk 2)]\<rparr>"
  using hand_over_duplicates [of "\<lparr>outcomes = [SysErr EAGAIN, SysOk 2, SysOk 2], trace = []\<rparr>" EAGAIN 2 2 "[]" "''ab''" 7 8]
  by simp


text \<open>
  Start-up: when the system calls succeed, the main process has a pool of
  ten workers with the pids of the forks, listens on a socket that is bound,
  waits for input on it, and enters its loop with no connection counted; the
  event the kernel will report is recognised as one for the listening socket.
\<close>

theorem start_ready:
  assumes "NPROC_MAX_NUM \<le> n" "length forks = NPROC_MAX_NUM" "\<forall>f\<in>set forks. 0 < f"
    and "outcomes w = SysOk 0 # SysOk 0 # SysOk l # SysOk 0 # SysOk 0 # SysOk 0 # SysOk fl # SysOk 0 # SysOk 0 # SysOk e # SysOk 0 # rs"
    and "0 \<le> l" "l < 2 ^ 31" "0 \<le> fl" "0 \<le> e"
  shows "\<exists>P M ev. (\<forall>batches. start sv forks (init_pool n) (a # as) True c d b batches w = Some (Inr (P, master_loop batches M))) \<and>
    pool_rel P (map fresh_proc forks) \<and> m_listen M = l \<and> m_sock M = snd sv \<and> m_epfd M = e \<and> m_buf M = b \<and>
    m_count M = 0 \<and> \<not> m_freed M \<and> m_interest M = [l \<mapsto> ev] \<and> events ev = EPOLLIN \<and> data_fd (ev_data ev) = l \<and>
    outcomes (m_world M) = rs \<and> (CListen l LISTEN_NUM, SysOk 0) \<in> set (trace (m_world M))"
proof -
  obtain P where P: "init_manager_proc forks (init_pool n) = Some (Inr P)" "pool_rel P (map fresh_proc forks)"
    using init_manager_rel [OF assms(1-3)] by blast
  have pair: "pair_loop w = Inr (w\<lparr>outcomes := tl (outcomes w), trace := trace w @ [(CSocketpair, SysOk 0)]\<rparr>)"
    using assms(4) by (subst pair_loop.simps) (simp add: S_pipe_def)
  let ?ev = "\<lparr>events = EPOLLIN, ev_data = set_data_fd d l\<rparr>"
  obtain w' where go: "\<And>batches. start sv forks (init_pool n) (a # as) True c d b batches w = Some (Inr (P, master_loop batches
      \<lparr>m_listen = l, m_sock = snd sv, m_epfd = e, m_client = c, m_buf = b, m_data = set_data_fd d l, m_count = 0,
       m_freed = False, m_interest = [l \<mapsto> ?ev], m_world = w'\<rparr>))"
    and w': "outcomes w' = rs" "(CListen l LISTEN_NUM, SysOk 0) \<in> set (trace w')"
    using assms(4-8) P(1)
    by (simp add: start_def pair open_listenfd_def Getaddrinfo_def Setsockopt_def Bind_def Listen_def Setnoblock_def
        Malloc_def Epoll_create_def Epoll_ctl_def epoll_apply_def EPOLL_CTL_ADD_def EPOLL_CTL_DEL_def Let_def)
  have "data_fd (set_data_fd d l) = l"
    using assms(5,6) by (intro data_fd_set_data_fd) auto
  with go w' P(2) show ?thesis
    by (intro exI [of _ P] exI [of _ "\<lparr>m_listen = l, m_sock = snd sv, m_epfd = e, m_client = c, m_buf = b,
        m_data = set_data_fd d l, m_count = 0, m_freed = False, m_interest = [l \<mapsto> ?ev], m_world = w'\<rparr>"]
        exI [of _ ?ev]) simp
qed

theorem start_ready_witness:
  "\<exists>P M ev. start (6, 7) ten_pids (init_pool 10) [addr 1] True 0 0 ''ab'' []
      \<lparr>outcomes = [SysOk 0, SysOk 0, SysOk 3, SysOk 0, SysOk 0, SysOk 0, SysOk 2, SysOk 0, SysOk 0, SysOk 4, SysOk 0], trace = []\<rparr>
    = Some (Inr (P, master_loop [] M)) \<and> pool_rel P (map fresh_proc ten_pids) \<and> m_interest M = [3 \<mapsto> ev] \<and> m_sock M = 7"
  using start_ready [of 10 ten_pids "\<lparr>outcomes = [SysOk 0, SysOk 0, SysOk 3, SysOk 0, SysOk 0, SysOk 0, SysOk 2,
      SysOk 0, SysOk 0, SysOk 4, SysOk 0], trace = []\<rparr>" 3 2 4 "[]" "(6, 7)" "addr 1" "[]" 0 0 "''ab''"]
  by (fastforce simp: ten_pids_def NPROC_MAX_NUM_def)

text \<open>
  Use after free: an event that is neither an error nor for the listening
  socket nor input nor output makes the main process free its event array and
  go on; the next event it looks at is read from the freed array.
\<close>

theorem master_use_after_free:
  assumes "\<not> m_freed M" "data_fd (ev_data ev) \<noteq> m_listen M" "outcomes (m_world M) = r # rs"
    and "and (events ev) EPOLLERR = 0" "and (events ev) EPOLLHUP = 0" "and (events ev) EPOLLIN = 0" "and (events ev) EPOLLOUT = 0"
  shows "\<exists>M'. master_batch (ev # ev' # evs) M = (M', Some (Undef BadPointer)) \<and> m_freed M' \<and>
    trace (m_world M') = trace (m_world M) @ [(CClose (m_client M), r)]"
  using assms by (simp add: master_event_def)

definition sample_master :: master where
  "sample_master = \<lparr>m_listen = 3, m_sock = 7, m_epfd = 4, m_client = 0, m_buf = ''ab'', m_data = 0, m_count = 0,
     m_freed = False, m_interest = Map.empty, m_world = \<lparr>outcomes = [SysErr (EOTHER 9)], trace = []\<rparr>\<rparr>"

theorem master_use_after_free_witness:
  "\<exists>M'. master_batch [\<lparr>events = 2, ev_data = 9\<rparr>, \<lparr>events = EPOLLIN, ev_data = 3\<rparr>] sample_master
      = (M', Some (Undef BadPointer)) \<and> m_freed M'"
  using master_use_after_free [of sample_master "\<lparr>events = 2, ev_data = 9\<rparr>" "SysErr (EOTHER 9)" "[]"
      "\<lparr>events = EPOLLIN, ev_data = 3\<rparr>" "[]"]
  by (auto simp: sample_master_def data_fd_def EPOLLERR_def EPOLLHUP_def EPOLLIN_def EPOLLOUT_def)

end
