(* ===== verification/Dispatch_Spec.thy ===== *)
theory Dispatch_Spec
  imports Main
begin

text \<open>
  What the server promises about connections, without processes and system
  calls: connections are numbered as they arrive, wait in order, and are
  delivered from the front.  A refused send may make the next connection wait
  more than once.  The locale \<open>dispatching\<close> is the contract of a system whose
  steps are runs of this specification; \<open>Server_System\<close> interprets it on the
  main process and its workers.
\<close>

section \<open>The specification\<close>

record dispatch =
  d_next :: nat
  d_refused :: nat
  d_flight :: "nat list"
  d_delivered :: "nat list"

inductive dispatch_step :: "dispatch \<Rightarrow> dispatch \<Rightarrow> bool" where
  arrive: "0 < n \<Longrightarrow> n \<le> Suc r \<Longrightarrow> dispatch_step s
    (s\<lparr>d_next := Suc (d_next s), d_refused := d_refused s + r, d_flight := d_flight s @ replicate n (d_next s)\<rparr>)"
| deliver: "d_flight s = k # ks \<Longrightarrow> dispatch_step s
    (s\<lparr>d_flight := ks, d_delivered := d_delivered s @ [k]\<rparr>)"

inductive_cases dispatch_stepE: "dispatch_step s s'"

text \<open>The connections delivered or waiting are those that arrived, in order, each once or several times in a row.\<close>

definition dispatch_ok :: "dispatch \<Rightarrow> bool" where
  "dispatch_ok s \<longleftrightarrow> remdups_adj (d_delivered s @ d_flight s) = [0..<d_next s] \<and>
     length (d_delivered s @ d_flight s) \<le> d_next s + d_refused s"

lemma remdups_adj_snoc_new:
  "k \<notin> set xs \<Longrightarrow> 0 < n \<Longrightarrow> remdups_adj (xs @ replicate n k) = remdups_adj xs @ [k]"
proof (induction xs rule: remdups_adj.induct)
  case 1
  then show ?case by (simp add: remdups_adj_replicate)
next
  case (2 x)
  then show ?case by (cases n) (auto simp: remdups_adj_Cons remdups_adj_replicate)
qed auto

lemma remdups_adj_length_eq: "length xs \<le> length (remdups_adj xs) \<Longrightarrow> remdups_adj xs = xs"
proof (induction xs rule: remdups_adj.induct)
  case (3 x y xs)
  have "length (remdups_adj (y # xs)) \<le> Suc (length xs)"
    using remdups_adj_length [of "y # xs"] by simp
  with 3 show ?case by (cases "x = y") auto
qed simp_all

lemma dispatch_step_ok: "dispatch_step s s' \<Longrightarrow> dispatch_ok s \<Longrightarrow> dispatch_ok s'"
proof (induction rule: dispatch_step.induct)
  case (arrive n r s)
  let ?xs = "d_delivered s @ d_flight s"
  from arrive.prems have same: "remdups_adj ?xs = [0..<d_next s]" "length ?xs \<le> d_next s + d_refused s"
    by (simp_all add: dispatch_ok_def)
  then have "set ?xs = {0..<d_next s}" by (metis remdups_adj_set set_upt)
  then have "remdups_adj (?xs @ replicate n (d_next s)) = [0..<Suc (d_next s)]"
    using same arrive.hyps by (subst remdups_adj_snoc_new) auto
  with same arrive.hyps show ?case by (simp add: dispatch_ok_def)
qed (simp add: dispatch_ok_def)

section \<open>Systems that implement it\<close>

locale dispatching =
  fixes step :: "'s \<Rightarrow> 's \<Rightarrow> bool" and view :: "'s \<Rightarrow> dispatch"
  assumes simulates: "step s s' \<Longrightarrow> dispatch_step\<^sup>*\<^sup>* (view s) (view s')"
begin

lemma run_simulates: "step\<^sup>*\<^sup>* s s' \<Longrightarrow> dispatch_step\<^sup>*\<^sup>* (view s) (view s')"
  by (induction rule: rtranclp_induct) (auto intro: rtranclp_trans simulates)

lemma run_ok:
  assumes "step\<^sup>*\<^sup>* s s'" "dispatch_ok (view s)"
  shows "dispatch_ok (view s')"
  using run_simulates [OF assms(1)] assms(2) by (induction rule: rtranclp_induct) (auto intro: dispatch_step_ok)

lemma queue_grows:
  assumes "step\<^sup>*\<^sup>* s s'"
  shows "\<exists>ks. d_delivered (view s') @ d_flight (view s') = (d_delivered (view s) @ d_flight (view s)) @ ks"
  using run_simulates [OF assms]
proof (induction rule: rtranclp_induct)
  case (step y z)
  from step.hyps(2) have "\<exists>ks. d_delivered z @ d_flight z = (d_delivered y @ d_flight y) @ ks"
    by cases auto
  with step.IH show ?case by (metis append.assoc)
qed simp

lemma no_loss:
  assumes "step\<^sup>*\<^sup>* s s'" "dispatch_ok (view s)"
  shows "set (d_delivered (view s')) \<union> set (d_flight (view s')) = {0..<d_next (view s')}"
  using run_ok [OF assms] unfolding dispatch_ok_def by (metis remdups_adj_set set_append set_upt)

lemma exactly_once:
  assumes "step\<^sup>*\<^sup>* s s'" "dispatch_ok (view s)" "d_refused (view s') = 0"
  shows "d_delivered (view s') @ d_flight (view s') = [0..<d_next (view s')]"
proof -
  let ?xs = "d_delivered (view s') @ d_flight (view s')"
  from run_ok [OF assms(1,2)] assms(3) have "remdups_adj ?xs = [0..<d_next (view s')]" "length ?xs \<le> d_next (view s')"
    by (simp_all add: dispatch_ok_def)
  then show ?thesis using remdups_adj_length_eq [of ?xs] by simp
qed

end

end
