(* ===== verification/Pair_Kernel.thy ===== *)
theory Pair_Kernel
  imports Dispatcher Dispatch_Spec
begin

text \<open>
  The kernel between the processes: the descriptors of the main process that
  stand for connections, the messages in the pair of sockets that
  \<open>S_pipe\<close> makes, and what the calls of the main process do to them.
  A message is the connection whose descriptor was sent; the kernel installs
  it under a free number in the table of the receiving process.
\<close>

section \<open>The calls of the main process\<close>

text \<open>Connections are numbered as they are accepted; \<open>refused\<close> counts the calls of \<open>sendmsg\<close> that failed.\<close>

record net =
  main_tab :: "int \<rightharpoonup> nat"
  arrived :: nat
  refused :: nat
  wire :: "nat list"

definition empty_net :: net where
  "empty_net = \<lparr>main_tab = Map.empty, arrived = 0, refused = 0, wire = []\<rparr>"

text \<open>
  A new connection gets a descriptor that is not in use (0, the standard input,
  is), and \<open>sendmsg\<close> of two bytes sends at least one or fails.
\<close>

definition net_allows :: "net \<Rightarrow> call \<times> sys_ret \<Rightarrow> bool" where
  "net_allows N e = (case e of
     (CAccept l, SysOk c) \<Rightarrow> 0 < c \<and> main_tab N c = None
   | (CSendmsg s c, SysOk n) \<Rightarrow> 0 < n \<and> main_tab N c \<noteq> None
   | _ \<Rightarrow> True)"

definition net_effect :: "net \<Rightarrow> call \<times> sys_ret \<Rightarrow> net" where
  "net_effect N e = (case e of
     (CAccept l, SysOk c) \<Rightarrow> N\<lparr>main_tab := (main_tab N)(c \<mapsto> arrived N), arrived := Suc (arrived N)\<rparr>
   | (CSendmsg s c, SysOk n) \<Rightarrow> N\<lparr>wire := wire N @ [the (main_tab N c)]\<rparr>
   | (CSendmsg s c, SysErr e) \<Rightarrow> N\<lparr>refused := Suc (refused N)\<rparr>
   | (CClose f, _) \<Rightarrow> N\<lparr>main_tab := (main_tab N)(f := None)\<rparr>
   | _ \<Rightarrow> N)"

lemma net_allows_simps [simp]:
  "net_allows N (CAccept l, SysOk c) \<longleftrightarrow> 0 < c \<and> main_tab N c = None"
  "net_allows N (CSendmsg s c, SysOk n) \<longleftrightarrow> 0 < n \<and> main_tab N c \<noteq> None"
  "net_allows N (call, SysErr e)"
  "net_allows N (CClose f, r)" "net_allows N (CEpollCtl p op f, r)"
  by (simp_all add: net_allows_def split: call.splits)

lemma net_effect_simps [simp]:
  "net_effect N (CAccept l, SysOk c) = N\<lparr>main_tab := (main_tab N)(c \<mapsto> arrived N), arrived := Suc (arrived N)\<rparr>"
  "net_effect N (CAccept l, SysErr e) = N"
  "net_effect N (CSendmsg s c, SysOk n) = N\<lparr>wire := wire N @ [the (main_tab N c)]\<rparr>"
  "net_effect N (CSendmsg s c, SysErr e) = N\<lparr>refused := Suc (refused N)\<rparr>"
  "net_effect N (CClose f, r) = N\<lparr>main_tab := (main_tab N)(f := None)\<rparr>"
  "net_effect N (CEpollCtl p op f, r) = N"
  by (simp_all add: net_effect_def)

fun net_run :: "net \<Rightarrow> (call \<times> sys_ret) list \<Rightarrow> net option" where
  "net_run N [] = Some N"
| "net_run N (e # es) = (if net_allows N e then net_run (net_effect N e) es else None)"

lemma net_run_append: "net_run N (es @ fs) = Option.bind (net_run N es) (\<lambda>N. net_run N fs)"
  by (induction es arbitrary: N) auto

section \<open>Handing over one connection\<close>

text \<open>The calls of \<open>hand_over_loop\<close>: some fail, and then one or several messages carry the connection.\<close>

lemma hand_over_Inr:
  assumes "hand_over s b c w = Inr (n, w')"
  shows "\<exists>r. n = sys_val r \<and> trace w' = trace w @ [(CSendmsg s c, r)]"
  using assms by (auto simp: hand_over_eq bindE_eq_Inr sys_Inr split: if_splits)

lemma hand_over_loop_run:
  "hand_over_loop s b c w = Inr w' \<Longrightarrow> \<exists>es. trace w' = trace w @ es \<and>
    (\<forall>N N' k. main_tab N c = Some k \<longrightarrow> net_run N es = Some N' \<longrightarrow>
      (\<exists>n r. 0 < n \<and> n \<le> Suc r \<and> N' = N\<lparr>refused := refused N + r, wire := wire N @ replicate n k\<rparr>))"
proof (induction s b c w rule: hand_over_loop.induct)
  case (1 s b c w)
  from "1.prems" obtain n w1 where first: "hand_over s b c w = Inr (n, w1)"
    and more: "(if n \<le> 0 then bindE (hand_over s b c w1) (\<lambda>(_, w). hand_over_loop s b c w) else Inr w1) = Inr w'"
    by (subst (asm) hand_over_loop.simps) (auto simp: bindE_eq_Inr simp del: if_split)
  from hand_over_Inr [OF first] obtain r1 where r1: "n = sys_val r1" "trace w1 = trace w @ [(CSendmsg s c, r1)]" by blast
  show ?case
  proof (cases "n \<le> 0")
    case False
    with more r1 obtain v where "w' = w1" "r1 = SysOk v" by (cases r1) auto
    have "\<exists>n r. 0 < n \<and> n \<le> Suc r \<and> N\<lparr>wire := wire N @ [k]\<rparr> = N\<lparr>refused := refused N + r, wire := wire N @ replicate n k\<rparr>"
      for N :: net and k by (rule exI [of _ 1], rule exI [of _ 0]) simp
    with \<open>w' = w1\<close> \<open>r1 = SysOk v\<close> r1 show ?thesis
      by (intro exI [of _ "[(CSendmsg s c, r1)]"]) auto
  next
    case True
    with more obtain m w2 where second: "hand_over s b c w1 = Inr (m, w2)" and loop: "hand_over_loop s b c w2 = Inr w'"
      by (auto simp: bindE_eq_Inr)
    from hand_over_Inr [OF second] obtain r2 where r2: "trace w2 = trace w1 @ [(CSendmsg s c, r2)]" by blast
    from "1.IH" [OF first refl True second refl loop] obtain es where es: "trace w' = trace w2 @ es"
      and run: "\<And>N N' k. main_tab N c = Some k \<Longrightarrow> net_run N es = Some N' \<Longrightarrow>
        \<exists>n r. 0 < n \<and> n \<le> Suc r \<and> N' = N\<lparr>refused := refused N + r, wire := wire N @ replicate n k\<rparr>" by blast
    show ?thesis
    proof (intro exI [of _ "(CSendmsg s c, r1) # (CSendmsg s c, r2) # es"] conjI allI impI)
      show "trace w' = trace w @ (CSendmsg s c, r1) # (CSendmsg s c, r2) # es" using r1 r2 es by simp
    next
      fix N N' k
      assume k: "main_tab N c = Some k" and go: "net_run N ((CSendmsg s c, r1) # (CSendmsg s c, r2) # es) = Some N'"
      with True r1(1) obtain e where e: "r1 = SysErr e" by (cases r1) (auto split: if_splits)
      show "\<exists>n r. 0 < n \<and> n \<le> Suc r \<and> N' = N\<lparr>refused := refused N + r, wire := wire N @ replicate n k\<rparr>"
      proof (cases r2)
        case (SysOk v)
        with k go e have "net_run (N\<lparr>refused := Suc (refused N), wire := wire N @ [k]\<rparr>) es = Some N'"
          by (auto split: if_splits)
        with run [of "N\<lparr>refused := Suc (refused N), wire := wire N @ [k]\<rparr>" k N'] k obtain n r where
          "0 < n" "n \<le> Suc r" "N' = N\<lparr>refused := refused N + Suc r, wire := wire N @ replicate (Suc n) k\<rparr>" by auto
        then show ?thesis by (intro exI [of _ "Suc n"] exI [of _ "Suc r"]) simp
      next
        case (SysErr e')
        with k go e have "net_run (N\<lparr>refused := Suc (Suc (refused N))\<rparr>) es = Some N'"
          by (auto split: if_splits)
        with run [of "N\<lparr>refused := Suc (Suc (refused N))\<rparr>" k N'] k obtain n r where
          "0 < n" "n \<le> Suc r" "N' = N\<lparr>refused := refused N + Suc (Suc r), wire := wire N @ replicate n k\<rparr>" by auto
        then show ?thesis by (intro exI [of _ n] exI [of _ "Suc (Suc r)"]) simp
      qed
    qed
  qed
qed

section \<open>Accepting\<close>

text \<open>One accepted connection in the net: a new descriptor, failed calls and messages.\<close>

inductive net_accept :: "net \<Rightarrow> net \<Rightarrow> bool" where
  "0 < c \<Longrightarrow> main_tab N c = None \<Longrightarrow> 0 < n \<Longrightarrow> n \<le> Suc r \<Longrightarrow> net_accept N
    (N\<lparr>main_tab := (main_tab N)(c \<mapsto> arrived N), arrived := Suc (arrived N), refused := refused N + r,
       wire := wire N @ replicate n (arrived N)\<rparr>)"

lemma Accept_Inr:
  assumes "Accept l w = Inr (c, w')"
  shows "\<exists>r. trace w' = trace w @ [(CAccept l, r)] \<and> (c \<noteq> - 1 \<longrightarrow> r = SysOk c \<or> c = 0 \<and> (\<exists>e. r = SysErr e))"
proof -
  obtain r w1 where call: "sys (CAccept l) w = Inr (r, w1)"
    using assms by (cases "sys (CAccept l) w") (auto simp: Accept_def)
  with assms have rest: "(if sys_val r < 0 then
      (if r = SysErr EAGAIN \<or> r = SysErr EWOULDBLOCK then Inr (0, w1) else Inr (- 1, w1))
      else Inr (sys_val r, w1)) = (Inr (c, w') :: (int \<times> world) exec)"
    by (simp only: Accept_def bindE_simps prod.case)
  from rest have "w' = w1" "c \<noteq> - 1 \<longrightarrow> r = SysOk c \<or> c = 0 \<and> (\<exists>e. r = SysErr e)"
    by (cases r; auto split: if_splits)+
  with call show ?thesis by (auto simp: sys_Inr)
qed

lemma accept_loop_run:
  "accept_loop l s b g w = Inr (g', w') \<Longrightarrow> \<exists>es. trace w' = trace w @ es \<and>
    (\<forall>N N'. net_run N es = Some N' \<longrightarrow> net_accept\<^sup>*\<^sup>* N N' \<and> g' - g = arrived N' - arrived N \<and> g \<le> g')"
proof (induction l s b g w rule: accept_loop.induct)
  case (1 l s b g w)
  from "1.prems" obtain c w1 where acc: "Accept l w = Inr (c, w1)"
    and rest: "(if c = 0 then Inr (g, w1) else if c = - 1 then unix_error
      else bindE (hand_over_loop s b c w1) (\<lambda>w. accept_loop l s b (g + 1) w)) = Inr (g', w')"
    by (subst (asm) accept_loop.simps) (auto simp: bindE_eq_Inr simp del: if_split)
  from Accept_Inr [OF acc] obtain r where r: "trace w1 = trace w @ [(CAccept l, r)]"
    and val: "c \<noteq> - 1 \<longrightarrow> r = SysOk c \<or> c = 0 \<and> (\<exists>e. r = SysErr e)" by blast
  have c: "c \<noteq> - 1" using rest by (auto simp: unix_error_def)
  show ?case
  proof (cases "c = 0")
    case True
    with rest r val show ?thesis by (intro exI [of _ "[(CAccept l, r)]"]) auto
  next
    case False
    with rest c val obtain w2 where hand: "hand_over_loop s b c w1 = Inr w2"
      and loop: "accept_loop l s b (g + 1) w2 = Inr (g', w')" and r': "r = SysOk c" by (auto simp: bindE_eq_Inr)
    from hand_over_loop_run [OF hand] obtain es1 where es1: "trace w2 = trace w1 @ es1"
      and run1: "\<And>N N' k. main_tab N c = Some k \<Longrightarrow> net_run N es1 = Some N' \<Longrightarrow>
        \<exists>n r. 0 < n \<and> n \<le> Suc r \<and> N' = N\<lparr>refused := refused N + r, wire := wire N @ replicate n k\<rparr>" by blast
    from "1.IH" [OF acc refl False c hand loop] obtain es2 where es2: "trace w' = trace w2 @ es2"
      and run2: "\<And>N N'. net_run N es2 = Some N' \<Longrightarrow> net_accept\<^sup>*\<^sup>* N N' \<and> g' - (g + 1) = arrived N' - arrived N \<and> g + 1 \<le> g'"
      by blast
    show ?thesis
    proof (intro exI [of _ "(CAccept l, r) # es1 @ es2"] conjI allI impI)
      show "trace w' = trace w @ (CAccept l, r) # es1 @ es2" using r es1 es2 by simp
    next
      fix N N' assume go: "net_run N ((CAccept l, r) # es1 @ es2) = Some N'"
      let ?N = "N\<lparr>main_tab := (main_tab N)(c \<mapsto> arrived N), arrived := Suc (arrived N)\<rparr>"
      from go r' obtain N1 where new: "0 < c" "main_tab N c = None" and N1: "net_run ?N es1 = Some N1" "net_run N1 es2 = Some N'"
        by (auto simp: net_run_append Option.bind_eq_Some_conv split: if_splits)
      from run1 [of ?N "arrived N" N1] N1(1) obtain n x where nx: "0 < n" "n \<le> Suc x"
        "N1 = ?N\<lparr>refused := refused N + x, wire := wire N @ replicate n (arrived N)\<rparr>" by auto
      have one: "net_accept N N1" using net_accept.intros [OF new nx(1,2)] nx(3) by simp
      then have "arrived N1 = Suc (arrived N)" by (auto elim: net_accept.cases)
      moreover from run2 [OF N1(2)] have more: "net_accept\<^sup>*\<^sup>* N1 N'" "g' - (g + 1) = arrived N' - arrived N1" "g + 1 \<le> g'" by auto
      moreover from more(1) have "arrived N1 \<le> arrived N'" by (induction rule: rtranclp_induct) (auto elim: net_accept.cases)
      ultimately show "net_accept\<^sup>*\<^sup>* N N'" "g' - g = arrived N' - arrived N" "g \<le> g'"
        using one by (auto intro: converse_rtranclp_into_rtranclp)
    qed
  qed
qed

end
