(* ===== verification/Server_System.thy ===== *)
theory Server_System
  imports Pair_Kernel
begin

text \<open>
  The whole server: the main process of \<open>src/core/epoll_circle.h\<close>, the worker
  processes of \<open>inc/http_task.h\<close> and the kernel between them as one system.
  A worker fetches events and handles them one by one.  What a process does is the definition of its component (\<open>master_event\<close>,
  \<open>handle_event\<close>); what the kernel does is any behaviour it may have.
\<close>

section \<open>The system\<close>

text \<open>
  A worker process: its program, its descriptors that stand for connections,
  the events that its last \<open>epoll_wait\<close> reported and that it has not yet handled,
  and whether its end of the pair is open.
\<close>

record wproc =
  prog :: worker
  tab :: "int \<rightharpoonup> nat"
  pending :: "epoll_event list"
  pair_open :: bool

text \<open>
  The workers by process id; \<open>s_taken\<close> lists the messages received so far, with
  the process, the descriptor installed for it (-1 if the kernel dropped it) and
  the connection.
\<close>

record system =
  s_main :: master
  s_net :: net
  s_workers :: "int \<rightharpoonup> wproc"
  s_taken :: "(int \<times> int \<times> nat) list"

text \<open>A world in which the next calls have the results \<open>rs\<close>, and the calls made since.\<close>

abbreviation offer :: "sys_ret list \<Rightarrow> world \<Rightarrow> world" where
  "offer rs w \<equiv> w\<lparr>outcomes := rs\<rparr>"

definition new_calls :: "world \<Rightarrow> world \<Rightarrow> (call \<times> sys_ret) list" where
  "new_calls w w' = drop (length (trace w)) (trace w')"

lemma new_calls_append [simp]: "trace w' = trace w @ cs \<Longrightarrow> new_calls w w' = cs"
  by (simp add: new_calls_def)

text \<open>
  The events epoll may report to the main process (compare \<open>reported\<close>); errors are
  always reported.  Its interest list does not change in any run, so what was
  reported when it waited may still be reported when it handles the event.
\<close>

definition main_reports :: "master \<Rightarrow> epoll_event \<Rightarrow> bool" where
  "main_reports M ev \<longleftrightarrow> (\<exists>f reg. m_interest M f = Some reg \<and> ev_data ev = ev_data reg \<and>
     (and (events ev) EPOLLIN \<noteq> 0 \<longrightarrow> and (events reg) EPOLLIN \<noteq> 0) \<and>
     (and (events ev) EPOLLOUT \<noteq> 0 \<longrightarrow> and (events reg) EPOLLOUT \<noteq> 0))"

text \<open>The control message that arrives: the one \<open>Sock_fd_write\<close> builds, with the number in the receiver's table.\<close>

definition passes_fd :: "cmsghdr \<Rightarrow> bool" where
  "passes_fd c \<longleftrightarrow> cmsg_len c = CMSG_LEN_INT \<and> cmsg_level c = SOL_SOCKET \<and> cmsg_type c = SCM_RIGHTS"

text \<open>
  \<open>recvmsg\<close> on the pair: it takes the first message, whose descriptor is installed
  under a number that is free in the receiving process; or it takes the message
  and drops the descriptor, as when the process has reached its limit
  (MSG_CTRUNC), so that no control message arrives; or it fails and takes nothing,
  with \<open>EAGAIN\<close> or \<open>EWOULDBLOCK\<close> only when there is no message (\<open>fd[0]\<close> is
  non-blocking).
\<close>

definition deliver ::
  "int \<Rightarrow> rcv \<Rightarrow> wproc \<Rightarrow> net \<Rightarrow> (net \<times> (int \<rightharpoonup> nat) \<times> (int \<times> nat) list) option" where
  "deliver fd0 r q N =
     (case (r, wire N) of
        (RcvErr e, ks) \<Rightarrow>
          if (e = EAGAIN \<or> e = EWOULDBLOCK) \<longrightarrow> ks = [] then Some (N, tab q, []) else None
      | (RcvMsg d None, k # ks) \<Rightarrow> Some (N\<lparr>wire := ks\<rparr>, tab q, [(- 1, k)])
      | (RcvMsg d (Some c), k # ks) \<Rightarrow>
          let f = cmsg_data c in
          if passes_fd c \<and> 0 \<le> f \<and> f \<noteq> fd0 \<and> f \<noteq> epfd (prog q) \<and> tab q f = None
          then Some (N\<lparr>wire := ks\<rparr>, (tab q)(f \<mapsto> k), [(f, k)]) else None
      | _ \<Rightarrow> None)"

text \<open>A worker that has closed its end can still handle an event for it; \<open>recvmsg\<close> fails then.\<close>

definition receives ::
  "int \<Rightarrow> epoll_event \<Rightarrow> inputs \<Rightarrow> wproc \<Rightarrow> net \<Rightarrow> (net \<times> (int \<rightharpoonup> nat) \<times> (int \<times> nat) list) option" where
  "receives fd0 ev I q N =
     (if data_fd (ev_data ev) \<noteq> fd0 then Some (N, tab q, [])
      else if pair_open q then deliver fd0 (in_rcv I) q N
      else case in_rcv I of RcvErr (EOTHER n) \<Rightarrow> Some (N, tab q, []) | _ \<Rightarrow> None)"

text \<open>
  The addresses of new blocks are not those of blocks in use (neither kind is
  ever freed), and their low halves are not the number of the pair.
\<close>

definition new_addresses :: "int \<Rightarrow> inputs \<Rightarrow> worker \<Rightarrow> bool" where
  "new_addresses fd0 I W \<longleftrightarrow> tcps W (in_tcp I) = None \<and> reqs W (in_tcp I) = None \<and>
     tcps W (in_req I) = None \<and> reqs W (in_req I) = None \<and>
     data_fd (in_tcp I) \<noteq> fd0 \<and> data_fd (in_req I) \<noteq> fd0"

text \<open>
  \<open>epoll_ctl\<close> adds only what is not in the interest list \<open>m\<close> and is open (\<open>t\<close> being
  the open connections), and modifies and deletes only what is in the list.
\<close>

definition honest :: "(int \<rightharpoonup> epoll_event) \<Rightarrow> (int \<rightharpoonup> nat) \<Rightarrow> (call \<times> sys_ret) list \<Rightarrow> bool" where
  "honest m t cs \<longleftrightarrow> (\<forall>p op f v. (CEpollCtl p op f, SysOk v) \<in> set cs \<longrightarrow>
     0 \<le> v \<and> (if op = EPOLL_CTL_ADD then m f = None \<and> t f \<noteq> None else m f \<noteq> None))"

definition closes :: "(call \<times> sys_ret) list \<Rightarrow> int \<Rightarrow> bool" where
  "closes cs f \<longleftrightarrow> list_ex (\<lambda>(c, _). c = CClose f) cs"

definition close_all :: "(call \<times> sys_ret) list \<Rightarrow> (int \<rightharpoonup> nat) \<Rightarrow> (int \<rightharpoonup> nat)" where
  "close_all cs t = (\<lambda>f. if closes cs f then None else t f)"

text \<open>A worker process after it has handled its first event; a \<open>break\<close> drops the others.\<close>

definition handled :: "int \<Rightarrow> wproc \<Rightarrow> (int \<rightharpoonup> nat) \<Rightarrow> worker \<Rightarrow> bool \<Rightarrow> wproc" where
  "handled fd0 q t W brk =
     (let cs = new_calls (kworld (prog q)) (kworld W) in
      \<lparr>prog = W, tab = close_all cs t, pending = (if brk then [] else tl (pending q)),
       pair_open = (pair_open q \<and> \<not> closes cs fd0)\<rparr>)"

text \<open>
  The main process handles a reported event; a worker fetches events, handles the
  first of them, or ends: because handling the event does not come to an end
  regularly (it has taken the message, though), or at any other moment, as when
  \<open>epoll_wait\<close> fails or a signal arrives.
\<close>

inductive sys_step :: "int \<Rightarrow> system \<Rightarrow> system \<Rightarrow> bool" for fd0 where
  main: "main_reports (s_main S) ev \<Longrightarrow>
    master_event ev ((s_main S)\<lparr>m_world := offer rs (m_world (s_main S))\<rparr>) = Inr M' \<Longrightarrow>
    net_run (s_net S) (new_calls (m_world (s_main S)) (m_world M')) = Some N' \<Longrightarrow>
    sys_step fd0 S (S\<lparr>s_main := M', s_net := N'\<rparr>)"
| wait: "s_workers S p = Some q \<Longrightarrow> pending q = [] \<Longrightarrow> \<forall>ev\<in>set evs. reported (prog q) ev \<Longrightarrow>
    sys_step fd0 S (S\<lparr>s_workers := (s_workers S)(p \<mapsto> q\<lparr>pending := evs\<rparr>)\<rparr>)"
| serve: "s_workers S p = Some q \<Longrightarrow> pending q = ev # evs \<Longrightarrow> new_addresses fd0 I (prog q) \<Longrightarrow>
    receives fd0 ev I q (s_net S) = Some (N', t, got) \<Longrightarrow>
    handle_event fd0 ev I ((prog q)\<lparr>kworld := offer rs (kworld (prog q))\<rparr>) = Some (Inr (W', brk)) \<Longrightarrow>
    honest (interest (prog q)) t (new_calls (kworld (prog q)) (kworld W')) \<Longrightarrow>
    sys_step fd0 S (S\<lparr>s_net := N', s_workers := (s_workers S)(p \<mapsto> handled fd0 q t W' brk),
      s_taken := s_taken S @ map (Pair p) got\<rparr>)"
| stop: "s_workers S p = Some q \<Longrightarrow> pending q = ev # evs \<Longrightarrow> new_addresses fd0 I (prog q) \<Longrightarrow>
    receives fd0 ev I q (s_net S) = Some (N', t, got) \<Longrightarrow>
    \<forall>out. handle_event fd0 ev I ((prog q)\<lparr>kworld := offer rs (kworld (prog q))\<rparr>) \<noteq> Some (Inr out) \<Longrightarrow>
    sys_step fd0 S (S\<lparr>s_net := N', s_workers := (s_workers S)(p := None),
      s_taken := s_taken S @ map (Pair p) got\<rparr>)"
| leave: "s_workers S p = Some q \<Longrightarrow> sys_step fd0 S (S\<lparr>s_workers := (s_workers S)(p := None)\<rparr>)"

inductive_cases sys_stepE: "sys_step fd0 S S'"

abbreviation sys_run :: "int \<Rightarrow> system \<Rightarrow> system \<Rightarrow> bool" where
  "sys_run fd0 \<equiv> (sys_step fd0)\<^sup>*\<^sup>*"

section \<open>The system implements the specification\<close>

definition net_view :: "nat list \<Rightarrow> net \<Rightarrow> dispatch" where
  "net_view d N = \<lparr>d_next = arrived N, d_refused = refused N, d_flight = wire N, d_delivered = d\<rparr>"

definition view :: "system \<Rightarrow> dispatch" where
  "view S = net_view (map (snd \<circ> snd) (s_taken S)) (s_net S)"

lemma net_accept_simulates: "net_accept N N' \<Longrightarrow> dispatch_step (net_view d N) (net_view d N')"
proof (induction rule: net_accept.induct)
  case (1 c N n r)
  from dispatch_step.arrive [OF 1(3,4), of "net_view d N"] show ?case by (simp add: net_view_def)
qed

lemma net_accepts_simulate: "net_accept\<^sup>*\<^sup>* N N' \<Longrightarrow> dispatch_step\<^sup>*\<^sup>* (net_view d N) (net_view d N')"
  by (induction rule: rtranclp_induct) (auto intro: rtranclp.rtrancl_into_rtrancl net_accept_simulates)

lemma master_event_net:
  assumes "master_event ev (M\<lparr>m_world := offer rs (m_world M)\<rparr>) = Inr M'" "net_run N (new_calls (m_world M) (m_world M')) = Some N'"
  shows "dispatch_step\<^sup>*\<^sup>* (net_view d N) (net_view d N')"
proof -
  from assms(1) consider n w where "accept_loop (m_listen M) (m_sock M) (m_buf M) (m_count M) (offer rs (m_world M)) = Inr (n, w)" "m_world M' = w"
    | p op f r where "trace (m_world M') = trace (m_world M) @ [(CEpollCtl p op f, r)]"
    | f r where "trace (m_world M') = trace (m_world M) @ [(CClose f, r)]"
    | "trace (m_world M') = trace (m_world M) @ []"
    by (auto simp: master_event_def bindE_eq_Inr Let_def Epoll_ctl_def sys_Inr unix_error_def split: if_splits)
  then show ?thesis
  proof cases
    case 1
    from accept_loop_run [OF 1(1)] 1(2) assms(2) have "net_accept\<^sup>*\<^sup>* N N'" by auto
    then show ?thesis by (rule net_accepts_simulate)
  qed (use assms(2) in \<open>auto simp: net_view_def split: if_splits\<close>)
qed

text \<open>A process that looks into the pair gets an error or takes the first message.\<close>

lemma deliver_cases:
  assumes "deliver fd0 r q N = Some (N', t, got)"
  obtains (fails) e where "r = RcvErr e" "N' = N" "t = tab q" "got = []"
  | (lost) d k ks where "r = RcvMsg d None" "wire N = k # ks" "N' = N\<lparr>wire := ks\<rparr>" "t = tab q" "got = [(- 1, k)]"
  | (takes) d c f k ks where "r = RcvMsg d (Some c)" "passes_fd c" "cmsg_data c = f" "0 \<le> f" "f \<noteq> fd0" "f \<noteq> epfd (prog q)"
      "tab q f = None" "wire N = k # ks" "N' = N\<lparr>wire := ks\<rparr>" "t = (tab q)(f \<mapsto> k)" "got = [(f, k)]"
proof (cases r)
  case (RcvErr e)
  with assms show ?thesis
    by (intro fails) (auto simp: deliver_def split: if_splits)
next
  case (RcvMsg d ctl)
  with assms obtain k ks where ks: "wire N = k # ks"
    by (cases ctl; cases "wire N") (simp_all add: deliver_def)
  show ?thesis
  proof (cases ctl)
    case None
    with assms RcvMsg ks show ?thesis by (intro lost [of d k ks]) (auto simp: deliver_def)
  next
    case (Some c)
    with assms RcvMsg ks have "passes_fd c" "0 \<le> cmsg_data c" "cmsg_data c \<noteq> fd0" "cmsg_data c \<noteq> epfd (prog q)"
      "tab q (cmsg_data c) = None" "N' = N\<lparr>wire := ks\<rparr>" "t = (tab q)(cmsg_data c \<mapsto> k)" "got = [(cmsg_data c, k)]"
      by (simp_all add: deliver_def Let_def split: if_splits)
    with RcvMsg Some ks show ?thesis by (intro takes) simp_all
  qed
qed

lemma receives_cases:
  assumes "receives fd0 ev I q N = Some (N', t, got)"
  obtains (other) "data_fd (ev_data ev) \<noteq> fd0" "N' = N" "t = tab q" "got = []"
  | (pair) "data_fd (ev_data ev) = fd0" "pair_open q" "deliver fd0 (in_rcv I) q N = Some (N', t, got)"
  | (closed) n where "data_fd (ev_data ev) = fd0" "\<not> pair_open q" "in_rcv I = RcvErr (EOTHER n)" "N' = N" "t = tab q" "got = []"
proof (cases "data_fd (ev_data ev) = fd0 \<and> \<not> pair_open q")
  case True
  with assms obtain n where "in_rcv I = RcvErr (EOTHER n)"
    by (cases "in_rcv I") (auto simp: receives_def split: errno.splits)
  with True assms show ?thesis by (intro closed) (simp_all add: receives_def)
qed (use assms other pair in \<open>auto simp: receives_def split: if_splits\<close>)

lemma deliver_simulates:
  assumes "receives fd0 ev I q N = Some (N', t, got)"
  shows "dispatch_step\<^sup>*\<^sup>* (net_view d N) (net_view (d @ map snd got) N')"
  using assms
proof (cases rule: receives_cases)
  case pair
  then consider "N' = N" "got = []" | k ks where "wire N = k # ks" "N' = N\<lparr>wire := ks\<rparr>" "map snd got = [k]"
    by (auto elim: deliver_cases)
  then show ?thesis
  proof cases
    case (2 k ks)
    then have "dispatch_step (net_view d N) (net_view (d @ map snd got) N')"
      using dispatch_step.deliver [of "net_view d N" k ks] by (simp add: net_view_def)
    then show ?thesis ..
  qed simp
qed simp_all

lemma sys_step_simulates: "sys_step fd0 S S' \<Longrightarrow> dispatch_step\<^sup>*\<^sup>* (view S) (view S')"
proof (induction rule: sys_step.induct)
  case (main S ev rs M' N')
  then show ?case by (simp add: view_def master_event_net)
next
  case (serve S p q ev I N' t got)
  from deliver_simulates [OF serve(4)] show ?case by (simp add: view_def comp_def)
next
  case (stop S p q ev I N' t got)
  from deliver_simulates [OF stop(4)] show ?case by (simp add: view_def comp_def)
qed (simp_all add: view_def)

interpretation server: dispatching "sys_step fd0" view for fd0
  by unfold_locales (rule sys_step_simulates)

text \<open>The descriptors installed for the messages \<open>got\<close>.\<close>

definition installed :: "(int \<times> nat) list \<Rightarrow> int set" where
  "installed got = {f\<in>fst ` set got. 0 \<le> f}"

lemma installed_Nil [simp]: "installed [] = {}"
  by (simp add: installed_def)

lemma got_ok:
  assumes "receives fd0 ev I q N = Some (N', t, got)"
  shows "installed got \<subseteq> {0..} - {fd0} \<and> main_tab N' = main_tab N \<and> arrived N' = arrived N"
  using assms by (cases rule: receives_cases) (auto simp: installed_def elim: deliver_cases)

lemma got_tab:
  assumes "receives fd0 ev I q N = Some (N', t, got)"
  shows "dom t = dom (tab q) \<union> installed got"
  using assms
proof (cases rule: receives_cases)
  case pair
  from pair(3) show ?thesis by (cases rule: deliver_cases) (auto simp: installed_def)
qed simp_all

lemma close_all_dom: "dom (close_all cs t) \<subseteq> dom t"
  by (auto simp: close_all_def split: if_splits)

section \<open>The main process\<close>

text \<open>
  The main process waits for the listening socket alone, has not freed its
  events, has counted the connections and holds exactly one descriptor for each.
\<close>

definition main_ok :: "master \<Rightarrow> net \<Rightarrow> bool" where
  "main_ok M N \<longleftrightarrow> \<not> m_freed M \<and> length (m_buf M) = 2 \<and> m_count M = arrived N \<and>
     (\<exists>reg. m_interest M = [m_listen M \<mapsto> reg] \<and> events reg = EPOLLIN \<and> data_fd (ev_data reg) = m_listen M) \<and>
     finite (dom (main_tab N)) \<and> card (dom (main_tab N)) = arrived N \<and> ran (main_tab N) = {..<arrived N}"

lemma net_accepts_tab:
  "net_accept\<^sup>*\<^sup>* N N' \<Longrightarrow> finite (dom (main_tab N)) \<Longrightarrow> card (dom (main_tab N)) = arrived N \<Longrightarrow>
   ran (main_tab N) = {..<arrived N} \<Longrightarrow>
   finite (dom (main_tab N')) \<and> card (dom (main_tab N')) = arrived N' \<and> ran (main_tab N') = {..<arrived N'} \<and>
   arrived N \<le> arrived N' \<and> main_tab N \<subseteq>\<^sub>m main_tab N'"
proof (induction rule: rtranclp_induct)
  case (step N1 N2)
  then obtain c n r where "main_tab N1 c = None"
    "N2 = N1\<lparr>main_tab := (main_tab N1)(c \<mapsto> arrived N1), arrived := Suc (arrived N1), refused := refused N1 + r,
      wire := wire N1 @ replicate n (arrived N1)\<rparr>" by (auto elim: net_accept.cases)
  then have "dom (main_tab N2) = insert c (dom (main_tab N1))" "ran (main_tab N2) = insert (arrived N1) (ran (main_tab N1))"
    "c \<notin> dom (main_tab N1)" "arrived N2 = Suc (arrived N1)" "main_tab N1 \<subseteq>\<^sub>m main_tab N2"
    by (auto simp: map_le_def ran_map_upd)
  with step show ?case by (auto simp: lessThan_Suc intro: map_le_trans)
qed (simp add: map_le_refl)

lemma main_reported:
  assumes "main_ok M N" "main_reports M ev"
  shows "data_fd (ev_data ev) = m_listen M"
proof -
  from assms(1) obtain reg where reg: "m_interest M = [m_listen M \<mapsto> reg]" "data_fd (ev_data reg) = m_listen M"
    unfolding main_ok_def by blast
  with assms(2) have "ev_data ev = ev_data reg"
    unfolding main_reports_def by (metis map_upd_Some_unfold option.distinct(1))
  with reg show ?thesis by simp
qed

lemma main_event:
  assumes ok: "main_ok M N" and rep: "main_reports M ev"
  shows "master_event ev (M\<lparr>m_world := w\<rparr>) =
    (if and (events ev) EPOLLERR \<noteq> 0 \<or> and (events ev) EPOLLHUP \<noteq> 0 then
       bindE (sys (CClose (m_listen M)) w) (\<lambda>_. unix_error)
     else bindE (accept_loop (m_listen M) (m_sock M) (m_buf M) (m_count M) w) (\<lambda>(n, w).
       Inr (M\<lparr>m_client := 0, m_count := n, m_world := w\<rparr>)))"
  using ok main_reported [OF assms] by (simp add: master_event_def main_ok_def)

lemma main_ok_step:
  assumes "main_ok M N" "main_reports M ev" "master_event ev (M\<lparr>m_world := offer rs (m_world M)\<rparr>) = Inr M'"
    "net_run N (new_calls (m_world M) (m_world M')) = Some N'"
  shows "main_ok M' N' \<and> arrived N \<le> arrived N' \<and> main_tab N \<subseteq>\<^sub>m main_tab N' \<and> m_listen M' = m_listen M"
proof -
  from assms(3) obtain n w where loop: "accept_loop (m_listen M) (m_sock M) (m_buf M) (m_count M) (offer rs (m_world M)) = Inr (n, w)"
    and M': "M' = M\<lparr>m_client := 0, m_count := n, m_world := w\<rparr>"
    unfolding main_event [OF assms(1,2)] by (auto simp: bindE_eq_Inr unix_error_def split: if_splits)
  from accept_loop_run [OF loop] assms(4) M' have acc: "net_accept\<^sup>*\<^sup>* N N'" "n - m_count M = arrived N' - arrived N" "m_count M \<le> n"
    by auto
  with net_accepts_tab [OF acc(1)] assms(1) M' show ?thesis by (auto simp: main_ok_def)
qed

section \<open>A worker\<close>

text \<open>
  The entries of the interest list: the pair, a connection whose descriptor
  (one of the numbers \<open>F\<close>) was received, waiting for input, or a request
  waiting for output.
\<close>

definition sys_entry :: "int \<Rightarrow> int set \<Rightarrow> worker \<Rightarrow> int \<Rightarrow> epoll_event \<Rightarrow> bool" where
  "sys_entry fd0 F W f reg \<longleftrightarrow> (if data_fd (ev_data reg) = fd0 then f = fd0 else
     f \<in> F \<and> events reg = EPOLLIN \<and> map_option fd (tcps W (ev_data reg)) = Some f \<or>
     events reg = EPOLLOUT \<and> reqs W (ev_data reg) \<noteq> None)"

text \<open>An event fetched: input for a connection whose descriptor was received, or output for a request.\<close>

definition sys_event :: "int \<Rightarrow> int set \<Rightarrow> worker \<Rightarrow> epoll_event \<Rightarrow> bool" where
  "sys_event fd0 F W ev \<longleftrightarrow> data_fd (ev_data ev) = fd0 \<or>
     (and (events ev) EPOLLIN \<noteq> 0 \<longrightarrow> (\<exists>f\<in>F. map_option fd (tcps W (ev_data ev)) = Some f)) \<and>
     (and (events ev) EPOLLOUT \<noteq> 0 \<longrightarrow> reqs W (ev_data ev) \<noteq> None)"

definition worker_ok :: "int \<Rightarrow> int set \<Rightarrow> epoll_event list \<Rightarrow> worker \<Rightarrow> bool" where
  "worker_ok fd0 F evs W \<longleftrightarrow> dom (interest W) \<subseteq> insert fd0 F \<and>
     (\<forall>f reg. interest W f = Some reg \<longrightarrow> sys_entry fd0 F W f reg) \<and> (\<forall>ev\<in>set evs. sys_event fd0 F W ev)"

lemma worker_ok_fewer: "worker_ok fd0 F evs W \<Longrightarrow> set evs' \<subseteq> set evs \<Longrightarrow> worker_ok fd0 F evs' W"
  by (auto simp: worker_ok_def)

lemma reported_sys_event:
  assumes "worker_ok fd0 F evs W" "reported W ev"
  shows "sys_event fd0 F W ev"
proof -
  from assms(2) obtain f reg where reg: "interest W f = Some reg" "ev_data ev = ev_data reg"
      "and (events ev) EPOLLIN \<noteq> 0 \<longrightarrow> and (events reg) EPOLLIN \<noteq> 0"
      "and (events ev) EPOLLOUT \<noteq> 0 \<longrightarrow> and (events reg) EPOLLOUT \<noteq> 0"
    unfolding reported_def by blast
  with assms(1) have "sys_entry fd0 F W f reg" by (simp add: worker_ok_def)
  with reg show ?thesis by (auto simp: sys_entry_def sys_event_def EPOLLIN_def EPOLLOUT_def split: if_splits)
qed

lemma worker_ok_grows:
  assumes "worker_ok fd0 F evs W" "F \<subseteq> F'" "dom (interest W') \<subseteq> insert fd0 F'"
    and "\<And>a tcp. tcps W a = Some tcp \<Longrightarrow> map_option fd (tcps W' a) = Some (fd tcp)" "dom (reqs W) \<subseteq> dom (reqs W')"
    and "\<And>f reg. interest W' f = Some reg \<Longrightarrow> interest W f = Some reg \<or> sys_entry fd0 F' W' f reg"
  shows "worker_ok fd0 F' evs W'"
proof -
  have "sys_entry fd0 F' W' f reg" if "interest W f = Some reg" for f reg
  proof -
    from that assms(1) have e: "sys_entry fd0 F W f reg" by (simp add: worker_ok_def)
    moreover have "map_option fd (tcps W' (ev_data reg)) = Some f" if "map_option fd (tcps W (ev_data reg)) = Some f"
      using that assms(4) by auto
    ultimately show ?thesis using assms(2,5) by (auto simp: sys_entry_def split: if_splits)
  qed
  moreover have "sys_event fd0 F' W' ev" if "sys_event fd0 F W ev" for ev
    using that assms(2,4,5) by (fastforce simp: sys_event_def)
  ultimately show ?thesis using assms(1,3,6) unfolding worker_ok_def by blast
qed

lemma worker_ok_same:
  assumes "worker_ok fd0 F evs W" "interest W' = interest W" "tcps W' = tcps W" "reqs W' = reqs W"
  shows "worker_ok fd0 F evs W'"
proof -
  have "sys_entry fd0 F W' f reg = sys_entry fd0 F W f reg" for f reg
    by (simp add: sys_entry_def assms(3,4))
  moreover have "sys_event fd0 F W' ev = sys_event fd0 F W ev" for ev
    by (simp add: sys_event_def assms(3,4))
  ultimately show ?thesis using assms(1,2) by (simp add: worker_ok_def)
qed

lemma ctl_effect:
  assumes "ctl op f ev W = Inr W'"
  obtains r where "trace (kworld W') = trace (kworld W) @ [(CEpollCtl (epfd W) op f, r)]"
    "interest W' = epoll_apply op f ev (sys_val r) (interest W)"
    "tcps W' = tcps W" "reqs W' = reqs W" "clientfd W' = clientfd W" "epfd W' = epfd W" "sent W' = sent W"
  using assms by (auto simp: ctl_def Epoll_ctl_def bindE_eq_Inr sys_Inr split: if_splits)

lemma close_fd_effect:
  assumes "close_fd f W = Inr W'"
  obtains r where "trace (kworld W') = trace (kworld W) @ [(CClose f, r)]"
    "interest W' = interest W" "tcps W' = tcps W" "reqs W' = reqs W" "clientfd W' = clientfd W" "epfd W' = epfd W"
  using assms by (auto simp: close_fd_def bindE_eq_Inr sys_Inr)

text \<open>An honest \<open>epoll_ctl\<close> that modifies or deletes adds no descriptor.\<close>

lemma epoll_apply_entry:
  assumes "epoll_apply op f ev (sys_val r) m g = Some reg"
  shows "m g = Some reg \<or> g = f \<and> reg = ev \<and> op \<noteq> EPOLL_CTL_DEL \<and> (\<exists>v. r = SysOk v)"
  using assms by (cases r) (auto simp: epoll_apply_def split: if_splits)

lemma http_tcp_alloc_fd: "http_tcp_alloc b1 b2 b3 b4 c = Some tcp \<Longrightarrow> fd tcp = c"
  by (auto simp: http_tcp_alloc_def split: option.splits)

lemma Setnoblock_trace: "Setnoblock f b w = Inr (r, w') \<Longrightarrow> \<exists>cs. trace w' = trace w @ cs"
  by (auto simp: Setnoblock_def bindE_eq_Inr sys_Inr unix_error_def split: if_splits)

text \<open>What a new client adds is open.\<close>

lemma new_client_worker_ok:
  assumes ok: "worker_ok fd0 F evs W" and new: "new_addresses fd0 I W" and F': "F \<subseteq> F'" "dom t \<subseteq> F'"
    and run: "new_client I (W\<lparr>kworld := offer rs (kworld W)\<rparr>) = Inr (W', brk)"
    and h: "honest (interest W) t (new_calls (kworld W) (kworld W'))"
  shows "worker_ok fd0 F' evs W'"
  using run
proof (cases rule: new_client_cases)
  case broken
  then show ?thesis
    using ok F' by (intro worker_ok_grows [OF ok]) (auto simp: worker_ok_def)
next
  case (added f tcp s k)
  from Setnoblock_trace [OF added(2)] obtain cs where cs: "trace k = trace (kworld W) @ cs" by auto
  have tcp: "fd tcp = f" using added(1) http_tcp_alloc_fd by (cases "in_blocks I") simp
  from ctl_effect [OF added(3)] cs obtain r where
    calls: "trace (kworld W') = trace (kworld W) @ cs @ [(CEpollCtl (epfd W) EPOLL_CTL_ADD f, r)]"
    and i: "interest W' = epoll_apply EPOLL_CTL_ADD f \<lparr>events = EPOLLIN, ev_data = in_tcp I\<rparr> (sys_val r) (interest W)"
    and m: "tcps W' = (tcps W)(in_tcp I \<mapsto> tcp)" "reqs W' = reqs W" by auto
  have f: "f \<in> F'" if "r = SysOk v" for v
  proof -
    have "(CEpollCtl (epfd W) EPOLL_CTL_ADD f, SysOk v) \<in> set (new_calls (kworld W) (kworld W'))"
      using calls that by simp
    with h have "f \<in> dom t" unfolding honest_def by fastforce
    with F'(2) show ?thesis by blast
  qed
  show ?thesis
  proof (rule worker_ok_grows [OF ok F'(1)])
    show "dom (interest W') \<subseteq> insert fd0 F'"
      using ok f F'(1) by (auto simp: i worker_ok_def dest!: epoll_apply_entry)
    show "interest W f' = Some reg \<or> sys_entry fd0 F' W' f' reg" if "interest W' f' = Some reg" for f' reg
      using epoll_apply_entry [OF that [unfolded i]] f m tcp new
      by (auto simp: sys_entry_def new_addresses_def)
    show "map_option fd (tcps W' a) = Some (fd tcp')" if "tcps W a = Some tcp'" for a tcp'
      using that new by (auto simp: m new_addresses_def)
  qed (auto simp: m)
qed

lemma honest_ctl:
  assumes "honest m t cs" "(CEpollCtl p op f, SysOk v) \<in> set cs" "op \<noteq> EPOLL_CTL_ADD"
  shows "f \<in> dom m"
  using assms unfolding honest_def by (metis domIff)

lemma readable_worker_ok:
  assumes ok: "worker_ok fd0 F evs W" and new: "new_addresses fd0 I W"
    and run: "client_readable ev I (W\<lparr>kworld := offer rs (kworld W)\<rparr>) = Inr (W', brk)" and h: "honest (interest W) t (new_calls (kworld W) (kworld W'))"
  shows "worker_ok fd0 F evs W'"
proof -
  from run obtain tcp req ctx b rest where tcp: "tcps W (ev_data ev) = Some tcp"
    and cb: "tcp_callback tcp (http_contxt tcp) onRecv (in_reads I) (tcp_buf tcp) READ_COUNT = Inr (req, ctx, b, rest)"
    by (auto simp: client_readable_def bindE_eq_Inr split: option.splits)
  define Wc where "Wc = W\<lparr>kworld := offer rs (kworld W), tcps := (tcps W)(ev_data ev \<mapsto> tcp\<lparr>http_contxt := ctx, tcp_buf := Some b\<rparr>)\<rparr>"
  have mono: "map_option fd (tcps Wc a) = Some (fd tcp')" if "tcps W a = Some tcp'" for a tcp'
    using that tcp by (auto simp: Wc_def)
  show ?thesis
  proof (cases req)
    case None
    with run tcp cb have "W' = Wc" by (simp add: client_readable_def Let_def Wc_def)
    with ok mono show ?thesis
      by (intro worker_ok_grows [OF ok]) (auto simp: Wc_def worker_ok_def)
  next
    case (Some h')
    with run tcp cb have add: "ctl EPOLL_CTL_MOD (clientfd W) \<lparr>events = EPOLLOUT, ev_data = in_req I\<rparr>
        (Wc\<lparr>reqs := (reqs W)(in_req I \<mapsto> h')\<rparr>) = Inr W'"
      by (auto simp: client_readable_def Let_def Wc_def bindE_eq_Inr)
    from ctl_effect [OF add] obtain r where t: "trace (kworld W') = trace (kworld W) @ [(CEpollCtl (epfd W) EPOLL_CTL_MOD (clientfd W), r)]"
      and i: "interest W' = epoll_apply EPOLL_CTL_MOD (clientfd W) \<lparr>events = EPOLLOUT, ev_data = in_req I\<rparr> (sys_val r) (interest W)"
      and m: "tcps W' = tcps Wc" "reqs W' = (reqs W)(in_req I \<mapsto> h')" by (auto simp: Wc_def)
    have known: "clientfd W \<in> dom (interest W)" if "r = SysOk v" for v
      using honest_ctl [OF h] t that by (auto simp: EPOLL_CTL_MOD_def EPOLL_CTL_ADD_def)
    show ?thesis
    proof (rule worker_ok_grows [OF ok order.refl])
      show "dom (interest W') \<subseteq> insert fd0 F"
        using ok known by (auto simp: i worker_ok_def dest!: epoll_apply_entry)
      show "interest W f = Some reg \<or> sys_entry fd0 F W' f reg" if "interest W' f = Some reg" for f reg
        using epoll_apply_entry [OF that [unfolded i]] new m by (auto simp: sys_entry_def new_addresses_def)
    qed (auto simp: m mono)
  qed
qed

lemma deleted_worker_ok:
  assumes ok: "worker_ok fd0 F evs W" and d: "ctl EPOLL_CTL_DEL f ev W = Inr W1" "close_fd f' W1 = Inr W'"
  shows "worker_ok fd0 F evs W'"
proof -
  from ctl_effect [OF d(1)] close_fd_effect [OF d(2)] obtain r where
    i: "interest W' = epoll_apply EPOLL_CTL_DEL f ev (sys_val r) (interest W)" and m: "tcps W' = tcps W" "reqs W' = reqs W"
    by metis
  show ?thesis
    using ok by (intro worker_ok_grows [OF ok order.refl]) (auto simp: i m worker_ok_def dest!: epoll_apply_entry)
qed

lemma handle_event_worker_ok:
  assumes ok: "worker_ok fd0 F evs (prog q)" and new: "new_addresses fd0 I (prog q)" and tab: "dom (tab q) \<subseteq> F"
    and rcv: "receives fd0 ev I q N = Some (N', t, got)"
    and run: "handle_event fd0 ev I ((prog q)\<lparr>kworld := offer rs (kworld (prog q))\<rparr>) = Some (Inr (W', brk))"
    and h: "honest (interest (prog q)) t (new_calls (kworld (prog q)) (kworld W'))"
  shows "worker_ok fd0 (F \<union> installed got) evs W'"
proof (cases "data_fd (ev_data ev) = fd0")
  case True
  with run have "new_client I ((prog q)\<lparr>kworld := offer rs (kworld (prog q))\<rparr>) = Inr (W', brk)"
    by (simp add: handle_event_def)
  then show ?thesis
    using got_tab [OF rcv] tab h by (intro new_client_worker_ok [OF ok new]) auto
next
  case other: False
  have "worker_ok fd0 F evs W'"
  proof (cases "and (events ev) EPOLLIN \<noteq> 0")
    case True
    with run other have "client_readable ev I ((prog q)\<lparr>kworld := offer rs (kworld (prog q))\<rparr>) = Inr (W', brk)"
      by (simp add: handle_event_def)
    from readable_worker_ok [OF ok new this h] show ?thesis .
  next
    case False
    from run other False obtain V f e W1 where "ctl EPOLL_CTL_DEL f e V = Inr W1" "close_fd f W1 = Inr W'"
      and same: "interest V = interest (prog q)" "tcps V = tcps (prog q)" "reqs V = reqs (prog q)"
      by (cases "and (events ev) EPOLLOUT \<noteq> 0")
        (auto simp: handle_event_def client_writable_def Let_def bindE_eq_Inr split: option.splits sum.splits)
    moreover have "worker_ok fd0 F evs V" using ok same by (rule worker_ok_same)
    ultimately show ?thesis by (blast intro: deleted_worker_ok)
  qed
  then show ?thesis using other rcv by (simp add: receives_def)
qed

section \<open>Reachable systems\<close>

definition fds_of :: "int \<Rightarrow> system \<Rightarrow> int set" where
  "fds_of p S = {f. 0 \<le> f \<and> (\<exists>k. (p, f, k) \<in> set (s_taken S))}"

definition proc_ok :: "int \<Rightarrow> int set \<Rightarrow> wproc \<Rightarrow> bool" where
  "proc_ok fd0 F q \<longleftrightarrow> worker_ok fd0 F (pending q) (prog q) \<and> dom (tab q) \<subseteq> F"

definition sys_ok :: "int \<Rightarrow> system \<Rightarrow> bool" where
  "sys_ok fd0 S \<longleftrightarrow> main_ok (s_main S) (s_net S) \<and> dispatch_ok (view S) \<and>
     (\<forall>p q. s_workers S p = Some q \<longrightarrow> proc_ok fd0 (fds_of p S) q) \<and>
     (\<forall>p. fds_of p S \<subseteq> {0..} - {fd0})"

text \<open>The system when \<open>start\<close> and the workers have entered their loops.\<close>

definition booted :: "int \<Rightarrow> system \<Rightarrow> bool" where
  "booted fd0 S \<longleftrightarrow> main_ok (s_main S) empty_net \<and> s_net S = empty_net \<and> s_taken S = [] \<and>
     (\<forall>p q. s_workers S p = Some q \<longrightarrow> tab q = Map.empty \<and> pending q = [] \<and> pair_open q \<and>
       tcps (prog q) = Map.empty \<and> reqs (prog q) = Map.empty \<and> sent (prog q) = [] \<and>
       (\<exists>reg. interest (prog q) = [fd0 \<mapsto> reg] \<and> events reg = EPOLLIN \<and> data_fd (ev_data reg) = fd0))"

lemma booted_ok: "booted fd0 S \<Longrightarrow> sys_ok fd0 S"
  by (fastforce simp: booted_def sys_ok_def proc_ok_def dispatch_ok_def view_def net_view_def empty_net_def worker_ok_def sys_entry_def
      fds_of_def split: if_splits)

lemma fds_of_snoc:
  "s_taken S' = s_taken S @ map (Pair p) got \<Longrightarrow> fds_of r S' = (if r = p then fds_of p S \<union> installed got else fds_of r S)"
  by (force simp: fds_of_def installed_def)

lemma main_ok_same: "main_ok M N \<Longrightarrow> main_tab N' = main_tab N \<Longrightarrow> arrived N' = arrived N \<Longrightarrow> main_ok M N'"
  by (simp add: main_ok_def)

text \<open>A step of the worker \<open>p\<close>, which takes the messages \<open>got\<close>.\<close>

lemma worker_step_ok:
  assumes ok: "sys_ok fd0 S" and d: "dispatch_ok (view S')"
    and same: "s_main S' = s_main S" "main_tab (s_net S') = main_tab (s_net S)" "arrived (s_net S') = arrived (s_net S)"
    and taken: "s_taken S' = s_taken S @ map (Pair p) got" "installed got \<subseteq> {0..} - {fd0}"
    and w: "s_workers S' = (s_workers S)(p := x)" "\<And>q. x = Some q \<Longrightarrow> proc_ok fd0 (fds_of p S \<union> installed got) q"
  shows "sys_ok fd0 S'"
proof -
  note F = fds_of_snoc [OF taken(1)]
  from ok same have "main_ok (s_main S') (s_net S')" by (auto simp: sys_ok_def intro: main_ok_same)
  moreover have "proc_ok fd0 (fds_of r S') q" if "s_workers S' r = Some q" for r q
    using that ok w F [of r] by (cases "r = p") (simp_all add: sys_ok_def)
  moreover have "fds_of r S' \<subseteq> {0..} - {fd0}" for r
    using ok taken(2) F [of r] by (auto simp: sys_ok_def)
  ultimately show ?thesis using d by (simp add: sys_ok_def)
qed

lemma sys_step_ok: "sys_step fd0 S S' \<Longrightarrow> sys_ok fd0 S \<Longrightarrow> sys_ok fd0 S'"
proof -
  assume step: "sys_step fd0 S S'" and ok: "sys_ok fd0 S"
  have d: "dispatch_ok (view S')"
    using server.run_ok [OF r_into_rtranclp [of "sys_step fd0", OF step]] ok by (simp add: sys_ok_def)
  have proc: "proc_ok fd0 (fds_of p S) q" if "s_workers S p = Some q" for p q
    using ok that by (simp add: sys_ok_def)
  from step show "sys_ok fd0 S'"
  proof cases
    case (main ev rs M' N')
    from main_ok_step [OF _ main(2-4)] ok have "main_ok M' N'" by (simp add: sys_ok_def)
    with ok d main(1) show ?thesis by (simp add: sys_ok_def fds_of_def)
  next
    case (wait p q evs)
    from proc [OF wait(2)] wait(4) have "proc_ok fd0 (fds_of p S) (q\<lparr>pending := evs\<rparr>)"
      using reported_sys_event by (auto simp: proc_ok_def worker_ok_def)
    with wait(1) show ?thesis by (intro worker_step_ok [OF ok d, of p "[]"]) auto
  next
    case (serve p q ev evs I N' t got rs W' brk)
    note got = got_ok [OF serve(5)] and t = got_tab [OF serve(5)]
    from proc [OF serve(2)] have q: "worker_ok fd0 (fds_of p S) (pending q) (prog q)" "dom (tab q) \<subseteq> fds_of p S"
      by (simp_all add: proc_ok_def)
    have "worker_ok fd0 (fds_of p S \<union> installed got) (if brk then [] else tl (pending q)) W'"
      using handle_event_worker_ok [OF q(1) serve(4) q(2) serve(5-7)] by (rule worker_ok_fewer) (auto simp: serve(3))
    moreover have "dom (close_all cs t) \<subseteq> fds_of p S \<union> installed got" for cs
      using close_all_dom [of cs t] t q(2) by blast
    ultimately have "proc_ok fd0 (fds_of p S \<union> installed got) (handled fd0 q t W' brk)"
      by (simp add: proc_ok_def handled_def Let_def)
    with serve(1) got show ?thesis by (intro worker_step_ok [OF ok d, of p got]) auto
  next
    case (stop p q ev evs I N' t got rs)
    with got_ok [OF stop(5)] show ?thesis by (intro worker_step_ok [OF ok d, of p got]) auto
  next
    case (leave p q)
    then show ?thesis by (intro worker_step_ok [OF ok d, of p "[]"]) auto
  qed
qed

lemma sys_run_ok: "sys_run fd0 S S' \<Longrightarrow> sys_ok fd0 S \<Longrightarrow> sys_ok fd0 S'"
  by (induction rule: rtranclp_induct) (auto intro: sys_step_ok)

text \<open>A property of worker programs that handling events preserves holds in every run.\<close>

lemma prog_invariant_run:
  assumes "sys_run fd0 S S'" "\<forall>q\<in>ran (s_workers S). P (prog q)"
    and keeps: "\<And>ev I W k W' brk. handle_event fd0 ev I (W\<lparr>kworld := k\<rparr>) = Some (Inr (W', brk)) \<Longrightarrow> P W \<Longrightarrow> P W'"
  shows "\<forall>q\<in>ran (s_workers S'). P (prog q)"
  using assms(1,2)
proof (induction rule: rtranclp_induct)
  case (step S1 S2)
  then have IH: "\<forall>q\<in>ran (s_workers S1). P (prog q)" by blast
  from step.hyps(2) show ?case
  proof cases
    case (serve p q ev evs I N' t got rs W' brk)
    then have "P W'" using IH keeps [OF serve(6)] by (auto simp: ran_def)
    with serve(1) IH show ?thesis by (auto simp: ran_def handled_def Let_def)
  qed (use IH in \<open>auto simp: ran_def split: if_splits\<close>)
qed

lemma gone_run: "sys_run fd0 S S' \<Longrightarrow> s_workers S p = None \<Longrightarrow> s_workers S' p = None"
  by (induction rule: rtranclp_induct) (auto elim!: sys_stepE split: if_splits)

end
