(* ===== verification/Server_Runs.thy ===== *)
theory Server_Runs
  imports Server_System
begin

text \<open>
  What holds in every run of the whole server: the messages for connections reach the
  workers in order and none is lost, a worker reads only from connections that were handed
  to it, the main process never faults but keeps every descriptor open, and
  what happens when a worker finds the pair empty or a client's connection
  breaks.
\<close>

section \<open>A sample run\<close>

definition sample_reg :: "int \<Rightarrow> epoll_event" where
  "sample_reg f = \<lparr>events = EPOLLIN, ev_data = set_data_fd 0 f\<rparr>"

definition sample_system :: system where
  "sample_system = \<lparr>s_main = sample_master\<lparr>m_interest := [3 \<mapsto> sample_reg 3]\<rparr>, s_net = empty_net,
     s_workers = [101 \<mapsto> \<lparr>prog = (sample_worker [])\<lparr>interest := [6 \<mapsto> sample_reg 6]\<rparr>,
       tab = Map.empty, pending = [], pair_open = True\<rparr>], s_taken = []\<rparr>"

lemma sample_reg_fd: "0 \<le> f \<Longrightarrow> f < 100 \<Longrightarrow> data_fd (ev_data (sample_reg f)) = f"
  by (simp add: sample_reg_def data_fd_set_data_fd)

lemma sample_reg_events [simp]: "events (sample_reg f) = EPOLLIN"
  by (simp add: sample_reg_def)

lemma sample_booted: "booted 6 sample_system"
proof -
  have "main_ok (s_main sample_system) empty_net"
    unfolding main_ok_def
    by (intro conjI exI [of _ "sample_reg 3"])
      (simp_all add: sample_system_def sample_master_def empty_net_def sample_reg_fd lessThan_def)
  then show ?thesis
    by (simp add: booted_def) (auto simp: sample_system_def sample_worker_def sample_reg_fd intro!: exI [of _ "sample_reg 6"])
qed

text \<open>The main process accepts a connection; the first send fails, so two messages carry it.\<close>

definition accepted_system :: system where
  "accepted_system = sample_system\<lparr>
     s_main := (s_main sample_system)\<lparr>m_count := 1, m_world := \<lparr>outcomes = [], trace = [(CAccept 3, SysOk 8),
       (CSendmsg 7 8, SysErr EAGAIN), (CSendmsg 7 8, SysOk 2), (CSendmsg 7 8, SysOk 2), (CAccept 3, SysErr EAGAIN)]\<rparr>\<rparr>,
     s_net := \<lparr>main_tab = [8 \<mapsto> 0], arrived = 1, refused = 1, wire = [0, 0]\<rparr>\<rparr>"

lemma accepted_step: "sys_step 6 sample_system accepted_system"
proof -
  let ?M = "s_main sample_system"
  let ?rs = "[SysOk 8, SysErr EAGAIN, SysOk 2, SysOk 2, SysErr EAGAIN]"
  have rep: "main_reports ?M (sample_reg 3)"
    by (auto simp: main_reports_def sample_system_def)
  have loop: "hand_over_loop 7 ''ab'' 8 \<lparr>outcomes = [SysErr EAGAIN, SysOk 2, SysOk 2, SysErr EAGAIN], trace = [(CAccept 3, SysOk 8)]\<rparr>
     = Inr \<lparr>outcomes = [SysErr EAGAIN], trace = [(CAccept 3, SysOk 8), (CSendmsg 7 8, SysErr EAGAIN), (CSendmsg 7 8, SysOk 2), (CSendmsg 7 8, SysOk 2)]\<rparr>"
    by (simp add: hand_over_loop.simps [of _ _ _ "world.make _ _", unfolded world.make_def] hand_over_eq)
  have ev: "master_event (sample_reg 3) (?M\<lparr>m_world := offer ?rs (m_world ?M)\<rparr>) = Inr (s_main accepted_system)"
    by (simp add: master_event_def sample_reg_fd accepted_system_def sample_system_def sample_master_def
        accept_loop.simps [of _ _ _ _ "world.make _ _", unfolded world.make_def] Accept_def loop)
      (simp add: sample_reg_def EPOLLIN_def EPOLLERR_def EPOLLHUP_def)
  have "sys_step 6 sample_system (sample_system\<lparr>s_main := s_main accepted_system, s_net := s_net accepted_system\<rparr>)"
    using rep ev by (rule sys_step.main)
      (simp add: accepted_system_def sample_system_def empty_net_def new_calls_def sample_master_def)
  then show ?thesis by (simp add: accepted_system_def)
qed

text \<open>A worker fetches one event and handles it.\<close>

lemma receives_pending [simp]: "receives fd0 ev I (q\<lparr>pending := evs\<rparr>) N = receives fd0 ev I q N"
proof -
  have "tab (q\<lparr>pending := evs\<rparr>) = tab q" "pair_open (q\<lparr>pending := evs\<rparr>) = pair_open q" "prog (q\<lparr>pending := evs\<rparr>) = prog q"
    by simp_all
  then show ?thesis by (simp only: receives_def deliver_def)
qed

lemma fetch_and_serve:
  assumes "s_workers S p = Some q" "pending q = []" "reported (prog q) ev" "new_addresses fd0 I (prog q)"
    "receives fd0 ev I q (s_net S) = Some (N', t, got)"
    "handle_event fd0 ev I ((prog q)\<lparr>kworld := offer rs (kworld (prog q))\<rparr>) = Some (Inr (W', brk))"
    "honest (interest (prog q)) t (new_calls (kworld (prog q)) (kworld W'))"
  shows "sys_run fd0 S (S\<lparr>s_net := N', s_workers := (s_workers S)(p \<mapsto> handled fd0 q t W' True),
    s_taken := s_taken S @ map (Pair p) got\<rparr>)"
proof -
  let ?q = "q\<lparr>pending := [ev]\<rparr>"
  let ?S = "S\<lparr>s_workers := (s_workers S)(p \<mapsto> ?q)\<rparr>"
  have "sys_step fd0 S ?S" using assms(1-3) by (intro sys_step.wait) simp_all
  moreover have "sys_step fd0 ?S (?S\<lparr>s_net := N', s_workers := (s_workers ?S)(p \<mapsto> handled fd0 ?q t W' brk),
      s_taken := s_taken ?S @ map (Pair p) got\<rparr>)"
    using assms by (intro sys_step.serve [where q = ?q and ev = ev]) simp_all
  moreover have "handled fd0 ?q t W' brk = handled fd0 q t W' True" by (simp add: handled_def)
  ultimately show ?thesis by (simp add: converse_rtranclp_into_rtranclp r_into_rtranclp)
qed

text \<open>The worker receives the first of the two messages and registers the connection.\<close>

lemma empty_buffer: "replicate BUFSIZE NUL = NUL # replicate (BUFSIZE - 1) NUL"
  by (metis BUFSIZE_def One_nat_def Suc_pred replicate_Suc zero_less_numeral)

lemma taken_step:
  "\<exists>S q tcp. sys_run 6 accepted_system S \<and> s_taken S = [(101, 9, 0)] \<and>
     s_net S = \<lparr>main_tab = [8 \<mapsto> 0], arrived = 1, refused = 1, wire = [0]\<rparr> \<and>
     s_main S = s_main accepted_system \<and> s_workers S = [101 \<mapsto> q] \<and> pending q = [] \<and> pair_open q \<and>
     interest (prog q) = [6 \<mapsto> sample_reg 6, 9 \<mapsto> \<lparr>events = EPOLLIN, ev_data = 0x55550010\<rparr>] \<and>
     tcps (prog q) = [0x55550010 \<mapsto> tcp] \<and> tcp = client_8\<lparr>fd := 9\<rparr> \<and> reqs (prog q) = Map.empty \<and> clientfd (prog q) = 9 \<and> sent (prog q) = []"
proof -
  let ?W = "(sample_worker [])\<lparr>interest := [6 \<mapsto> sample_reg 6]\<rparr>"
  let ?q = "\<lparr>prog = ?W, tab = Map.empty, pending = [], pair_open = True\<rparr>"
  have w: "s_workers accepted_system 101 = Some ?q" by (simp add: accepted_system_def sample_system_def)
  have rep: "reported (prog ?q) (sample_reg 6)" by (auto simp: reported_def)
  have new: "new_addresses 6 sample_inputs (prog ?q)"
    by (simp add: new_addresses_def sample_worker_def sample_inputs_def data_fd_def)
  have rcv: "receives 6 (sample_reg 6) sample_inputs ?q (s_net accepted_system) =
      Some (\<lparr>main_tab = [8 \<mapsto> 0], arrived = 1, refused = 1, wire = [0]\<rparr>, [9 \<mapsto> 0], [(9, 0)])"
    by (simp add: receives_def sample_reg_fd deliver_def accepted_system_def sample_inputs_def passes_fd_def sample_worker_def Let_def)
  obtain W' tcp where run: "handle_event 6 (sample_reg 6) sample_inputs ((prog ?q)\<lparr>kworld := offer [SysOk 2, SysOk 0, SysOk 0] (kworld (prog ?q))\<rparr>)
      = Some (Inr (W', False))"
    and W': "trace (kworld W') = [(CFcntlGet 9, SysOk 2), (CFcntlSet 9 (or 2 O_NONBLOCK), SysOk 0), (CEpollCtl 4 EPOLL_CTL_ADD 9, SysOk 0)]"
      "interest W' = [6 \<mapsto> sample_reg 6, 9 \<mapsto> \<lparr>events = EPOLLIN, ev_data = 0x55550010\<rparr>]"
      "tcps W' = [0x55550010 \<mapsto> tcp]" "tcp = client_8\<lparr>fd := 9\<rparr>" "reqs W' = Map.empty" "clientfd W' = 9" "sent W' = []"
    by (simp add: handle_event_def sample_reg_fd new_client_def Sock_fd_read_def Let_def http_tcp_alloc_def
        alloc_http_context_def Setnoblock_def ctl_simps epoll_apply_def EPOLL_CTL_ADD_def EPOLL_CTL_DEL_def
        sample_inputs_def sample_worker_def client_8_def empty_buffer)
  have calls: "new_calls (kworld (prog ?q)) (kworld W') = trace (kworld W')"
    by (simp add: new_calls_def sample_worker_def)
  have "honest (interest (prog ?q)) [9 \<mapsto> 0] (new_calls (kworld (prog ?q)) (kworld W'))"
    unfolding calls by (simp add: honest_def W')
  from fetch_and_serve [OF w _ rep new rcv run this] W' calls show ?thesis
    by (intro exI [of _ "accepted_system\<lparr>s_net := _, s_workers := _, s_taken := _\<rparr>"] exI [of _ "handled 6 ?q [9 \<mapsto> 0] W' True"]
        exI [of _ tcp]) (simp add: accepted_system_def sample_system_def handled_def closes_def)
qed

lemma sample_run:
  "\<exists>S q tcp. sys_run 6 sample_system S \<and> s_taken S = [(101, 9, 0)] \<and>
     s_net S = \<lparr>main_tab = [8 \<mapsto> 0], arrived = 1, refused = 1, wire = [0]\<rparr> \<and>
     s_main S = s_main accepted_system \<and> s_workers S = [101 \<mapsto> q] \<and> pending q = [] \<and> pair_open q \<and>
     interest (prog q) = [6 \<mapsto> sample_reg 6, 9 \<mapsto> \<lparr>events = EPOLLIN, ev_data = 0x55550010\<rparr>] \<and>
     tcps (prog q) = [0x55550010 \<mapsto> tcp] \<and> tcp = client_8\<lparr>fd := 9\<rparr> \<and> reqs (prog q) = Map.empty \<and> clientfd (prog q) = 9 \<and> sent (prog q) = []"
  using taken_step accepted_step by (meson converse_rtranclp_into_rtranclp)

section \<open>Order and completeness\<close>

text \<open>
  C6. The server implements its specification: whatever the processes and the
  kernel do, every run from the boot is a run of the specification, under which
  the messages for the connections are delivered in the order of their arrival
  (also one whose descriptor the kernel drops).
\<close>

theorem server_refines_dispatch:
  assumes "booted fd0 S" "sys_run fd0 S S'"
  shows "dispatch_step\<^sup>*\<^sup>* \<lparr>d_next = 0, d_refused = 0, d_flight = [], d_delivered = []\<rparr> (view S')"
proof -
  have "view S = \<lparr>d_next = 0, d_refused = 0, d_flight = [], d_delivered = []\<rparr>"
    using assms(1) by (simp add: booted_def view_def net_view_def empty_net_def)
  with server.run_simulates [OF assms(2)] show ?thesis by simp
qed

theorem server_refines_dispatch_witness:
  "\<exists>S. sys_run 6 sample_system S \<and> d_delivered (view S) = [0] \<and> d_flight (view S) = [0] \<and>
    dispatch_step\<^sup>*\<^sup>* \<lparr>d_next = 0, d_refused = 0, d_flight = [], d_delivered = []\<rparr> (view S)"
proof -
  obtain S where S: "sys_run 6 sample_system S" "s_taken S = [(101, 9, 0)]" "wire (s_net S) = [0]"
    using sample_run by force
  from server_refines_dispatch [OF sample_booted S(1)] S show ?thesis
    by (intro exI [of _ S]) (simp add: view_def net_view_def)
qed

text \<open>
  C2. No message is lost and no connection overtakes another: the connections of
  the messages the workers have received, followed by those in the pair, are all
  that were accepted, in order, each once or several times in a row; when no call
  of \<open>sendmsg\<close> failed, each exactly once.  The counter of the main process is
  right.  A message whose descriptor the kernel dropped counts as received, under
  the number -1.
\<close>

theorem connections_in_order:
  assumes "booted fd0 S" "sys_run fd0 S S'"
  shows "remdups_adj (map (snd \<circ> snd) (s_taken S') @ wire (s_net S')) = [0..<arrived (s_net S')] \<and>
    (refused (s_net S') = 0 \<longrightarrow> map (snd \<circ> snd) (s_taken S') @ wire (s_net S') = [0..<arrived (s_net S')]) \<and>
    m_count (s_main S') = arrived (s_net S')"
proof -
  from booted_ok [OF assms(1)] have ok: "dispatch_ok (view S)" "sys_ok fd0 S'"
    using sys_run_ok [OF assms(2)] by (simp_all add: sys_ok_def)
  with server.exactly_once [OF assms(2) ok(1)] show ?thesis
    by (simp add: sys_ok_def dispatch_ok_def main_ok_def view_def net_view_def)
qed

theorem connections_in_order_witness:
  "\<exists>S. sys_run 6 sample_system S \<and> s_taken S = [(101, 9, 0)] \<and> wire (s_net S) = [0] \<and> arrived (s_net S) = 1 \<and>
    remdups_adj (map (snd \<circ> snd) (s_taken S) @ wire (s_net S)) = [0..<1] \<and> m_count (s_main S) = 1"
proof -
  obtain S where S: "sys_run 6 sample_system S" "s_taken S = [(101, 9, 0)]" "wire (s_net S) = [0]" "arrived (s_net S) = 1"
    using sample_run by force
  from connections_in_order [OF sample_booted S(1)] S show ?thesis by (intro exI [of _ S]) simp
qed

text \<open>
  C4. A worker reads only from connections that were handed to it: an input event
  that it has fetched and that is not for the pair carries the address of a
  connection object whose descriptor this worker received in a message (one that
  the kernel did not drop), for a connection that the main process accepted and
  still has open.
\<close>

theorem input_from_accepted:
  assumes "booted fd0 S" "sys_run fd0 S S'" "s_workers S' p = Some q"
    and "ev \<in> set (pending q)" "data_fd (ev_data ev) \<noteq> fd0" "and (events ev) EPOLLIN \<noteq> 0"
  shows "\<exists>tcp k c. tcps (prog q) (ev_data ev) = Some tcp \<and> (p, fd tcp, k) \<in> set (s_taken S') \<and>
    0 \<le> fd tcp \<and> k < arrived (s_net S') \<and> main_tab (s_net S') c = Some k"
proof -
  from sys_run_ok [OF assms(2) booted_ok [OF assms(1)]] assms(3) have ok: "main_ok (s_main S') (s_net S')"
    "dispatch_ok (view S')" "proc_ok fd0 (fds_of p S') q" by (simp_all add: sys_ok_def)
  from ok(3) assms(4) have "sys_event fd0 (fds_of p S') (prog q) ev" by (simp add: proc_ok_def worker_ok_def)
  with assms(5,6) obtain f where "f \<in> fds_of p S'" "map_option fd (tcps (prog q) (ev_data ev)) = Some f"
    by (auto simp: sys_event_def)
  then obtain tcp k where tcp: "tcps (prog q) (ev_data ev) = Some tcp" "(p, fd tcp, k) \<in> set (s_taken S')" "0 \<le> fd tcp"
    by (auto simp: fds_of_def)
  then have "k \<in> set (d_delivered (view S'))" by (force simp: view_def net_view_def)
  then have "k < arrived (s_net S')"
    using ok(2) unfolding dispatch_ok_def view_def net_view_def
    by (metis (no_types, lifting) Un_iff atLeastLessThan_iff dispatch.select_convs(1,4) remdups_adj_set set_append set_upt)
  moreover from this ok(1) obtain c where "main_tab (s_net S') c = Some k"
    by (auto simp: main_ok_def ran_def)
  ultimately show ?thesis using tcp by blast
qed

lemma sample_fetched:
  "\<exists>S q tcp. sys_run 6 sample_system S \<and> s_taken S = [(101, 9, 0)] \<and> wire (s_net S) = [0] \<and> s_workers S = [101 \<mapsto> q] \<and>
     pending q = [\<lparr>events = e, ev_data = 0x55550010\<rparr>] \<and> pair_open q \<and> interest (prog q) 6 \<noteq> None \<and>
     tcps (prog q) = [0x55550010 \<mapsto> tcp] \<and> reqs (prog q) = Map.empty"
  if "e = EPOLLIN \<or> e = EPOLLERR"
proof -
  obtain S q tcp where S: "sys_run 6 sample_system S" "s_workers S = [101 \<mapsto> q]" "pending q = []" "pair_open q"
    "s_taken S = [(101, 9, 0)]" "wire (s_net S) = [0]" "tcps (prog q) = [0x55550010 \<mapsto> tcp]" "reqs (prog q) = Map.empty"
    and i: "interest (prog q) = [6 \<mapsto> sample_reg 6, 9 \<mapsto> \<lparr>events = EPOLLIN, ev_data = 0x55550010\<rparr>]"
    using sample_run by force
  let ?evs = "[\<lparr>events = e, ev_data = 0x55550010\<rparr>]"
  let ?S = "S\<lparr>s_workers := (s_workers S)(101 \<mapsto> q\<lparr>pending := ?evs\<rparr>)\<rparr>"
  have "reported (prog q) \<lparr>events = e, ev_data = 0x55550010\<rparr>"
    unfolding reported_def
    by (rule exI [of _ 9], rule exI [of _ "\<lparr>events = EPOLLIN, ev_data = 0x55550010\<rparr>"])
      (use that in \<open>auto simp: i EPOLLERR_def EPOLLIN_def EPOLLOUT_def\<close>)
  then have "sys_step 6 S ?S" using S(2,3) by (intro sys_step.wait) simp_all
  with S(1) have "sys_run 6 sample_system ?S" by (rule rtranclp.rtrancl_into_rtrancl)
  with S i show ?thesis by (intro exI [of _ ?S] exI [of _ "q\<lparr>pending := ?evs\<rparr>"] exI [of _ tcp]) simp
qed

theorem input_from_accepted_witness:
  "\<exists>S q tcp k c. sys_run 6 sample_system S \<and> s_workers S 101 = Some q \<and> tcps (prog q) 0x55550010 = Some tcp \<and>
    (101, fd tcp, k) \<in> set (s_taken S) \<and> k < arrived (s_net S) \<and> main_tab (s_net S) c = Some k"
proof -
  obtain S q where S: "sys_run 6 sample_system S" "s_workers S = [101 \<mapsto> q]"
    "pending q = [\<lparr>events = EPOLLIN, ev_data = 0x55550010\<rparr>]"
    using sample_fetched [of EPOLLIN] by blast
  have w: "s_workers S 101 = Some q" using S(2) by simp
  from input_from_accepted [OF sample_booted S(1) w, of "\<lparr>events = EPOLLIN, ev_data = 0x55550010\<rparr>"] S(1,3) w show ?thesis
    by (simp add: data_fd_def EPOLLIN_def) metis
qed

text \<open>
  C19. The main process closes no connection: it holds one descriptor for every
  connection it ever accepted, a run only adds to them, and the first
  failure of \<open>accept\<close> (as when it has reached its limit of descriptors) ends it.
\<close>

theorem main_keeps_descriptors:
  assumes "booted fd0 S" "sys_run fd0 S S'" "sys_run fd0 S' S''"
  shows "card (dom (main_tab (s_net S''))) = arrived (s_net S'') \<and> main_tab (s_net S') \<subseteq>\<^sub>m main_tab (s_net S'') \<and>
    (\<forall>ev e rs w. main_reports (s_main S'') ev \<longrightarrow> e \<noteq> EAGAIN \<longrightarrow> e \<noteq> EWOULDBLOCK \<longrightarrow>
      master_event ev ((s_main S'')\<lparr>m_world := offer (SysErr e # rs) w\<rparr>) = Inl (Exited 0))"
proof (intro conjI allI impI)
  from sys_run_ok [OF assms(2) booted_ok [OF assms(1)]] have ok: "sys_ok fd0 S'" .
  with sys_run_ok [OF assms(3)] have ok'': "main_ok (s_main S'') (s_net S'')" by (simp add: sys_ok_def)
  then show "card (dom (main_tab (s_net S''))) = arrived (s_net S'')" by (simp add: main_ok_def)
  show "main_tab (s_net S') \<subseteq>\<^sub>m main_tab (s_net S'')"
    using assms(3) ok
  proof (induction rule: converse_rtranclp_induct)
    case (step S1 S2)
    have "main_tab (s_net S1) \<subseteq>\<^sub>m main_tab (s_net S2)"
      using step.hyps(1) step.prems
      by cases (auto simp: sys_ok_def dest: main_ok_step got_ok)
    with step show ?case by (blast intro: map_le_trans sys_step_ok)
  qed simp
  fix ev e rs w
  assume "main_reports (s_main S'') ev" "e \<noteq> EAGAIN" "e \<noteq> EWOULDBLOCK"
  with main_event [OF ok''] show "master_event ev ((s_main S'')\<lparr>m_world := offer (SysErr e # rs) w\<rparr>) = Inl (Exited 0)"
    by (simp add: accept_loop.simps Accept_def unix_error_def)
qed

theorem main_keeps_descriptors_witness:
  "\<exists>S. sys_run 6 sample_system S \<and> s_taken S = [(101, 9, 0)] \<and> card (dom (main_tab (s_net S))) = 1 \<and>
    main_tab (s_net accepted_system) \<subseteq>\<^sub>m main_tab (s_net S)"
proof -
  obtain S where S: "sys_run 6 accepted_system S" "s_taken S = [(101, 9, 0)]" "arrived (s_net S) = 1"
    using taken_step by force
  have run: "sys_run 6 sample_system accepted_system" "sys_run 6 accepted_system S"
    using accepted_step S(1) by simp_all
  from main_keeps_descriptors [OF sample_booted run] S run show ?thesis
    by (intro exI [of _ S]) (metis rtranclp_trans)
qed

section \<open>The main process does not fault\<close>

lemma hand_over_Inl: "length b = 2 \<Longrightarrow> hand_over s b c w = Inl e \<Longrightarrow> e = Blocked"
  by (cases "outcomes w") (auto simp: hand_over_eq)

lemma hand_over_loop_Inl: "hand_over_loop s b c w = Inl e \<Longrightarrow> length b = 2 \<Longrightarrow> e = Blocked"
proof (induction s b c w rule: hand_over_loop.induct)
  case (1 s b c w)
  from "1.prems"(1) consider "hand_over s b c w = Inl e"
    | n w1 where "hand_over s b c w = Inr (n, w1)" "n \<le> 0" "hand_over s b c w1 = Inl e"
    | n w1 m w2 where "hand_over s b c w = Inr (n, w1)" "n \<le> 0" "hand_over s b c w1 = Inr (m, w2)" "hand_over_loop s b c w2 = Inl e"
    by (subst (asm) hand_over_loop.simps) (auto simp: bindE_eq_Inl split: if_splits)
  then show ?case
    by cases (use "1.prems"(2) "1.IH" hand_over_Inl in blast)+
qed

lemma accept_loop_Inl: "accept_loop l s b g w = Inl e \<Longrightarrow> length b = 2 \<Longrightarrow> e = Blocked \<or> e = Exited 0"
proof (induction l s b g w rule: accept_loop.induct)
  case (1 l s b g w)
  from "1.prems"(1) consider "Accept l w = Inl e" | "e = Exited 0"
    | c w1 where "Accept l w = Inr (c, w1)" "hand_over_loop s b c w1 = Inl e"
    | c w1 w2 where "Accept l w = Inr (c, w1)" "c \<noteq> 0" "c \<noteq> - 1" "hand_over_loop s b c w1 = Inr w2"
        "accept_loop l s b (g + 1) w2 = Inl e"
    by (subst (asm) accept_loop.simps) (auto simp: bindE_eq_Inl unix_error_def split: if_splits)
  then show ?case
  proof cases
    case 1
    then show ?thesis by (cases "outcomes w") (auto simp: Accept_def split: if_splits)
  next
    case 3
    then show ?thesis using "1.prems"(2) hand_over_loop_Inl by blast
  next
    case 4
    then show ?thesis using "1.prems"(2) "1.IH" [of "(c, w1)" c w1 w2] by auto
  qed simp
qed

text \<open>
  C9. In every run the main process handles an event without a fault: it goes on,
  waits, or exits as the code says, never through an access that is undefined,
  and the branches that would add a descriptor to its list or free its events
  are not reached.
\<close>

theorem main_never_faults:
  assumes "booted fd0 S" "sys_run fd0 S S'" "main_reports (s_main S') ev"
  shows "case master_event ev ((s_main S')\<lparr>m_world := w\<rparr>) of
      Inl e \<Rightarrow> e = Blocked \<or> e = Exited 0
    | Inr M \<Rightarrow> \<not> m_freed M \<and> m_interest M = m_interest (s_main S') \<and> data_fd (ev_data ev) = m_listen M"
proof -
  from sys_run_ok [OF assms(2) booted_ok [OF assms(1)]] have ok: "main_ok (s_main S') (s_net S')"
    by (simp add: sys_ok_def)
  then have buf: "length (m_buf (s_main S')) = 2" and live: "\<not> m_freed (s_main S')"
    by (auto simp: main_ok_def)
  from main_reported [OF ok assms(3)] show ?thesis
    using live accept_loop_Inl [OF _ buf] unfolding main_event [OF ok assms(3)]
    by (cases "outcomes w") (auto simp: bindE_def unix_error_def split: sum.splits)
qed

theorem main_never_faults_witness:
  "case master_event (sample_reg 3) ((s_main accepted_system)\<lparr>m_world := \<lparr>outcomes = [SysOk 9, SysOk 2, SysErr (EOTHER 24)], trace = []\<rparr>\<rparr>) of
      Inl e \<Rightarrow> e = Blocked \<or> e = Exited 0
    | Inr M \<Rightarrow> \<not> m_freed M \<and> m_interest M = m_interest (s_main accepted_system) \<and> data_fd (ev_data (sample_reg 3)) = m_listen M"
proof (rule main_never_faults [OF sample_booted r_into_rtranclp [of "sys_step 6", OF accepted_step]])
  show "main_reports (s_main accepted_system) (sample_reg 3)"
    unfolding main_reports_def by (rule exI [of _ 3]) (simp add: accepted_system_def sample_system_def)
qed

section \<open>Where the responses go\<close>

definition responses_ok :: "int \<Rightarrow> worker \<Rightarrow> bool" where
  "responses_ok fd0 W \<longleftrightarrow> (\<forall>(f, w)\<in>set (sent W). f \<noteq> fd0 \<and> (\<exists>a\<in>dom (reqs W). f = data_fd a))"

lemma responses_ok_event:
  assumes "handle_event fd0 ev I (W\<lparr>kworld := k\<rparr>) = Some (Inr (W', brk))" "responses_ok fd0 W"
  shows "responses_ok fd0 W'"
  using handle_event_sent [OF assms(1)] assms(2) by (fastforce simp: responses_ok_def)

lemma responses_ok_run:
  assumes "sys_run fd0 S S'" "\<forall>q\<in>ran (s_workers S). responses_ok fd0 (prog q)"
  shows "\<forall>q\<in>ran (s_workers S'). responses_ok fd0 (prog q)"
  using assms responses_ok_event by (rule prog_invariant_run)

section \<open>A short request\<close>

text \<open>
  C16. A short request ends a worker: in every run, when the first read of an
  input event delivers at least one byte but fewer than \<open>READ_COUNT\<close>, handling
  the event stops in an undefined access; when the connection's buffer holds a
  string with room for \<open>READ_COUNT\<close> more bytes, this is the write of \<open>memset\<close> behind the
  array on the stack.  The run can go on without this worker, for good.
\<close>

theorem short_request_ends_worker:
  assumes "booted fd0 S" "sys_run fd0 S S'" "s_workers S' p = Some q" "pending q = ev # evs"
    and "data_fd (ev_data ev) \<noteq> fd0" "and (events ev) EPOLLIN \<noteq> 0" "new_addresses fd0 I (prog q)"
    and "in_reads I = RdData d # rs" "d \<noteq> []" "length d < READ_COUNT"
    and "S1 = S'\<lparr>s_workers := (s_workers S')(p := None)\<rparr>"
  shows "(\<forall>k. \<exists>e. handle_event fd0 ev I ((prog q)\<lparr>kworld := k\<rparr>) = Some (Inl (Undef e))) \<and>
    (\<forall>k tcp t post. tcps (prog q) (ev_data ev) = Some tcp \<longrightarrow> tcp_buf tcp = Some (t @ NUL # post) \<longrightarrow>
      NUL \<notin> set t \<longrightarrow> READ_COUNT \<le> length post \<longrightarrow>
      handle_event fd0 ev I ((prog q)\<lparr>kworld := k\<rparr>) = Some (Inl (Undef WriteOOB))) \<and>
    sys_step fd0 S' S1 \<and> (\<forall>S2. sys_run fd0 S1 S2 \<longrightarrow> s_workers S2 p = None)"
proof (intro conjI allI impI)
  have "\<forall>q\<in>ran (s_workers S). calls_back (prog q)"
    using assms(1) by (auto simp: booted_def ran_def calls_back_def)
  from assms(2) this calls_back_event have "\<forall>q\<in>ran (s_workers S'). calls_back (prog q)" by (rule prog_invariant_run)
  with assms(3) have cb: "calls_back (prog q)" by (auto simp: ran_def)
  from sys_run_ok [OF assms(2) booted_ok [OF assms(1)]] assms(3,4)
  have "sys_event fd0 (fds_of p S') (prog q) ev" by (simp add: sys_ok_def proc_ok_def worker_ok_def)
  with assms(5,6) obtain tcp where tcp: "tcps (prog q) (ev_data ev) = Some tcp" by (auto simp: sys_event_def)
  with cb have "tcp_callback tcp = callback" by (auto simp: calls_back_def ran_def)
  then show "handle_event fd0 ev I ((prog q)\<lparr>kworld := k\<rparr>) = Some (Inl (Undef WriteOOB))"
    if "tcps (prog q) (ev_data ev) = Some tcp'" "tcp_buf tcp' = Some (t @ NUL # post)" "NUL \<notin> set t"
      "READ_COUNT \<le> length post" for k tcp' t post
    using that tcp assms(5,6,8-10)
    by (intro short_request_crashes [where tcp = tcp' and t = t and post = post and d = d and rs = rs]) simp_all
  from \<open>tcp_callback tcp = callback\<close> tcp assms(5-10) show stops: "\<exists>e. handle_event fd0 ev I ((prog q)\<lparr>kworld := k\<rparr>) = Some (Inl (Undef e))" for k
    by (intro short_read_stops [of _ _ tcp]) simp_all
  have rcv: "receives fd0 ev I q (s_net S') = Some (s_net S', tab q, [])" using assms(5) by (simp add: receives_def)
  have none: "\<forall>out. handle_event fd0 ev I ((prog q)\<lparr>kworld := offer [] (kworld (prog q))\<rparr>) \<noteq> Some (Inr out)"
    using stops [of "offer [] (kworld (prog q))"] by auto
  show "sys_step fd0 S' S1"
    using sys_step.stop [OF assms(3,4,7) rcv none] assms(11) by simp
  show "s_workers S2 p = None" if "sys_run fd0 S1 S2" for S2
    using gone_run [OF that] assms(11) by simp
qed

theorem short_request_ends_worker_witness:
  "\<exists>S q e. sys_run 6 sample_system S \<and> s_workers S = [101 \<mapsto> q] \<and>
    handle_event 6 \<lparr>events = EPOLLIN, ev_data = 0x55550010\<rparr>
      (sample_inputs\<lparr>in_reads := [RdData (''GET / HTTP/1.1'' @ CRLF @ CRLF)], in_tcp := 0x1000\<rparr>) (prog q) = Some (Inl (Undef e)) \<and>
    sys_step 6 S (S\<lparr>s_workers := Map.empty\<rparr>)"
proof -
  let ?ev = "\<lparr>events = EPOLLIN, ev_data = 0x55550010\<rparr>"
  let ?I = "sample_inputs\<lparr>in_reads := [RdData (''GET / HTTP/1.1'' @ CRLF @ CRLF)], in_tcp := 0x1000\<rparr>"
  obtain S q tcp where S: "sys_run 6 sample_system S" "s_workers S = [101 \<mapsto> q]" "pending q = [?ev]"
    and q: "tcps (prog q) = [0x55550010 \<mapsto> tcp]" "reqs (prog q) = Map.empty"
    using sample_fetched [of EPOLLIN] by blast
  have w: "s_workers S 101 = Some q" using S(2) by simp
  have ev: "data_fd (ev_data ?ev) \<noteq> 6" "and (events ?ev) EPOLLIN \<noteq> 0" "new_addresses 6 ?I (prog q)"
    "in_reads ?I = RdData (''GET / HTTP/1.1'' @ CRLF @ CRLF) # []"
    by (simp_all add: data_fd_def EPOLLIN_def new_addresses_def q sample_inputs_def)
  have len: "''GET / HTTP/1.1'' @ CRLF @ CRLF \<noteq> []" "length (''GET / HTTP/1.1'' @ CRLF @ CRLF) < READ_COUNT"
    by (simp_all add: READ_COUNT_def)
  note ends = short_request_ends_worker [OF sample_booted S(1) w S(3) ev len refl]
  from ends obtain e where "handle_event 6 ?ev ?I ((prog q)\<lparr>kworld := kworld (prog q)\<rparr>) = Some (Inl (Undef e))" by blast
  then have "handle_event 6 ?ev ?I (prog q) = Some (Inl (Undef e))" by simp
  moreover have "(s_workers S)(101 := None) = Map.empty" using S(2) by simp
  with ends have "sys_step 6 S (S\<lparr>s_workers := Map.empty\<rparr>)" by simp
  ultimately show ?thesis using S(1,2) by (intro exI conjI) assumption+
qed

section \<open>A worker that finds the pair empty\<close>

text \<open>
  C17. All workers wait on the same pair, so a message wakes several and one gets
  it.  A worker that finds the pair empty (EAGAIN) leaves the loop over the events,
  and \<open>recvmsg\<close> has not written its control buffer, which is not initialised.  When
  the length there is not that of a control message with a descriptor, \<open>clientfd\<close>
  becomes -1: until the worker receives another connection, no request it
  parses is ever answered, as the attempt to wait for output is made on descriptor -1 and
  leaves the interest list as it was.  When the length there is right, for instance
  because the stack still has the last message, the worker exits with 1 if level or
  type are wrong, and else takes the number that is left there for \<open>clientfd\<close>.
\<close>

theorem lost_race_forgets_client:
  assumes "booted fd0 S" "sys_run fd0 S S'" "s_workers S' p = Some q" "0 \<le> fd0"
    and "data_fd (ev_data ev) = fd0" "in_rcv I = RcvErr EAGAIN" and "W = (prog q)\<lparr>clientfd := - 1\<rparr>"
  shows "handle_event fd0 ev I (prog q) = Some
      (if cmsg_len (in_ctl I) \<noteq> CMSG_LEN_INT then Inr (W, True)
       else if cmsg_level (in_ctl I) = SOL_SOCKET \<and> cmsg_type (in_ctl I) = SCM_RIGHTS
         then Inr ((prog q)\<lparr>clientfd := cmsg_data (in_ctl I)\<rparr>, True)
       else Inl (Exited 1)) \<and>
    (\<forall>ev' I' rs W' brk. data_fd (ev_data ev') \<noteq> fd0 \<longrightarrow> and (events ev') EPOLLIN \<noteq> 0 \<longrightarrow>
      handle_event fd0 ev' I' (W\<lparr>kworld := offer rs (kworld W)\<rparr>) = Some (Inr (W', brk)) \<longrightarrow>
      honest (interest W) (tab q) (new_calls (kworld W) (kworld W')) \<longrightarrow> interest W' = interest (prog q) \<and> clientfd W' = - 1)"
proof (intro conjI allI impI)
  show "handle_event fd0 ev I (prog q) = Some
      (if cmsg_len (in_ctl I) \<noteq> CMSG_LEN_INT then Inr (W, True)
       else if cmsg_level (in_ctl I) = SOL_SOCKET \<and> cmsg_type (in_ctl I) = SCM_RIGHTS
         then Inr ((prog q)\<lparr>clientfd := cmsg_data (in_ctl I)\<rparr>, True)
       else Inl (Exited 1))"
    using assms(5-7) by (cases "in_blocks I") (simp add: handle_event_def new_client_def Sock_fd_read_def Let_def)
next
  from sys_run_ok [OF assms(2) booted_ok [OF assms(1)]] assms(3)
  have "worker_ok fd0 (fds_of p S') (pending q) (prog q)" "fds_of p S' \<subseteq> {0..} - {fd0}"
    by (simp_all add: sys_ok_def proc_ok_def)
  with assms(4) have none: "- 1 \<notin> dom (interest (prog q))" by (fastforce simp: worker_ok_def)
  fix ev' I' rs W' brk
  assume ev: "data_fd (ev_data ev') \<noteq> fd0" "and (events ev') EPOLLIN \<noteq> 0"
    and run: "handle_event fd0 ev' I' (W\<lparr>kworld := offer rs (kworld W)\<rparr>) = Some (Inr (W', brk))"
    and h: "honest (interest W) (tab q) (new_calls (kworld W) (kworld W'))"
  then have "client_readable ev' I' (W\<lparr>kworld := offer rs (kworld W)\<rparr>) = Inr (W', brk)" by (simp add: handle_event_def)
  then consider "interest W' = interest W" "clientfd W' = - 1"
    | V e where "ctl EPOLL_CTL_MOD (- 1) e V = Inr W'" "interest V = interest W" "clientfd V = - 1" "trace (kworld V) = trace (kworld W)"
    using assms(7)
    by (auto simp: client_readable_def bindE_eq_Inr Let_def split: option.splits prod.splits)
  then show "interest W' = interest (prog q)" "clientfd W' = - 1"
  proof (atomize (full), cases)
    case 2
    from ctl_effect [OF 2(1)] 2 obtain r where r: "trace (kworld W') = trace (kworld W) @ [(CEpollCtl (epfd V) EPOLL_CTL_MOD (- 1), r)]"
      "interest W' = epoll_apply EPOLL_CTL_MOD (- 1) e (sys_val r) (interest W)" "clientfd W' = - 1" by auto
    have "r \<noteq> SysOk v" for v
      using honest_ctl [OF h, of _ EPOLL_CTL_MOD "- 1" v] none r(1) assms(7)
      by (auto simp: EPOLL_CTL_MOD_def EPOLL_CTL_ADD_def)
    then obtain x where "r = SysErr x" by (metis sys_ret.exhaust)
    with r show "interest W' = interest (prog q) \<and> clientfd W' = - 1"
      using assms(7) by (simp add: epoll_apply_def)
  qed (use assms(7) in simp)
qed

definition sample_proc :: wproc where
  "sample_proc = \<lparr>prog = (sample_worker [])\<lparr>interest := [6 \<mapsto> sample_reg 6]\<rparr>, tab = Map.empty,
     pending = [], pair_open = True\<rparr>"

theorem lost_race_forgets_client_witness:
  "handle_event 6 (sample_reg 6) (sample_inputs\<lparr>in_rcv := RcvErr EAGAIN\<rparr>) (prog sample_proc)
     = Some (Inr ((prog sample_proc)\<lparr>clientfd := - 1\<rparr>, True))"
proof -
  have w: "s_workers sample_system 101 = Some sample_proc" by (simp add: sample_system_def sample_proc_def)
  from lost_race_forgets_client [OF sample_booted rtranclp.rtrancl_refl w, of "sample_reg 6"
      "sample_inputs\<lparr>in_rcv := RcvErr EAGAIN\<rparr>"] show ?thesis
    by (simp add: sample_reg_fd sample_inputs_def CMSG_LEN_INT_def)
qed

text \<open>
  A descriptor that the kernel drops is the end of the worker: a message without
  a control part makes \<open>clientfd\<close> -1, the worker goes on with -1 all the same, and \<open>fcntl\<close>
  on -1 fails, which \<open>Setnoblock\<close> answers with \<open>exit\<close>.  The message has been taken, so
  no run gives its connection to another worker through it.
\<close>

theorem lost_descriptor_ends_worker:
  assumes "s_workers S p = Some q" "pending q = ev # evs" "new_addresses fd0 I (prog q)" "pair_open q"
    and "data_fd (ev_data ev) = fd0" "in_rcv I = RcvMsg d None" "wire (s_net S) = k # ks"
    and "in_blocks I = (Some b1, Some b2, Some b3, Some b4)"
    and "S1 = S\<lparr>s_net := (s_net S)\<lparr>wire := ks\<rparr>, s_workers := (s_workers S)(p := None), s_taken := s_taken S @ [(p, - 1, k)]\<rparr>"
  shows "handle_event fd0 ev I ((prog q)\<lparr>kworld := offer (SysErr e # rs) (kworld (prog q))\<rparr>) = Some (Inl (Exited 0)) \<and>
    sys_step fd0 S S1 \<and> (\<forall>S2. sys_run fd0 S1 S2 \<longrightarrow> s_workers S2 p = None)"
proof (intro conjI allI impI)
  show run: "handle_event fd0 ev I ((prog q)\<lparr>kworld := offer (SysErr e # rs) (kworld (prog q))\<rparr>) = Some (Inl (Exited 0))"
    using assms(5,6,8) by (simp add: handle_event_def new_client_def Sock_fd_read_def Let_def http_tcp_alloc_def
        alloc_http_context_def Setnoblock_def unix_error_def)
  have rcv: "receives fd0 ev I q (s_net S) = Some ((s_net S)\<lparr>wire := ks\<rparr>, tab q, [(- 1, k)])"
    using assms(4-7) by (simp add: receives_def deliver_def)
  show "sys_step fd0 S S1"
    using sys_step.stop [OF assms(1-3) rcv, of "SysErr e # rs"] run assms(9) by simp
  show "s_workers S2 p = None" if "sys_run fd0 S1 S2" for S2
    using gone_run [OF that] assms(9) by simp
qed

theorem lost_descriptor_ends_worker_witness:
  "\<exists>S1. sys_step 6 (accepted_system\<lparr>s_workers := [101 \<mapsto> sample_proc\<lparr>pending := [sample_reg 6]\<rparr>]\<rparr>) S1 \<and>
    s_taken S1 = [(101, - 1, 0)] \<and> s_workers S1 101 = None"
proof -
  let ?q = "sample_proc\<lparr>pending := [sample_reg 6]\<rparr>" and ?I = "sample_inputs\<lparr>in_rcv := RcvMsg ''ab'' None\<rparr>"
  let ?S = "accepted_system\<lparr>s_workers := [101 \<mapsto> ?q]\<rparr>"
  have w: "s_workers ?S 101 = Some ?q" "pending ?q = [sample_reg 6]" by simp_all
  have new: "new_addresses 6 ?I (prog ?q)" "pair_open ?q"
    by (simp_all add: sample_proc_def sample_worker_def new_addresses_def sample_inputs_def data_fd_def)
  have ev: "data_fd (ev_data (sample_reg 6)) = 6" "in_rcv ?I = RcvMsg ''ab'' None" "wire (s_net ?S) = [0, 0]"
    "in_blocks ?I = (Some [], Some [], Some (replicate BUFSIZE NUL), Some (replicate BUFSIZE NUL))"
    by (simp_all add: sample_reg_fd sample_inputs_def accepted_system_def)
  have "s_taken ?S = []" by (simp add: accepted_system_def sample_system_def)
  moreover define S1 where "S1 = ?S\<lparr>s_net := (s_net ?S)\<lparr>wire := [0]\<rparr>, s_workers := (s_workers ?S)(101 := None),
    s_taken := s_taken ?S @ [(101, - 1, 0)]\<rparr>"
  moreover have "sys_step 6 ?S S1" using lost_descriptor_ends_worker [OF w new ev S1_def] by blast
  ultimately show ?thesis by (intro exI [of _ S1]) simp
qed

section \<open>A worker that stops listening\<close>

definition deaf :: "int \<Rightarrow> system \<Rightarrow> bool" where
  "deaf p S \<longleftrightarrow> (\<forall>q. s_workers S p = Some q \<longrightarrow> \<not> pair_open q)"

definition taken_by :: "int \<Rightarrow> system \<Rightarrow> (int \<times> int \<times> nat) list" where
  "taken_by p S = filter (\<lambda>m. fst m = p) (s_taken S)"

lemma taken_by_snoc:
  "s_taken S' = s_taken S @ map (Pair r) got \<Longrightarrow> (r = p \<Longrightarrow> got = []) \<Longrightarrow> taken_by p S' = taken_by p S"
  by (cases "r = p") (simp_all add: taken_by_def comp_def)

lemma closed_receives: "receives fd0 ev I q N = Some (N', t, got) \<Longrightarrow> \<not> pair_open q \<Longrightarrow> got = []"
  by (elim receives_cases) simp_all

lemma deaf_step:
  assumes "sys_step fd0 S S'" "deaf p S"
  shows "deaf p S' \<and> taken_by p S' = taken_by p S"
  using assms(1)
proof cases
  case (serve r q ev evs I N' t got rs W' brk)
  with assms(2) closed_receives [OF serve(5)] have "taken_by p S' = taken_by p S"
    by (intro taken_by_snoc [of _ _ r got]) (auto simp: deaf_def)
  with serve(1,2) assms(2) show ?thesis by (auto simp: deaf_def handled_def Let_def)
next
  case (stop r q ev evs I N' t got rs)
  with assms(2) closed_receives [OF stop(5)] have "taken_by p S' = taken_by p S"
    by (intro taken_by_snoc [of _ _ r got]) (auto simp: deaf_def)
  with stop(1) assms(2) show ?thesis by (auto simp: deaf_def)
qed (use assms(2) in \<open>auto simp: deaf_def taken_by_def\<close>)

lemma deaf_run: "sys_run fd0 S S' \<Longrightarrow> deaf p S \<Longrightarrow> deaf p S' \<and> taken_by p S' = taken_by p S"
  by (induction rule: rtranclp_induct) (use deaf_step in \<open>metis+\<close>)

text \<open>
  C18. An event of a client that is neither input nor output (an error or a
  hang-up alone) makes the worker remove and close the pair instead of the
  client: in no run from there does this worker receive another connection, not
  even through events for the pair that it has already fetched.
\<close>

theorem client_error_deafens:
  assumes "s_workers S p = Some q" "pending q = ev # evs" "new_addresses fd0 I (prog q)"
    and "data_fd (ev_data ev) \<noteq> fd0" "and (events ev) EPOLLIN = 0" "and (events ev) EPOLLOUT = 0"
    and "cs = [(CEpollCtl (epfd (prog q)) EPOLL_CTL_DEL fd0, r1), (CClose fd0, r2)]" "honest (interest (prog q)) (tab q) cs"
  shows "\<exists>W. handle_event fd0 ev I ((prog q)\<lparr>kworld := offer (r1 # r2 # rs) (kworld (prog q))\<rparr>) = Some (Inr (W, False)) \<and>
    new_calls (kworld (prog q)) (kworld W) = cs \<and>
    (\<forall>S1. S1 = S\<lparr>s_workers := (s_workers S)(p \<mapsto> handled fd0 q (tab q) W False)\<rparr> \<longrightarrow>
      sys_step fd0 S S1 \<and> (\<forall>S'. sys_run fd0 S1 S' \<longrightarrow> taken_by p S' = taken_by p S))"
proof -
  let ?W = "(prog q)\<lparr>interest := epoll_apply EPOLL_CTL_DEL fd0 ev (sys_val r1) (interest (prog q)),
    kworld := (kworld (prog q))\<lparr>outcomes := rs, trace := trace (kworld (prog q)) @ cs\<rparr>\<rparr>"
  let ?S1 = "S\<lparr>s_workers := (s_workers S)(p \<mapsto> handled fd0 q (tab q) ?W False)\<rparr>"
  have run: "handle_event fd0 ev I ((prog q)\<lparr>kworld := offer (r1 # r2 # rs) (kworld (prog q))\<rparr>) = Some (Inr (?W, False))"
    using assms(4-7) by (simp add: handle_event_def ctl_simps close_fd_simps)
  have cs: "new_calls (kworld (prog q)) (kworld ?W) = cs" by (rule new_calls_append) simp
  have rcv: "receives fd0 ev I q (s_net S) = Some (s_net S, tab q, [])"
    using assms(4) by (simp add: receives_def)
  have step: "sys_step fd0 S ?S1"
    using sys_step.serve [OF assms(1-3) rcv run] assms(8) cs by simp
  have deaf: "deaf p ?S1" by (simp only: deaf_def) (simp add: handled_def Let_def cs closes_def assms(7))
  have same: "taken_by p ?S1 = taken_by p S" by (simp add: taken_by_def)
  have "taken_by p S' = taken_by p S" if "sys_run fd0 ?S1 S'" for S'
    using deaf_run [OF that deaf] same by (rule trans [OF conjunct2])
  with step have "\<forall>S1. S1 = ?S1 \<longrightarrow> sys_step fd0 S S1 \<and> (\<forall>S'. sys_run fd0 S1 S' \<longrightarrow> taken_by p S' = taken_by p S)"
    by blast
  with run cs show ?thesis by (intro exI [of _ ?W] conjI)
qed

theorem client_error_deafens_witness:
  "\<exists>S S1. sys_run 6 sample_system S \<and> sys_step 6 S S1 \<and> wire (s_net S) = [0] \<and>
    (\<forall>S'. sys_run 6 S1 S' \<longrightarrow> taken_by 101 S' = [(101, 9, 0)])"
proof -
  obtain S q tcp where S: "sys_run 6 sample_system S" "s_workers S = [101 \<mapsto> q]" "wire (s_net S) = [0]" "s_taken S = [(101, 9, 0)]"
    "pending q = [\<lparr>events = EPOLLERR, ev_data = 0x55550010\<rparr>]" "interest (prog q) 6 \<noteq> None"
    and t: "tcps (prog q) = [0x55550010 \<mapsto> tcp]" "reqs (prog q) = Map.empty"
    using sample_fetched [of EPOLLERR] by force
  let ?I = "sample_inputs\<lparr>in_tcp := 0x1000, in_req := 0x1000\<rparr>"
  have w: "s_workers S 101 = Some q" using S(2) by simp
  have new: "new_addresses 6 ?I (prog q)" by (simp add: new_addresses_def t data_fd_def)
  have h: "honest (interest (prog q)) (tab q)
      [(CEpollCtl (epfd (prog q)) EPOLL_CTL_DEL 6, SysOk 0), (CClose 6, SysOk 0)]"
    using S(6) by (simp add: honest_def EPOLL_CTL_DEL_def EPOLL_CTL_ADD_def)
  have "taken_by 101 S = [(101, 9, 0)]" using S(4) by (simp add: taken_by_def)
  with client_error_deafens [OF w S(5) new _ _ _ refl h] S(1,3) show ?thesis
    by (simp add: data_fd_def EPOLLERR_def EPOLLIN_def EPOLLOUT_def) metis
qed

section \<open>Every connection can be delivered\<close>

text \<open>The addresses at which a worker may still get a block.\<close>

definition free_addresses :: "int \<Rightarrow> worker \<Rightarrow> 64 word set" where
  "free_addresses fd0 W = {a. tcps W a = None \<and> reqs W a = None \<and> data_fd a \<noteq> fd0}"

definition listens :: "int \<Rightarrow> int \<Rightarrow> system \<Rightarrow> nat \<Rightarrow> bool" where
  "listens fd0 p S n \<longleftrightarrow> (\<exists>q reg. s_workers S p = Some q \<and> pending q = [] \<and> pair_open q \<and> interest (prog q) fd0 = Some reg \<and>
     data_fd (ev_data reg) = fd0 \<and> n \<le> card (free_addresses fd0 (prog q)))"

lemma new_number:
  assumes "finite B"
  obtains f :: int where "0 \<le> f" "f \<notin> B"
proof -
  have "finite (int -` B)" using assms by (simp add: finite_vimageI)
  then obtain n where "n \<notin> int -` B" using ex_new_if_finite [OF infinite_UNIV_nat] by blast
  then show ?thesis using that [of "int n"] by simp
qed

lemma delivery_step:
  assumes ok: "sys_ok fd0 S" and listening: "listens fd0 p S (Suc n)" and next_one: "wire (s_net S) = k # ks"
  shows "\<exists>S' f. sys_run fd0 S S' \<and> 0 \<le> f \<and> s_taken S' = s_taken S @ [(p, f, k)] \<and> s_net S' = (s_net S)\<lparr>wire := ks\<rparr> \<and> listens fd0 p S' n"
proof -
  from listening obtain q reg where w: "s_workers S p = Some q" "pending q = []" and op: "pair_open q" and reg: "interest (prog q) fd0 = Some reg" "data_fd (ev_data reg) = fd0"
    and free: "Suc n \<le> card (free_addresses fd0 (prog q))" by (auto simp: listens_def)
  then obtain a where a: "a \<in> free_addresses fd0 (prog q)" by (metis card.empty all_not_in_conv not_less_eq_eq zero_le)
  from ok w(1) have q: "worker_ok fd0 (fds_of p S) (pending q) (prog q)" "dom (tab q) \<subseteq> fds_of p S"
    by (simp_all add: sys_ok_def proc_ok_def)
  have fin: "finite (fds_of p S)"
    by (rule finite_subset [of _ "(fst \<circ> snd) ` set (s_taken S)"]) (force simp: fds_of_def)+
  with finite_subset [OF q(2)] obtain f where f: "0 \<le> f" "f \<notin> insert fd0 (insert (epfd (prog q)) (dom (tab q) \<union> fds_of p S))"
    by (metis finite.insertI finite_UnI new_number)
  define I where "I = sample_inputs\<lparr>in_rcv := RcvMsg ''ab''
    (Some \<lparr>cmsg_len = CMSG_LEN_INT, cmsg_level = SOL_SOCKET, cmsg_type = SCM_RIGHTS, cmsg_data = f\<rparr>), in_tcp := a, in_req := a\<rparr>"
  have rep: "reported (prog q) reg" using reg(1) by (auto simp: reported_def)
  have new: "new_addresses fd0 I (prog q)" using a by (simp add: new_addresses_def free_addresses_def I_def)
  have rcv: "receives fd0 reg I q (s_net S) = Some ((s_net S)\<lparr>wire := ks\<rparr>, (tab q)(f \<mapsto> k), [(f, k)])"
    using f next_one op by (auto simp: receives_def reg(2) deliver_def I_def passes_fd_def Let_def)
  obtain W' tcp where run: "handle_event fd0 reg I ((prog q)\<lparr>kworld := offer [SysOk 2, SysOk 0, SysOk 0] (kworld (prog q))\<rparr>) = Some (Inr (W', False))"
    and W': "trace (kworld W') = trace (kworld (prog q)) @ [(CFcntlGet f, SysOk 2), (CFcntlSet f (or 2 O_NONBLOCK), SysOk 0),
        (CEpollCtl (epfd (prog q)) EPOLL_CTL_ADD f, SysOk 0)]"
      "interest W' = (interest (prog q))(f \<mapsto> \<lparr>events = EPOLLIN, ev_data = a\<rparr>)"
      "tcps W' = (tcps (prog q))(a \<mapsto> tcp)" "reqs W' = reqs (prog q)"
    by (simp add: handle_event_def reg(2) new_client_def Sock_fd_read_def Let_def http_tcp_alloc_def
        alloc_http_context_def Setnoblock_def ctl_simps epoll_apply_def EPOLL_CTL_ADD_def EPOLL_CTL_DEL_def
        sample_inputs_def I_def)
  have "interest (prog q) f = None" using f(2) q(1) by (auto simp: worker_ok_def)
  then have h: "honest (interest (prog q)) ((tab q)(f \<mapsto> k)) (new_calls (kworld (prog q)) (kworld W'))"
    by (auto simp: new_calls_append [OF W'(1)] honest_def)
  let ?q = "handled fd0 q ((tab q)(f \<mapsto> k)) W' True"
  let ?S = "S\<lparr>s_net := (s_net S)\<lparr>wire := ks\<rparr>, s_workers := (s_workers S)(p \<mapsto> ?q), s_taken := s_taken S @ map (Pair p) [(f, k)]\<rparr>"
  have "prog ?q = W'" "pending ?q = []" "pair_open ?q"
    using op by (simp_all add: handled_def new_calls_append [OF W'(1)] closes_def)
  moreover have "free_addresses fd0 (prog q) = insert a (free_addresses fd0 W')" "a \<notin> free_addresses fd0 W'"
    using a by (auto simp: free_addresses_def W')
  then have "n \<le> card (free_addresses fd0 W')" using free by simp
  ultimately have "listens fd0 p ?S n"
    using reg f(2) by (simp add: listens_def W')
  with fetch_and_serve [OF w rep new rcv run h] f(1) show ?thesis by (intro exI [of _ ?S] exI [of _ f]) simp
qed

text \<open>
  C10. No connection is stuck: from every state of every run in which one worker
  still waits on the pair and has memory for the waiting connections, there
  is a run in which the workers receive them all, in order, with their descriptors.
\<close>

theorem connections_deliverable:
  assumes "booted fd0 S0" "sys_run fd0 S0 S" "listens fd0 p S (length (wire (s_net S)))"
  shows "\<exists>S'. sys_run fd0 S S' \<and> wire (s_net S') = [] \<and> arrived (s_net S') = arrived (s_net S) \<and>
    (\<exists>fs. length fs = length (wire (s_net S)) \<and> (\<forall>f\<in>set fs. 0 \<le> f) \<and>
      s_taken S' = s_taken S @ map (Pair p) (zip fs (wire (s_net S))))"
proof -
  have "sys_ok fd0 S" using sys_run_ok [OF assms(2) booted_ok [OF assms(1)]] .
  then show ?thesis using assms(3)
  proof (induction "wire (s_net S)" arbitrary: S)
    case Nil
    then show ?case by (intro exI [of _ S]) simp
  next
    case (Cons k ks)
    then have "listens fd0 p S (Suc (length ks))" by (simp flip: Cons.hyps(2))
    from delivery_step [OF Cons.prems(1) this Cons.hyps(2) [symmetric]] obtain S1 f where
      S1: "sys_run fd0 S S1" "0 \<le> f" "s_taken S1 = s_taken S @ [(p, f, k)]" "s_net S1 = (s_net S)\<lparr>wire := ks\<rparr>"
        "listens fd0 p S1 (length ks)" by blast
    from Cons.hyps(1) [of S1] S1 sys_run_ok [OF S1(1) Cons.prems(1)] obtain S' fs where
      "sys_run fd0 S1 S'" "wire (s_net S') = []" "arrived (s_net S') = arrived (s_net S1)" "length fs = length ks"
      "\<forall>f\<in>set fs. 0 \<le> f" "s_taken S' = s_taken S1 @ map (Pair p) (zip fs ks)" by auto
    then show ?case
      using S1 Cons.hyps(2) [symmetric]
      by (intro exI [of _ S'] conjI exI [of _ "f # fs"]) (auto intro: rtranclp_trans)
  qed
qed

theorem connections_deliverable_witness:
  "\<exists>S'. sys_run 6 accepted_system S' \<and> wire (s_net S') = [] \<and> map (snd \<circ> snd) (s_taken S') = [0, 0]"
proof -
  have "{0, 0x1000} \<subseteq> free_addresses 6 (sample_worker [])"
    by (simp add: free_addresses_def sample_worker_def data_fd_def)
  moreover have "finite (free_addresses 6 (sample_worker []))" by (rule finite_subset [OF subset_UNIV]) simp
  ultimately have "card {0, 0x1000 :: 64 word} \<le> card (free_addresses 6 (sample_worker []))" by (intro card_mono)
  then have "listens 6 101 accepted_system (length (wire (s_net accepted_system)))"
    by (simp add: listens_def accepted_system_def sample_system_def sample_reg_fd free_addresses_def)
  from connections_deliverable [OF sample_booted r_into_rtranclp [of "sys_step 6", OF accepted_step] this]
  obtain S' and fs :: "int list" where "sys_run 6 accepted_system S'" "wire (s_net S') = []"
    "length fs = length (wire (s_net accepted_system))"
    "s_taken S' = s_taken accepted_system @ map (Pair 101) (zip fs (wire (s_net accepted_system)))" by blast
  moreover have "wire (s_net accepted_system) = [0, 0]" "s_taken accepted_system = []"
    by (simp_all add: accepted_system_def sample_system_def)
  ultimately show ?thesis by (intro exI [of _ S']) (auto simp: length_Suc_conv numeral_2_eq_2)
qed

section \<open>The boot\<close>

text \<open>
  The system at the moment when every process enters its endless loop: what
  \<open>start\<close> and the \<open>jump_task_pool_obj\<close> of each worker reach when no event ever
  comes.  \<open>g\<close>, \<open>cl\<close> and \<open>k\<close> are the uninitialised locals and the system calls of
  each worker.
\<close>

definition boot ::
  "int \<times> int \<Rightarrow> int list \<Rightarrow> pool \<Rightarrow> addrinfo list \<Rightarrow> bool \<Rightarrow> int \<Rightarrow> 64 word \<Rightarrow> string \<Rightarrow> world \<Rightarrow>
   (int \<Rightarrow> 64 word) \<Rightarrow> (int \<Rightarrow> int) \<Rightarrow> (int \<Rightarrow> world) \<Rightarrow> (pool \<times> system) option" where
  "boot sv forks P addrs mem c d b w g cl k =
     (case start sv forks P addrs mem c d b [] w of
        Some (Inr (P', M, _)) \<Rightarrow> Some (P', \<lparr>s_main = M, s_net = empty_net,
          s_workers = (\<lambda>p. if p \<in> set forks then
            (case jump_task_pool_obj sv (g p) (cl p) [] (k p) of
               Inr (W, _) \<Rightarrow> Some \<lparr>prog = W, tab = Map.empty, pending = [], pair_open = True\<rparr>
             | Inl _ \<Rightarrow> None)
            else None),
          s_taken = []\<rparr>)
      | _ \<Rightarrow> None)"

text \<open>
  C11. The server boots: when the system calls of \<open>start\<close> and of the ten workers
  succeed, the main process and the processes whose pids are in its pool enter
  their loops in a state from which all of the above holds, with the two ends
  of the pair in the right hands.
\<close>

theorem server_boots:
  assumes "NPROC_MAX_NUM \<le> n" "length forks = NPROC_MAX_NUM" "\<forall>f\<in>set forks. 0 < f"
    and "outcomes w = SysOk 0 # SysOk 0 # SysOk l # SysOk 0 # SysOk 0 # SysOk 0 # SysOk fl # SysOk 0 # SysOk 0 # SysOk e # SysOk 0 # rs"
    and "0 \<le> l" "l < 2 ^ 31" "0 \<le> fl" "0 \<le> e" "length b = 2" "- (2 ^ 31) \<le> f0" "f0 < 2 ^ 31"
    and "\<forall>p\<in>set forks. \<exists>r ep old v x rs'. outcomes (k p) = r # SysOk ep # SysOk old # SysOk v # SysOk x # rs' \<and>
      0 \<le> ep \<and> 0 \<le> old \<and> 0 \<le> v \<and> 0 \<le> x"
  shows "\<exists>P S. boot (f0, f1) forks (init_pool n) (a # as) True c d b w g cl k = Some (P, S) \<and>
    pool_rel P (map fresh_proc forks) \<and> booted f0 S \<and> dom (s_workers S) = set forks \<and> m_sock (s_main S) = f1"
proof -
  from start_ready [OF assms(1-8), of "(f0, f1)" a as c d b] obtain P M ev where
    M: "start (f0, f1) forks (init_pool n) (a # as) True c d b [] w = Some (Inr (P, master_loop [] M))"
      "pool_rel P (map fresh_proc forks)" "m_sock M = f1"
    and init: "m_listen M = l" "m_buf M = b" "m_count M = 0" "\<not> m_freed M" "m_interest M = [l \<mapsto> ev]"
      "events ev = EPOLLIN" "data_fd (ev_data ev) = l" by auto
  have ok: "main_ok M empty_net"
    unfolding main_ok_def using init assms(9) by (intro conjI exI [of _ ev]) (simp_all add: empty_net_def lessThan_def)
  have "\<forall>p\<in>set forks. \<exists>W. jump_task_pool_obj (f0, f1) (g p) (cl p) [] (k p) = Inr (W, Some Blocked) \<and>
      tcps W = Map.empty \<and> reqs W = Map.empty \<and> sent W = [] \<and> (\<exists>reg. interest W = [f0 \<mapsto> reg] \<and> events reg = EPOLLIN \<and> data_fd (ev_data reg) = f0)"
  proof
    fix p assume "p \<in> set forks"
    with assms(12) obtain r ep old v x rs' where "outcomes (k p) = r # SysOk ep # SysOk old # SysOk v # SysOk x # rs'"
      "0 \<le> ep" "0 \<le> old" "0 \<le> v" "0 \<le> x" by blast
    from worker_starts [OF this assms(10,11), of f1 "g p" "cl p"]
    show "\<exists>W. jump_task_pool_obj (f0, f1) (g p) (cl p) [] (k p) = Inr (W, Some Blocked) \<and>
      tcps W = Map.empty \<and> reqs W = Map.empty \<and> sent W = [] \<and> (\<exists>reg. interest W = [f0 \<mapsto> reg] \<and> events reg = EPOLLIN \<and> data_fd (ev_data reg) = f0)"
      by fastforce
  qed
  then obtain Ws where Ws: "\<forall>p\<in>set forks. jump_task_pool_obj (f0, f1) (g p) (cl p) [] (k p) = Inr (Ws p, Some Blocked) \<and>
      tcps (Ws p) = Map.empty \<and> reqs (Ws p) = Map.empty \<and> sent (Ws p) = [] \<and>
      (\<exists>reg. interest (Ws p) = [f0 \<mapsto> reg] \<and> events reg = EPOLLIN \<and> data_fd (ev_data reg) = f0)"
    by (rule bchoice [THEN exE])
  let ?S = "\<lparr>s_main = M, s_net = empty_net,
    s_workers = (\<lambda>p. if p \<in> set forks then Some \<lparr>prog = Ws p, tab = Map.empty, pending = [], pair_open = True\<rparr> else None),
    s_taken = []\<rparr>"
  have "boot (f0, f1) forks (init_pool n) (a # as) True c d b w g cl k = Some (P, ?S)"
    using M(1) Ws by (simp add: boot_def fun_eq_iff)
  moreover have "booted f0 ?S" using ok Ws by (simp add: booted_def)
  moreover have "dom (s_workers ?S) = set forks" by (auto split: if_splits)
  ultimately show ?thesis using M(2,3) by fastforce
qed

theorem server_boots_witness:
  "\<exists>P S. boot (6, 7) ten_pids (init_pool 10) [addr 1] True 0 0 ''ab''
      \<lparr>outcomes = [SysOk 0, SysOk 0, SysOk 3, SysOk 0, SysOk 0, SysOk 0, SysOk 2, SysOk 0, SysOk 0, SysOk 4, SysOk 0], trace = []\<rparr>
      (\<lambda>p. 0) (\<lambda>p. 0) (\<lambda>p. \<lparr>outcomes = [SysOk 0, SysOk 4, SysOk 2, SysOk 0, SysOk 0], trace = []\<rparr>)
    = Some (P, S) \<and> booted 6 S \<and> dom (s_workers S) = set ten_pids \<and> m_sock (s_main S) = 7"
  using server_boots [of 10 ten_pids "\<lparr>outcomes = [SysOk 0, SysOk 0, SysOk 3, SysOk 0, SysOk 0, SysOk 0, SysOk 2,
      SysOk 0, SysOk 0, SysOk 4, SysOk 0], trace = []\<rparr>" 3 2 4 "[]" "''ab''" 6
      "\<lambda>p. \<lparr>outcomes = [SysOk 0, SysOk 4, SysOk 2, SysOk 0, SysOk 0], trace = []\<rparr>" 7 "addr 1" "[]" 0 0
      "\<lambda>p. 0" "\<lambda>p. 0"]
  by (fastforce simp: ten_pids_def NPROC_MAX_NUM_def)

section \<open>The end\<close>

text \<open>
  A signal to a worker: the handler that \<open>start\<close> installed before the fork runs;
  without one the kernel ends the process.
\<close>

definition signal_workers :: "int \<Rightarrow> int list \<Rightarrow> system \<Rightarrow> system" where
  "signal_workers sig pids S = S\<lparr>s_workers := (\<lambda>p. if p \<in> set pids then
     (case start_handlers sig of
        Some h \<Rightarrow> (case h sig of Inl e \<Rightarrow> None | Inr _ \<Rightarrow> s_workers S p)
      | None \<Rightarrow> None)
     else s_workers S p)\<rparr>"

lemma no_workers_run:
  assumes "sys_run fd0 S S'" "s_workers S = Map.empty"
  shows "s_workers S' = Map.empty \<and> s_taken S' = s_taken S"
  using assms by (induction rule: rtranclp_induct) (auto elim: sys_stepE)

text \<open>
  C39. \<open>tell_chld_exit\<close> shuts the workers down: when the pool holds the pids of all
  workers, each of them gets \<open>SIGINT\<close> and exits, the pool is as before, and in no
  run from there is another connection received; those in the pair stay there.
\<close>

theorem tell_chld_exit_ends_workers:
  assumes "pool_rel P ps" "dom (s_workers S) \<subseteq> pid ` set ps"
  shows "\<exists>pids P'. tell_chld_exit P = Some (Inr (pids, P')) \<and> pool_rel P' ps \<and>
    (\<forall>S'. sys_run fd0 (signal_workers SIGINT pids S) S' \<longrightarrow>
      s_workers S' = Map.empty \<and> s_taken S' = s_taken S \<and>
      (\<exists>ks. wire (s_net S') = wire (s_net S) @ ks))"
proof -
  obtain P' where P': "tell_chld_exit P = Some (Inr (map pid ps, P'))" "pool_rel P' ps"
    using tell_chld_rel [OF assms(1)] by blast
  let ?S = "signal_workers SIGINT (map pid ps) S"
  have none: "s_workers ?S = Map.empty"
    using assms(2) by (auto simp: signal_workers_def start_handlers_def sig_int_kill_def SIGINT_def SIGQUIT_def fun_eq_iff domIff)
  have same: "s_taken ?S = s_taken S" "s_net ?S = s_net S" by (simp_all add: signal_workers_def)
  have "\<exists>ks. wire (s_net S') = wire (s_net S) @ ks" if "sys_run fd0 ?S S'" for S'
  proof -
    from server.queue_grows [OF that] no_workers_run [OF that none] same show ?thesis by (auto simp: view_def net_view_def)
  qed
  then show ?thesis
    using P' no_workers_run [OF _ none] same by (intro exI [of _ "map pid ps"] exI [of _ P']) auto
qed

theorem tell_chld_exit_ends_workers_witness:
  "\<exists>P pids P'. init_manager_proc ten_pids (init_pool 10) = Some (Inr P) \<and> tell_chld_exit P = Some (Inr (pids, P')) \<and>
    s_workers (signal_workers SIGINT pids accepted_system) = Map.empty"
proof -
  obtain P where P: "init_manager_proc ten_pids (init_pool 10) = Some (Inr P)" "pool_rel P (map fresh_proc ten_pids)"
    using init_manager_rel [of 10 ten_pids] by (auto simp: ten_pids_def NPROC_MAX_NUM_def)
  have "dom (s_workers accepted_system) \<subseteq> pid ` set (map fresh_proc ten_pids)"
    by (simp add: accepted_system_def sample_system_def ten_pids_def fresh_proc_def)
  from tell_chld_exit_ends_workers [OF P(2) this] P(1) show ?thesis by blast
qed

end
