(* ===== verification/Server_Loops.thy ===== *)
theory Server_Loops
  imports Server_Runs
begin

text \<open>
  The endless loops of \<open>start\<close> and \<open>jump_task_pool_obj\<close> composed: a schedule
  says which process wakes up from \<open>epoll_wait\<close> when, and with which events.
  Playing a schedule runs the code's own batches against the kernel, and what
  every process does is what its own loop does with its part of the schedule.
\<close>

section \<open>Schedules\<close>

text \<open>
  A worker handles a batch (compare \<open>handle_batch\<close>) against the state \<open>N\<close> of the
  kernel; \<open>None\<close> when the kernel does not behave so or the worker does not come
  back to \<open>epoll_wait\<close>.  The result has the messages received.
\<close>

fun serve_batch :: "int \<Rightarrow> (epoll_event \<times> inputs) list \<Rightarrow> wproc \<Rightarrow> net \<Rightarrow> (wproc \<times> net \<times> (int \<times> nat) list) option" where
  "serve_batch fd0 [] q N = Some (q, N, [])"
| "serve_batch fd0 ((ev, I) # evs) q N =
     (case receives fd0 ev I q N of
        None \<Rightarrow> None
      | Some (N', t, got) \<Rightarrow>
          (case handle_event fd0 ev I (prog q) of
             Some (Inr (W, brk)) \<Rightarrow>
               if new_addresses fd0 I (prog q) \<and> honest (interest (prog q)) t (new_calls (kworld (prog q)) (kworld W))
               then if brk then Some (handled fd0 q t W brk, N', got)
                 else map_option (\<lambda>(q', N'', got'). (q', N'', got @ got')) (serve_batch fd0 evs (handled fd0 q t W brk) N')
               else None
           | _ \<Rightarrow> None))"

text \<open>A turn of the main process, or of the worker with a process id.\<close>

datatype turn = Main_turn "epoll_event list" | Work_turn int "(epoll_event \<times> inputs) list"

definition play_turn :: "int \<Rightarrow> turn \<Rightarrow> system \<Rightarrow> system option" where
  "play_turn fd0 t S = (case t of
     Main_turn evs \<Rightarrow>
       (case master_batch evs (s_main S) of
          (M, None) \<Rightarrow>
            if \<forall>ev\<in>set evs. main_reports (s_main S) ev
            then map_option (\<lambda>N. S\<lparr>s_main := M, s_net := N\<rparr>) (net_run (s_net S) (new_calls (m_world (s_main S)) (m_world M)))
            else None
        | (M, Some e) \<Rightarrow> None)
   | Work_turn p evs \<Rightarrow>
       (case s_workers S p of
          Some q \<Rightarrow>
            if pending q = [] \<and> (\<forall>(ev, I)\<in>set evs. reported (prog q) ev)
            then map_option (\<lambda>(q', N, got). S\<lparr>s_net := N, s_workers := (s_workers S)(p \<mapsto> q'),
                s_taken := s_taken S @ map (Pair p) got\<rparr>) (serve_batch fd0 evs (q\<lparr>pending := map fst evs\<rparr>) (s_net S))
            else None
        | None \<Rightarrow> None))"

fun play :: "int \<Rightarrow> turn list \<Rightarrow> system \<Rightarrow> system option" where
  "play fd0 [] S = Some S"
| "play fd0 (t # ts) S = Option.bind (play_turn fd0 t S) (play fd0 ts)"

text \<open>What each process sees of a schedule.\<close>

fun main_batches :: "turn list \<Rightarrow> (errno + epoll_event list) list" where
  "main_batches [] = []"
| "main_batches (Main_turn evs # ts) = Inr evs # main_batches ts"
| "main_batches (Work_turn p evs # ts) = main_batches ts"

fun worker_batches :: "int \<Rightarrow> turn list \<Rightarrow> (errno + (epoll_event \<times> inputs) list) list" where
  "worker_batches r [] = []"
| "worker_batches r (Main_turn evs # ts) = worker_batches r ts"
| "worker_batches r (Work_turn p evs # ts) = (if p = r then Inr evs # worker_batches r ts else worker_batches r ts)"

section \<open>The loops of the code\<close>

text \<open>Serving a batch against the kernel is \<open>handle_batch\<close>, and a run of the system.\<close>

lemma pending_handled: "pending (handled fd0 q t W brk) = (if brk then [] else tl (pending q))"
  "prog (handled fd0 q t W brk) = W"
  by (simp_all add: handled_def Let_def)

lemma serve_batch_loop:
  "serve_batch fd0 evs q N = Some (q', N', got) \<Longrightarrow> pending q = map fst evs \<Longrightarrow>
   handle_batch fd0 evs (prog q) = (prog q', Some (Inr ())) \<and> pending q' = []"
proof (induction fd0 evs q N arbitrary: got rule: serve_batch.induct)
  case (2 fd0 ev I evs q N)
  from "2.prems"(1) obtain N1 t got1 W brk where rcv: "receives fd0 ev I q N = Some (N1, t, got1)"
    and run: "handle_event fd0 ev I (prog q) = Some (Inr (W, brk))"
    and ok: "new_addresses fd0 I (prog q) \<and> honest (interest (prog q)) t (new_calls (kworld (prog q)) (kworld W))"
    by (auto split: option.splits sum.splits if_splits)
  show ?case
  proof (cases brk)
    case True
    with "2.prems" rcv run ok show ?thesis by (auto simp: pending_handled)
  next
    case False
    with "2.prems"(1) rcv run ok obtain got2 where
      "serve_batch fd0 evs (handled fd0 q t W brk) N1 = Some (q', N', got2)" by auto
    with "2.IH" [OF rcv refl refl run refl refl ok False this] "2.prems"(2) run False show ?thesis
      by (simp add: pending_handled)
  qed
qed simp

lemma no_change: "s_workers S p = Some q \<Longrightarrow>
    S\<lparr>s_net := s_net S, s_workers := (s_workers S)(p \<mapsto> q), s_taken := s_taken S @ map (Pair p) []\<rparr> = S"
  by (cases S) (simp add: fun_upd_idem)

lemma serve_batch_run:
  "serve_batch fd0 evs q N = Some (q', N', got) \<Longrightarrow> pending q = map fst evs \<Longrightarrow> s_workers S p = Some q \<Longrightarrow> s_net S = N \<Longrightarrow>
   sys_run fd0 S (S\<lparr>s_net := N', s_workers := (s_workers S)(p \<mapsto> q'), s_taken := s_taken S @ map (Pair p) got\<rparr>)"
proof (induction fd0 evs q N arbitrary: S got rule: serve_batch.induct)
  case (1 fd0 q N)
  then have "q' = q" "got = []" "N' = s_net S" by auto
  with no_change [OF 1(3)] show ?case by (simp only: rtranclp.rtrancl_refl)
next
  case (2 fd0 ev I evs q N)
  from "2.prems"(1) obtain N1 t got1 W brk where rcv: "receives fd0 ev I q N = Some (N1, t, got1)"
    and run: "handle_event fd0 ev I (prog q) = Some (Inr (W, brk))"
    and ok: "new_addresses fd0 I (prog q) \<and> honest (interest (prog q)) t (new_calls (kworld (prog q)) (kworld W))"
    by (auto split: option.splits sum.splits if_splits)
  let ?q = "handled fd0 q t W brk"
  let ?S = "S\<lparr>s_net := N1, s_workers := (s_workers S)(p \<mapsto> ?q), s_taken := s_taken S @ map (Pair p) got1\<rparr>"
  have same: "(prog q)\<lparr>kworld := offer (outcomes (kworld (prog q))) (kworld (prog q))\<rparr> = prog q" by simp
  have step: "sys_step fd0 S ?S"
    using "2.prems"(2-4) rcv ok run
    by (intro sys_step.serve [where ev = ev and evs = "map fst evs" and I = I and rs = "outcomes (kworld (prog q))"])
      (simp_all add: same)
  show ?case
  proof (cases brk)
    case True
    with "2.prems"(1) rcv run ok have "q' = ?q" "N' = N1" "got = got1" by auto
    with step show ?thesis by (simp only: r_into_rtranclp)
  next
    case False
    with "2.prems"(1) rcv run ok obtain got2 where
      rest: "serve_batch fd0 evs ?q N1 = Some (q', N', got2)" "got = got1 @ got2" by auto
    with "2.IH" [OF rcv refl refl run refl refl ok False rest(1), of ?S] "2.prems"(2) False
    have "sys_run fd0 ?S (?S\<lparr>s_net := N', s_workers := (s_workers ?S)(p \<mapsto> q'), s_taken := s_taken ?S @ map (Pair p) got2\<rparr>)"
      by (simp add: pending_handled del: fun_upd_apply add: fun_upd_same)
    with step rest(2) show ?thesis by (simp add: converse_rtranclp_into_rtranclp del: fun_upd_apply)
  qed
qed

text \<open>The main process.\<close>

lemma master_event_trace:
  assumes "master_event ev M = Inr M'"
  shows "\<exists>cs. trace (m_world M') = trace (m_world M) @ cs"
proof -
  from assms consider n w where "accept_loop (m_listen M) (m_sock M) (m_buf M) (m_count M) (m_world M) = Inr (n, w)" "m_world M' = w"
    | c where "trace (m_world M') = trace (m_world M) @ [c]" | "trace (m_world M') = trace (m_world M)"
    by (auto simp: master_event_def bindE_eq_Inr Let_def Epoll_ctl_def sys_Inr unix_error_def split: if_splits)
  then show ?thesis
    by cases (use accept_loop_run in blast, auto)
qed

lemma master_batch_Cons: "master_batch (ev # evs) M = (M', None) \<longleftrightarrow>
    (\<exists>M1. master_event ev M = Inr M1 \<and> master_batch evs M1 = (M', None))"
  by (auto split: sum.splits)

lemma master_batch_trace: "master_batch evs M = (M', None) \<Longrightarrow> \<exists>cs. trace (m_world M') = trace (m_world M) @ cs"
proof (induction evs arbitrary: M)
  case (Cons ev evs)
  then obtain M1 where "master_event ev M = Inr M1" "master_batch evs M1 = (M', None)"
    unfolding master_batch_Cons by blast
  with master_event_trace Cons.IH show ?case by fastforce
qed simp

lemma main_event_interest:
  assumes "main_ok M N" "main_reports M ev" "master_event ev M = Inr M'"
  shows "m_interest M' = m_interest M"
proof -
  have "M\<lparr>m_world := m_world M\<rparr> = M" by simp
  with main_event [OF assms(1,2), of "m_world M"] have ev: "master_event ev M =
    (if and (events ev) EPOLLERR \<noteq> 0 \<or> and (events ev) EPOLLHUP \<noteq> 0 then
       bindE (sys (CClose (m_listen M)) (m_world M)) (\<lambda>_. unix_error)
     else bindE (accept_loop (m_listen M) (m_sock M) (m_buf M) (m_count M) (m_world M)) (\<lambda>(n, w).
       Inr (M\<lparr>m_client := 0, m_count := n, m_world := w\<rparr>)))" by (simp only:)
  from assms(3) show ?thesis unfolding ev by (auto simp: bindE_eq_Inr unix_error_def split: if_splits)
qed

lemma master_batch_run:
  "master_batch evs (s_main S) = (M', None) \<Longrightarrow> main_ok (s_main S) (s_net S) \<Longrightarrow> \<forall>ev\<in>set evs. main_reports (s_main S) ev \<Longrightarrow>
   net_run (s_net S) (new_calls (m_world (s_main S)) (m_world M')) = Some N' \<Longrightarrow>
   sys_run fd0 S (S\<lparr>s_main := M', s_net := N'\<rparr>)"
proof (induction evs arbitrary: S)
  case Nil
  then have "M' = s_main S" "N' = s_net S" by (auto simp: new_calls_def)
  then show ?case by (cases S) simp
next
  case (Cons ev evs)
  let ?M = "s_main S"
  from Cons.prems(1) obtain M1 where M1: "master_event ev ?M = Inr M1" "master_batch evs M1 = (M', None)"
    unfolding master_batch_Cons by blast
  from Cons.prems(3) have rep: "main_reports ?M ev" by simp
  have same: "?M\<lparr>m_world := offer (outcomes (m_world ?M)) (m_world ?M)\<rparr> = ?M" by simp
  from master_event_trace [OF M1(1)] master_batch_trace [OF M1(2)] obtain cs cs' where
    cs: "trace (m_world M1) = trace (m_world ?M) @ cs" "trace (m_world M') = trace (m_world M1) @ cs'" by blast
  with Cons.prems(4) obtain N1 where N1: "net_run (s_net S) cs = Some N1" "net_run N1 cs' = Some N'"
    by (auto simp: net_run_append bind_eq_Some_conv)
  let ?S = "S\<lparr>s_main := M1, s_net := N1\<rparr>"
  have M1': "master_event ev (?M\<lparr>m_world := offer (outcomes (m_world ?M)) (m_world ?M)\<rparr>) = Inr M1"
    "net_run (s_net S) (new_calls (m_world ?M) (m_world M1)) = Some N1"
    using M1(1) N1(1) cs(1) by (simp_all only: same new_calls_append)
  have step: "sys_step fd0 S ?S" by (rule sys_step.main [OF rep M1'])
  have "main_ok M1 N1" using main_ok_step [OF Cons.prems(2) rep M1'] by simp
  moreover have "\<forall>ev\<in>set evs. main_reports M1 ev"
    using Cons.prems(3) main_event_interest [OF Cons.prems(2) rep M1(1)] by (simp add: main_reports_def)
  ultimately have "sys_run fd0 ?S (?S\<lparr>s_main := M', s_net := N'\<rparr>)"
    using M1(2) N1(2) cs(2) by (intro Cons.IH) simp_all
  with step show ?case by (simp add: converse_rtranclp_into_rtranclp)
qed

text \<open>A schedule.\<close>

lemma play_turn_run:
  assumes "play_turn fd0 t S = Some S'" "sys_ok fd0 S"
  shows "sys_run fd0 S S'"
proof (cases t)
  case (Main_turn evs)
  with assms(1) obtain M N where M: "master_batch evs (s_main S) = (M, None)" "\<forall>ev\<in>set evs. main_reports (s_main S) ev"
    "net_run (s_net S) (new_calls (m_world (s_main S)) (m_world M)) = Some N" "S' = S\<lparr>s_main := M, s_net := N\<rparr>"
    by (auto simp: play_turn_def split: prod.splits option.splits if_splits)
  from assms(2) have "main_ok (s_main S) (s_net S)" by (simp add: sys_ok_def)
  from master_batch_run [OF M(1) this M(2,3)] M(4) show ?thesis by simp
next
  case (Work_turn p evs)
  with assms(1) obtain q q' N got where q: "s_workers S p = Some q" "pending q = []" "\<forall>(ev, I)\<in>set evs. reported (prog q) ev"
    and run: "serve_batch fd0 evs (q\<lparr>pending := map fst evs\<rparr>) (s_net S) = Some (q', N, got)"
    and S': "S' = S\<lparr>s_net := N, s_workers := (s_workers S)(p \<mapsto> q'), s_taken := s_taken S @ map (Pair p) got\<rparr>"
    by (auto simp: play_turn_def split: option.splits if_splits)
  let ?S = "S\<lparr>s_workers := (s_workers S)(p \<mapsto> q\<lparr>pending := map fst evs\<rparr>)\<rparr>"
  have "sys_step fd0 S ?S" using q by (intro sys_step.wait) auto
  moreover from serve_batch_run [OF run, of ?S p] have "sys_run fd0 ?S S'" by (simp add: S')
  ultimately show ?thesis by (rule converse_rtranclp_into_rtranclp)
qed

lemma play_run: "play fd0 ts S = Some S' \<Longrightarrow> sys_ok fd0 S \<Longrightarrow> sys_run fd0 S S'"
proof (induction ts arbitrary: S)
  case (Cons t ts)
  then obtain S1 where S1: "play_turn fd0 t S = Some S1" "play fd0 ts S1 = Some S'"
    by (auto simp: bind_eq_Some_conv)
  from play_turn_run [OF S1(1) Cons.prems(2)] have "sys_run fd0 S S1" .
  with Cons.IH [OF S1(2)] sys_run_ok Cons.prems(2) show ?case by (blast intro: rtranclp_trans)
qed simp

text \<open>The loop of the main process and the loop of each worker, on their parts of the schedule.\<close>

lemma play_main: "play fd0 ts S = Some S' \<Longrightarrow> sys_ok fd0 S \<Longrightarrow> master_loop (main_batches ts) (s_main S) = (s_main S', Blocked)"
proof (induction ts arbitrary: S)
  case (Cons t ts)
  then obtain S1 where S1: "play_turn fd0 t S = Some S1" "play fd0 ts S1 = Some S'"
    by (auto simp: bind_eq_Some_conv)
  from sys_run_ok [OF play_turn_run [OF S1(1) Cons.prems(2)] Cons.prems(2)]
  have IH: "master_loop (main_batches ts) (s_main S1) = (s_main S', Blocked)" by (rule Cons.IH [OF S1(2)])
  show ?case
  proof (cases t)
    case (Main_turn evs)
    with S1(1) have "master_batch evs (s_main S) = (s_main S1, None)"
      by (auto simp: play_turn_def split: prod.splits option.splits if_splits)
    moreover have "\<not> m_freed (s_main S)" using Cons.prems(2) by (simp add: sys_ok_def main_ok_def)
    ultimately show ?thesis using IH Main_turn by simp
  next
    case (Work_turn p evs)
    with S1(1) have "s_main S1 = s_main S" by (auto simp: play_turn_def split: option.splits if_splits)
    with IH Work_turn show ?thesis by simp
  qed
qed simp

lemma play_worker:
  "play fd0 ts S = Some S' \<Longrightarrow> s_workers S p = Some q \<Longrightarrow>
   \<exists>q'. s_workers S' p = Some q' \<and> worker_loop fd0 (worker_batches p ts) (prog q) = (prog q', Some Blocked)"
proof (induction ts arbitrary: S q)
  case (Cons t ts)
  then obtain S1 where S1: "play_turn fd0 t S = Some S1" "play fd0 ts S1 = Some S'"
    by (auto simp: bind_eq_Some_conv)
  show ?case
  proof (cases t)
    case (Main_turn evs)
    with S1(1) Cons.prems(2) have "s_workers S1 p = Some q"
      by (auto simp: play_turn_def split: prod.splits option.splits if_splits)
    with Cons.IH [OF S1(2)] Main_turn show ?thesis by simp
  next
    case (Work_turn r evs)
    with S1(1) obtain q1 q' N got where q1: "s_workers S r = Some q1"
      and run: "serve_batch fd0 evs (q1\<lparr>pending := map fst evs\<rparr>) (s_net S) = Some (q', N, got)"
      and w: "s_workers S1 = (s_workers S)(r \<mapsto> q')"
      by (auto simp: play_turn_def split: option.splits if_splits)
    from serve_batch_loop [OF run] have b: "handle_batch fd0 evs (prog q1) = (prog q', Some (Inr ()))" by simp
    show ?thesis
    proof (cases "r = p")
      case True
      with Cons.IH [OF S1(2), of q'] w Work_turn b q1 Cons.prems(2) show ?thesis by simp
    next
      case False
      with Cons.IH [OF S1(2), of q] w Work_turn Cons.prems(2) show ?thesis by simp
    qed
  qed
qed simp

section \<open>The whole server\<close>

text \<open>What \<open>start\<close> and a worker do with events, by what they do without any.\<close>

lemma start_loop:
  "start sv forks P addrs mem c d b [] w = Some (Inr (P', M, st)) \<Longrightarrow>
   start sv forks P addrs mem c d b bs w = Some (Inr (P', master_loop bs M))"
  by (auto simp: start_def bindE_eq_Inr Let_def split: sum.splits option.splits if_splits)

lemma jump_loop:
  "jump_task_pool_obj sv g c [] k = Inr (W, st) \<Longrightarrow> jump_task_pool_obj sv g c bs k = Inr (worker_loop (fst sv) bs W)"
  by (auto simp: jump_task_pool_obj_def bindE_eq_Inr split: if_splits)

text \<open>
  C12. The program as a whole: for every schedule that the kernel allows and in
  which no process stops (\<open>play\<close> gives \<open>None\<close> for the others), \<open>start\<close> on the
  events of the main process and \<open>jump_task_pool_obj\<close> of each worker on its own
  events wait again in the states of one run of the system from the boot, so
  that what holds of all runs holds of the program.
\<close>

theorem whole_server_runs:
  assumes "boot sv forks P0 addrs mem c d b w g cl k = Some (P, S)" "booted (fst sv) S" "play (fst sv) ts S = Some S'"
  shows "start sv forks P0 addrs mem c d b (main_batches ts) w = Some (Inr (P, s_main S', Blocked)) \<and>
    (\<forall>p\<in>dom (s_workers S). \<exists>q. s_workers S' p = Some q \<and>
      jump_task_pool_obj sv (g p) (cl p) (worker_batches p ts) (k p) = Inr (prog q, Some Blocked)) \<and>
    sys_run (fst sv) S S'"
proof -
  from assms(1) obtain M st where M: "start sv forks P0 addrs mem c d b [] w = Some (Inr (P, M, st))" "s_main S = M"
    and W: "s_workers S = (\<lambda>p. if p \<in> set forks then (case jump_task_pool_obj sv (g p) (cl p) [] (k p) of
        Inr (W, _) \<Rightarrow> Some \<lparr>prog = W, tab = Map.empty, pending = [], pair_open = True\<rparr> | Inl _ \<Rightarrow> None) else None)"
    by (auto simp: boot_def split: option.splits sum.splits)
  note ok = booted_ok [OF assms(2)]
  have "start sv forks P0 addrs mem c d b (main_batches ts) w = Some (Inr (P, s_main S', Blocked))"
    using start_loop [OF M(1), of "main_batches ts"] play_main [OF assms(3) ok] M(2) by simp
  moreover have "\<exists>q. s_workers S' p = Some q \<and>
      jump_task_pool_obj sv (g p) (cl p) (worker_batches p ts) (k p) = Inr (prog q, Some Blocked)"
    if "p \<in> dom (s_workers S)" for p
  proof -
    from that obtain q where q: "s_workers S p = Some q" by blast
    then obtain st' where "jump_task_pool_obj sv (g p) (cl p) [] (k p) = Inr (prog q, st')"
      by (auto simp: W split: if_splits sum.splits)
    from jump_loop [OF this, of "worker_batches p ts"] play_worker [OF assms(3) q] show ?thesis by auto
  qed
  ultimately show ?thesis using play_run [OF assms(3) ok] by blast
qed

text \<open>A run of the whole server: one client connects, and the process 101 receives the connection.\<close>

definition sample_boot :: world where
  "sample_boot = \<lparr>outcomes = [SysOk 0, SysOk 0, SysOk 3, SysOk 0, SysOk 0, SysOk 0, SysOk 2, SysOk 0, SysOk 0, SysOk 4, SysOk 0,
     SysOk 8, SysOk 2, SysErr EAGAIN], trace = []\<rparr>"

definition sample_fork :: world where
  "sample_fork = \<lparr>outcomes = [SysOk 0, SysOk 4, SysOk 2, SysOk 0, SysOk 0, SysOk 2, SysOk 0, SysOk 0], trace = []\<rparr>"

lemma sample_main_turn:
  assumes "main_ok M empty_net" "m_interest M = [3 \<mapsto> ev]" "events ev = EPOLLIN" "m_listen M = 3" "m_sock M = 7" "m_buf M = ''ab''"
    "m_count M = 0" "outcomes (m_world M) = [SysOk 8, SysOk 2, SysErr EAGAIN]"
  shows "\<exists>M'. play_turn 6 (Main_turn [ev]) \<lparr>s_main = M, s_net = empty_net, s_workers = Ws, s_taken = []\<rparr> =
    Some \<lparr>s_main = M', s_net = \<lparr>main_tab = [8 \<mapsto> 0], arrived = 1, refused = 0, wire = [0]\<rparr>, s_workers = Ws, s_taken = []\<rparr>"
proof -
  have rep: "main_reports M ev" using assms(2) by (auto simp: main_reports_def)
  let ?w = "(m_world M)\<lparr>outcomes := [], trace := trace (m_world M) @ handed 3 7 [8] @ [(CAccept 3, SysErr EAGAIN)]\<rparr>"
  have "master_event ev (M\<lparr>m_world := m_world M\<rparr>) = Inr (M\<lparr>m_client := 0, m_count := 1, m_world := ?w\<rparr>)"
    unfolding main_event [OF assms(1) rep]
    using accept_loop_arrivals [of "m_world M" "[8]" EAGAIN "[]" "''ab''" 3 7 0] assms
    by (simp add: EPOLLIN_def EPOLLERR_def EPOLLHUP_def)
  then have ev: "master_event ev M = Inr (M\<lparr>m_client := 0, m_count := 1, m_world := ?w\<rparr>)" by simp
  have "new_calls (m_world M) ?w = handed 3 7 [8] @ [(CAccept 3, SysErr EAGAIN)]" by (rule new_calls_append) simp
  with ev rep show ?thesis
    by (intro exI [of _ "M\<lparr>m_client := 0, m_count := 1, m_world := ?w\<rparr>"]) (simp add: play_turn_def empty_net_def)
qed

lemma sample_worker_turn:
  assumes "interest W = [6 \<mapsto> reg]" "data_fd (ev_data reg) = 6" "epfd W = 4" "tcps W = Map.empty" "reqs W = Map.empty"
    "outcomes (kworld W) = [SysOk 2, SysOk 0, SysOk 0]"
    and S: "s_workers S 101 = Some \<lparr>prog = W, tab = Map.empty, pending = [], pair_open = True\<rparr>" "wire (s_net S) = [0]" "s_taken S = []"
  shows "\<exists>S' q. play_turn 6 (Work_turn 101 [(reg, sample_inputs)]) S = Some S' \<and> s_taken S' = [(101, 9, 0)] \<and> wire (s_net S') = [] \<and>
    s_workers S' 101 = Some q \<and> dom (interest (prog q)) = {6, 9}"
proof -
  let ?q = "\<lparr>prog = W, tab = Map.empty, pending = [reg], pair_open = True\<rparr>"
  have rcv: "receives 6 reg sample_inputs ?q (s_net S) = Some ((s_net S)\<lparr>wire := []\<rparr>, [9 \<mapsto> 0], [(9, 0)])"
    using assms(2,3) S by (simp add: receives_def deliver_def sample_inputs_def passes_fd_def Let_def)
  obtain W' where run: "handle_event 6 reg sample_inputs W = Some (Inr (W', False))"
    and W': "trace (kworld W') = trace (kworld W) @ [(CFcntlGet 9, SysOk 2), (CFcntlSet 9 (or 2 O_NONBLOCK), SysOk 0),
        (CEpollCtl 4 EPOLL_CTL_ADD 9, SysOk 0)]" "dom (interest W') = {6, 9}"
    using assms(1-6) by (simp add: handle_event_def new_client_def Sock_fd_read_def Let_def http_tcp_alloc_def
        alloc_http_context_def Setnoblock_def ctl_simps epoll_apply_def EPOLL_CTL_ADD_def EPOLL_CTL_DEL_def
        sample_inputs_def) auto
  have h: "honest (interest W) [9 \<mapsto> 0] (new_calls (kworld W) (kworld W'))"
    using assms(1) by (simp add: new_calls_append [OF W'(1)] honest_def)
  have new: "new_addresses 6 sample_inputs W"
    using assms(4,5) by (simp add: new_addresses_def sample_inputs_def data_fd_def)
  have "serve_batch 6 [(reg, sample_inputs)] ?q (s_net S) =
      Some (handled 6 ?q [9 \<mapsto> 0] W' False, (s_net S)\<lparr>wire := []\<rparr>, [(9, 0)])"
    using rcv run new h by simp
  moreover have "reported W reg" using assms(1) by (auto simp: reported_def)
  ultimately show ?thesis
    using S W'(2) by (simp add: play_turn_def pending_handled)
qed

theorem whole_server_runs_witness:
  "\<exists>P S S' ev reg (q :: wproc). boot (6, 7) ten_pids (init_pool 10) [addr 1] True 0 0 ''ab'' sample_boot (\<lambda>p. 0) (\<lambda>p. 0) (\<lambda>p. sample_fork) = Some (P, S) \<and>
    start (6, 7) ten_pids (init_pool 10) [addr 1] True 0 0 ''ab'' [Inr [ev]] sample_boot = Some (Inr (P, s_main S', Blocked)) \<and>
    jump_task_pool_obj (6, 7) 0 0 [Inr [(reg, sample_inputs)]] sample_fork = Inr (prog q, Some Blocked) \<and>
    dom (interest (prog q)) = {6, 9} \<and> sys_run 6 S S' \<and> s_taken S' = [(101, 9, 0)] \<and> wire (s_net S') = []"
proof -
  from start_ready [of 10 ten_pids sample_boot 3 2 4 "[SysOk 8, SysOk 2, SysErr EAGAIN]" "(6, 7)" "addr 1" "[]" 0 0 "''ab''"]
  obtain P M ev where start: "start (6, 7) ten_pids (init_pool 10) [addr 1] True 0 0 ''ab'' [] sample_boot = Some (Inr (P, M, Blocked))"
    and M: "m_listen M = 3" "m_sock M = 7" "m_buf M = ''ab''" "m_count M = 0" "\<not> m_freed M" "m_interest M = [3 \<mapsto> ev]"
      "events ev = EPOLLIN" "data_fd (ev_data ev) = 3" "outcomes (m_world M) = [SysOk 8, SysOk 2, SysErr EAGAIN]"
    by (fastforce simp: sample_boot_def ten_pids_def NPROC_MAX_NUM_def)
  from worker_starts [of sample_fork "SysOk 0" 4 2 0 0 "[SysOk 2, SysOk 0, SysOk 0]" 6 7 0 0]
  obtain W reg where jump: "jump_task_pool_obj (6, 7) 0 0 [] sample_fork = Inr (W, Some Blocked)"
    and W: "interest W = [6 \<mapsto> reg]" "events reg = EPOLLIN" "data_fd (ev_data reg) = 6" "epfd W = 4" "tcps W = Map.empty" "reqs W = Map.empty"
      "outcomes (kworld W) = [SysOk 2, SysOk 0, SysOk 0]" "sent W = []"
    by (fastforce simp: sample_fork_def)
  have ok: "main_ok M empty_net"
    unfolding main_ok_def using M by (intro conjI exI [of _ ev]) (simp_all add: empty_net_def lessThan_def)
  let ?Ws = "\<lambda>p. if p \<in> set ten_pids then Some \<lparr>prog = W, tab = Map.empty, pending = [], pair_open = True\<rparr> else None"
  let ?S = "\<lparr>s_main = M, s_net = empty_net, s_workers = ?Ws, s_taken = []\<rparr>"
  have boot: "boot (6, 7) ten_pids (init_pool 10) [addr 1] True 0 0 ''ab'' sample_boot (\<lambda>p. 0) (\<lambda>p. 0) (\<lambda>p. sample_fork) = Some (P, ?S)"
    by (simp add: boot_def start [simplified] jump fun_eq_iff)
  have booted: "booted (fst (6, 7)) ?S" using ok W by (auto simp: booted_def intro!: exI [of _ reg] split: if_splits)
  have pid: "101 \<in> set ten_pids" by (simp add: ten_pids_def)
  from sample_main_turn [OF ok M(6,7,1-4,9), of ?Ws] obtain M' where
    t1: "play_turn 6 (Main_turn [ev]) ?S = Some \<lparr>s_main = M', s_net = \<lparr>main_tab = [8 \<mapsto> 0], arrived = 1, refused = 0, wire = [0]\<rparr>,
      s_workers = ?Ws, s_taken = []\<rparr>" by blast
  have pre: "s_workers \<lparr>s_main = M', s_net = \<lparr>main_tab = [8 \<mapsto> 0], arrived = 1, refused = 0, wire = [0]\<rparr>,
      s_workers = ?Ws, s_taken = []\<rparr> 101 = Some \<lparr>prog = W, tab = Map.empty, pending = [], pair_open = True\<rparr>"
    using pid by simp
  from sample_worker_turn [OF W(1,3-7) pre] obtain S' q where
    t2: "play_turn 6 (Work_turn 101 [(reg, sample_inputs)]) \<lparr>s_main = M', s_net = \<lparr>main_tab = [8 \<mapsto> 0], arrived = 1, refused = 0, wire = [0]\<rparr>,
      s_workers = ?Ws, s_taken = []\<rparr> = Some S'"
    and S': "s_taken S' = [(101, 9, 0)]" "wire (s_net S') = []" "s_workers S' 101 = Some q" "dom (interest (prog q)) = {6, 9}"
    by auto
  have play: "play (fst (6, 7)) [Main_turn [ev], Work_turn 101 [(reg, sample_inputs)]] ?S = Some S'"
    by (simp only: play.simps fst_conv t1 t2 bind.bind_lunit)
  note whole = whole_server_runs [OF boot booted play]
  have mem: "101 \<in> dom (s_workers ?S)" using pid by (simp add: domIff)
  have "start (6, 7) ten_pids (init_pool 10) [addr 1] True 0 0 ''ab'' [Inr [ev]] sample_boot = Some (Inr (P, s_main S', Blocked))"
    using conjunct1 [OF whole] by (simp only: main_batches.simps)
  moreover have "jump_task_pool_obj (6, 7) 0 0 [Inr [(reg, sample_inputs)]] sample_fork = Inr (prog q, Some Blocked)"
    using bspec [OF conjunct1 [OF conjunct2 [OF whole]] mem] S'(3) by simp
  moreover have "sys_run 6 ?S S'" using conjunct2 [OF conjunct2 [OF whole]] by (simp only: fst_conv)
  ultimately show ?thesis using boot S'(1,2,4) by (intro exI conjI) assumption+
qed

end
