(* ===== verification/Message_Queues.thy ===== *)
theory Message_Queues
  imports Sys_Calls
begin

text \<open>
  The message queues of \<open>inc/http_ipc.h\<close>.  The array \<open>arr\<close> of the three queue
  identifiers is the state; a message is its type, its text and its pid.
\<close>

section \<open>Operations\<close>

record msg_t =
  mtype :: int
  mcontext :: string
  msg_pid :: int

text \<open>\<open>sizeof(msg_t) - sizeof(long)\<close> with \<open>char mcontext[1024]\<close>, \<open>int pid\<close> and padding.\<close>

definition msg_length :: int where "msg_length = 1032"

definition queue_for :: "int \<Rightarrow> world \<Rightarrow> (int \<times> world) exec" where
  "queue_for i w =
     bindE (Ftok i w) (\<lambda>(key, w).
     bindE (sys (CMsgget key) w) (\<lambda>(r, w). if sys_val r = - 1 then check else Inr (sys_val r, w)))"

definition open_queue :: "world \<Rightarrow> (int \<times> world) exec" where
  "open_queue = queue_for 1"

definition open_queue2 :: "world \<Rightarrow> (int \<times> world) exec" where
  "open_queue2 = queue_for 2"

definition open_queue3 :: "world \<Rightarrow> (int \<times> world) exec" where
  "open_queue3 = queue_for 3"

text \<open>\<open>send_queue\<close> assigns the comparison \<open>msgsnd(...) == -1\<close> to \<open>result\<close>.\<close>

definition send_queue :: "int \<Rightarrow> msg_t \<Rightarrow> world \<Rightarrow> (int \<times> world) exec" where
  "send_queue msgid p w =
     bindE (sys (CMsgsnd msgid msg_length) w) (\<lambda>(r, w).
     let result = (if sys_val r = - 1 then 1 else 0 :: int) in
     if result \<noteq> 0 then check else Inr (result, w))"

text \<open>\<open>rcv_queue\<close>: \<open>m\<close> is the message the kernel delivers, \<open>p\<close> the caller's structure.\<close>

definition rcv_queue :: "int \<Rightarrow> msg_t \<Rightarrow> msg_t \<Rightarrow> int \<Rightarrow> world \<Rightarrow> (int \<times> msg_t \<times> world) exec" where
  "rcv_queue msgid m p type w =
     bindE (sys (CMsgrcv msgid msg_length type) w) (\<lambda>(r, w).
     if sys_val r = - 1 then check else Inr (sys_val r, m, w))"

definition peek_message :: "int \<Rightarrow> int \<Rightarrow> world \<Rightarrow> (int \<times> world) exec" where
  "peek_message qid type w =
     bindE (sys (CMsgrcv qid 0 type) w) (\<lambda>(r, w).
     if sys_val r = - 1 \<and> r = SysErr E2BIG then Inr (- 1, w) else Inr (0, w))"

text \<open>\<open>remove_message\<close> assigns the comparison \<open>msgctl(...) < 0\<close>.\<close>

definition remove_message :: "int \<Rightarrow> world \<Rightarrow> (int \<times> world) exec" where
  "remove_message msgqid w =
     bindE (sys (CMsgctlRm msgqid) w) (\<lambda>(r, w).
     let rval = (if sys_val r < 0 then 1 else 0 :: int) in
     if rval \<noteq> 0 then check else Inr (rval, w))"

definition create_queue :: "world \<Rightarrow> (int list \<times> world) exec" where
  "create_queue w =
     bindE (open_queue w) (\<lambda>(q0, w).
     bindE (open_queue2 w) (\<lambda>(q1, w).
     bindE (open_queue3 w) (\<lambda>(q2, w). Inr ([q0, q1, q2], w))))"

fun remove_loop :: "int list \<Rightarrow> world \<Rightarrow> world exec" where
  "remove_loop [] w = Inr w"
| "remove_loop (q # qs) w = bindE (remove_message q w) (\<lambda>(_, w). remove_loop qs w)"

definition destroy_queue :: "int list \<Rightarrow> world \<Rightarrow> world exec" where
  "destroy_queue arr w = remove_loop (take 3 arr) w"

section \<open>Queues in use\<close>

text \<open>The queues a trace has created or opened and not removed.\<close>

fun queues_step :: "call \<times> sys_ret \<Rightarrow> int set \<Rightarrow> int set" where
  "queues_step (CMsgget _, SysOk q) Q = insert q Q"
| "queues_step (CMsgctlRm q, SysOk _) Q = Q - {q}"
| "queues_step _ Q = Q"

definition queues :: "(call \<times> sys_ret) list \<Rightarrow> int set" where
  "queues tr = fold queues_step tr {}"

lemma queues_append: "queues (tr @ es) = fold queues_step es (queues tr)"
  by (simp add: queues_def)


lemma queue_for_result:
  assumes "kernel_ok w" "queue_for i w = Inr (q, w')"
  shows "kernel_ok w' \<and> (\<exists>key. trace w' = trace w @ [(CFtok i, SysOk key), (CMsgget key, SysOk q)])"
proof -
  from assms(2) obtain key w1 r where f: "Ftok i w = Inr (key, w1)" and g: "sys (CMsgget key) w1 = Inr (r, w')"
    and r: "sys_val r \<noteq> - 1" "q = sys_val r"
    by (auto simp: queue_for_def bindE_eq_Inr check_def split: if_splits)
  from Ftok.result [OF assms(1) f] g have "kernel_ok w'" "trace w' = trace w @ [(CFtok i, SysOk key), (CMsgget key, r)]"
    by (auto simp: sys_Inr kernel_ok_def)
  moreover have "r = SysOk q" using r by (cases r) auto
  ultimately show ?thesis by auto
qed

lemma remove_message_result:
  "remove_message q w = Inr (v, w') \<Longrightarrow> kernel_ok w \<Longrightarrow>
   v = 0 \<and> kernel_ok w' \<and> (\<exists>x. trace w' = trace w @ [(CMsgctlRm q, SysOk x)])"
  by (auto simp: remove_message_def bindE_eq_Inr sys_Inr check_def kernel_ok_def sys_val_def split: if_splits sys_ret.splits)

section \<open>Properties\<close>

text \<open>
  Life cycle of the queues: \<open>create_queue\<close> opens three queues under the keys
  1, 2 and 3, stores their identifiers in this order, and a \<open>destroy_queue\<close> that
  returns has removed exactly these, so no queue of this process is left.
\<close>

theorem queues_create_destroy:
  assumes "kernel_ok w" "create_queue w = Inr (arr, w1)" "destroy_queue arr w1 = Inr w2"
  shows "length arr = 3 \<and> (\<exists>k1 k2 k3. trace w1 = trace w @ [(CFtok 1, SysOk k1), (CMsgget k1, SysOk (arr ! 0)),
      (CFtok 2, SysOk k2), (CMsgget k2, SysOk (arr ! 1)), (CFtok 3, SysOk k3), (CMsgget k3, SysOk (arr ! 2))]) \<and>
    queues (trace w2) = queues (trace w) - set arr"
proof -
  from assms(2) obtain q0 wa q1 wb q2 where a: "queue_for 1 w = Inr (q0, wa)" and b: "queue_for 2 wa = Inr (q1, wb)"
    and c: "queue_for 3 wb = Inr (q2, w1)" and arr: "arr = [q0, q1, q2]"
    by (auto simp: create_queue_def open_queue_def open_queue2_def open_queue3_def bindE_eq_Inr)
  note ra = queue_for_result [OF assms(1) a]
  note rb = queue_for_result [OF conjunct1 [OF ra] b]
  note rc = queue_for_result [OF conjunct1 [OF rb] c]
  from assms(3) arr obtain v0 x0 v1 x1 v2 where d: "remove_message q0 w1 = Inr (v0, x0)" and e: "remove_message q1 x0 = Inr (v1, x1)"
    and f: "remove_message q2 x1 = Inr (v2, w2)"
    by (auto simp: destroy_queue_def bindE_eq_Inr)
  note rd = remove_message_result [OF d conjunct1 [OF rc]]
  from remove_message_result [OF e] rd have re: "kernel_ok x1" "\<exists>x. trace x1 = trace x0 @ [(CMsgctlRm q1, SysOk x)]" by auto
  from remove_message_result [OF f re(1)] have rf: "\<exists>x. trace w2 = trace x1 @ [(CMsgctlRm q2, SysOk x)]" by auto
  have "queues (trace w2) = queues (trace w) - set arr"
    using ra rb rc rd re rf arr by (auto simp: queues_append)
  with ra rb rc arr show ?thesis by auto
qed

theorem queues_create_destroy_witness:
  "\<exists>arr w1 w2. create_queue \<lparr>outcomes = [SysOk 10, SysOk 1, SysOk 20, SysOk 2, SysOk 30, SysOk 3, SysOk 0, SysOk 0, SysOk 0], trace = []\<rparr>
      = Inr (arr, w1) \<and> destroy_queue arr w1 = Inr w2 \<and> arr = [1, 2, 3] \<and> queues (trace w2) = {}"
proof -
  let ?w = "\<lparr>outcomes = [SysOk 10, SysOk 1, SysOk 20, SysOk 2, SysOk 30, SysOk 3, SysOk 0, SysOk 0, SysOk 0], trace = []\<rparr>"
  note defs = create_queue_def open_queue_def open_queue2_def open_queue3_def queue_for_def Ftok_def
    destroy_queue_def remove_message_def
  obtain w1 w2 where r: "create_queue ?w = Inr ([1, 2, 3], w1)" "destroy_queue [1, 2, 3] w1 = Inr w2"
    by (simp add: defs)
  from queues_create_destroy [OF _ r] have "queues (trace w2) = {}"
    by (simp add: kernel_ok_def queues_def)
  with r show ?thesis by blast
qed

text \<open>
  \<open>send_queue\<close> can only return 0: a failing call ends the program, and the
  value stored on success is that of a comparison.  \<open>peek_message\<close> answers -1 exactly when the kernel
  reports that a message is too big for the empty buffer, and never ends the program.
\<close>

theorem queue_results:
  assumes "kernel_ok w" "outcomes w = r # rs"
  shows "(case send_queue q p w of Inl e \<Rightarrow> e = Exited 0 \<and> (\<exists>x. r = SysErr x) | Inr (v, w') \<Rightarrow> v = 0 \<and> (\<exists>n. r = SysOk n)) \<and>
    (\<exists>w'. peek_message q t w = Inr (if r = SysErr E2BIG then - 1 else 0, w'))"
  using assms by (cases r) (auto simp: send_queue_def peek_message_def check_def kernel_ok_def)

theorem queue_results_witness:
  "\<exists>w'. peek_message 5 1 \<lparr>outcomes = [SysErr E2BIG], trace = []\<rparr> = Inr (- 1, w')"
  using queue_results [of "\<lparr>outcomes = [SysErr E2BIG], trace = []\<rparr>" "SysErr E2BIG" "[]" 5 _ 1]
  by (simp add: kernel_ok_def)

end
