(* ===== verification/Server_Config.thy ===== *)
theory Server_Config
  imports Connections Request_Parser
begin

text \<open>
  The configuration file: \<open>file_param\<close> and \<open>Init_sockpair\<close> of \<open>utils/utils.h\<close> and
  \<open>Open_listen\<close> of \<open>inc/http_epoll.h\<close>.  The file is its text; each line is read
  into the array \<open>info\<close> and cut up in place by \<open>strtok\<close>.
\<close>

section \<open>Reading the configuration\<close>

text \<open>\<open>BUFSIZE\<close> as \<open>utils/utils.h\<close> defines it.\<close>

definition CONF_BUFSIZE :: nat where "CONF_BUFSIZE = 1024"

record sock_pair =
  ip_addr :: string
  sp_port :: string

text \<open>\<open>fgets\<close> with an array of \<open>n\<close> cells: the line (with its LF) and the rest of the text.\<close>

definition fgets :: "nat \<Rightarrow> string \<Rightarrow> (string \<times> string) option" where
  "fgets n s =
     (if s = [] then None
      else
        let line = takeWhile (\<lambda>c. c \<noteq> LF) s;
            k = min (n - 1) (if LF \<in> set s then length line + 1 else length line) in
        Some (take k s, drop k s))"

definition strcpy_conf :: "carray \<Rightarrow> nat \<Rightarrow> string exec" where
  "strcpy_conf b p =
     bindE (str_at b p) (\<lambda>s. if length s < CONF_BUFSIZE then Inr s else Inl (Undef WriteOOB))"

text \<open>The body of the loop: \<open>pos\<close> is assigned twice.\<close>

definition conf_line :: "carray \<Rightarrow> (carray \<times> sock_pair) exec" where
  "conf_line info =
     bindE (str_at info 0) (\<lambda>s.
     bindE (str_at info (strspn s '' '')) (\<lambda>s1.
     let pos = strspn s1 ''@'' in
     bindE (strtok info pos '':'') (\<lambda>(q, info1, sv).
     bindE (deref q) (\<lambda>p.
     bindE (strcpy_conf info1 p) (\<lambda>ip.
     bindE (strtok info1 sv ''@'') (\<lambda>(q2, info2, sv2).
     bindE (deref q2) (\<lambda>p2.
     bindE (strcpy_conf info2 p2) (\<lambda>port.
     Inr (info2, \<lparr>ip_addr = ip, sp_port = port\<rparr>)))))))))"

lemma fgets_less: "fgets n s = Some (line, rest) \<Longrightarrow> 1 < n \<Longrightarrow> length rest < length s"
  by (cases s) (auto simp: fgets_def Let_def split: if_splits)

function conf_loop :: "string \<Rightarrow> carray \<Rightarrow> sock_pair \<Rightarrow> sock_pair exec" where
  "conf_loop fp info sp =
     (case fgets CONF_BUFSIZE fp of
        None \<Rightarrow> Inr sp
      | Some (line, fp') \<Rightarrow>
          bindE (put_str info 0 line) (\<lambda>info.
          bindE (conf_line info) (\<lambda>(info, sp). conf_loop fp' info sp)))"
  by pat_completeness auto
termination
  by (relation "measure (\<lambda>(fp, info, sp). length fp)") (auto simp: CONF_BUFSIZE_def dest: fgets_less)

declare conf_loop.simps [simp del]

text \<open>\<open>file_param\<close>: \<open>None\<close> is a file that cannot be opened.\<close>

definition file_param :: "string option \<Rightarrow> sock_pair \<Rightarrow> sock_pair exec" where
  "file_param fp sp =
     (case fp of None \<Rightarrow> Inl (Exited 0) | Some text \<Rightarrow> conf_loop text (replicate CONF_BUFSIZE NUL) sp)"

definition Init_sockpair :: "bool \<Rightarrow> bool \<Rightarrow> string option \<Rightarrow> sock_pair exec" where
  "Init_sockpair mem1 mem2 fp =
     bindE (Calloc (if mem1 then Some '''' else None)) (\<lambda>ip.
     bindE (Calloc (if mem2 then Some '''' else None)) (\<lambda>port.
     file_param fp \<lparr>ip_addr = ip, sp_port = port\<rparr>))"

definition Open_listen :: "bool \<Rightarrow> bool \<Rightarrow> string option \<Rightarrow> addrinfo list \<Rightarrow> world \<Rightarrow> (int \<times> world) exec" where
  "Open_listen mem1 mem2 fp addrs w =
     bindE (Init_sockpair mem1 mem2 fp) (\<lambda>sp. open_listenfd (ip_addr sp) (sp_port sp) addrs w)"

section \<open>Lemmas\<close>

definition conf_word :: "string \<Rightarrow> bool" where
  "conf_word s \<longleftrightarrow> s \<noteq> [] \<and> set s \<inter> {CHR '':'', CHR ''@'', CHR '' '', NUL, LF} = {}"

lemma strtok_word:
  assumes "str_at b s = Inr (x @ e # r)" "x \<noteq> []" "set x \<inter> set d = {}" "e \<in> set d"
  shows "\<exists>p b' s'. strtok b s d = Inr (Some p, b', s') \<and> str_at b' p = Inr x \<and> str_at b' s' = Inr r"
  using strtok_Some [OF assms(1) tok_word [OF assms(2-4)]] by blast

text \<open>What the loop body does once \<open>info + pos\<close> holds \<open>ip:port@\<close>, for any \<open>ip\<close> without a colon.\<close>

lemma conf_line_parts:
  assumes s: "str_at info 0 = Inr s" and s1: "str_at info (strspn s '' '') = Inr s1"
    and t: "str_at info (strspn s1 ''@'') = Inr (ip @ CHR '':'' # port @ CHR ''@'' # rest)"
    and ip: "ip \<noteq> []" "CHR '':'' \<notin> set ip" "length ip < CONF_BUFSIZE"
    and port: "port \<noteq> []" "CHR ''@'' \<notin> set port" "length port < CONF_BUFSIZE"
  shows "\<exists>info'. conf_line info = Inr (info', \<lparr>ip_addr = ip, sp_port = port\<rparr>)"
proof -
  obtain p b' sv where a: "strtok info (strspn s1 ''@'') '':'' = Inr (Some p, b', sv)" "str_at b' p = Inr ip"
      "str_at b' sv = Inr (port @ CHR ''@'' # rest)"
    using strtok_word [OF t ip(1), of "'':''"] ip(2) by auto
  obtain p2 b2 sv2 where b: "strtok b' sv ''@'' = Inr (Some p2, b2, sv2)" "str_at b2 p2 = Inr port"
    using strtok_word [OF a(3) port(1), of "''@''"] port(2) by auto
  show ?thesis
    using s s1 a b ip(3) port(3) by (simp add: conf_line_def Let_def deref_def strcpy_conf_def)
qed

lemma fgets_line:
  "LF \<notin> set line \<Longrightarrow> length line + 1 < n \<Longrightarrow> fgets n (line @ LF # rest) = Some (line @ [LF], rest)"
proof -
  assume line: "LF \<notin> set line" "length line + 1 < n"
  then have "\<forall>x\<in>set line. x \<noteq> LF" by auto
  then have "takeWhile (\<lambda>c. c \<noteq> LF) (line @ LF # rest) = line" by simp
  moreover have "min (n - 1) (length line + 1) = length line + 1" using line(2) by simp
  ultimately show ?thesis by (simp add: fgets_def Let_def)
qed

lemma conf_loop_end [simp]: "conf_loop [] info sp = Inr sp"
  by (subst conf_loop.simps) (simp add: fgets_def)

lemma conf_loop_one:
  assumes "LF \<notin> set line" "NUL \<notin> set line" "length line + 1 < CONF_BUFSIZE"
    and "\<And>post. \<exists>info'. conf_line ((line @ [LF]) @ NUL # post) = Inr (info', sp')"
  shows "conf_loop (line @ [LF]) (replicate CONF_BUFSIZE NUL) sp = Inr sp'"
proof -
  have "put_str (replicate CONF_BUFSIZE NUL) 0 (line @ [LF])
      = Inr ((line @ [LF]) @ NUL # drop (length (line @ [LF]) + 1) (replicate CONF_BUFSIZE NUL))"
    using assms(3) by (intro put_str_0) simp
  then show ?thesis
    using assms(4) [of "drop (length (line @ [LF]) + 1) (replicate CONF_BUFSIZE NUL)"] fgets_line [OF assms(1,3), of "[]"]
    by (subst conf_loop.simps) auto
qed

text \<open>The line \<open>lead @ "@ip:port@"\<close> after \<open>n\<close> blanks.\<close>

lemma conf_line_blanks:
  assumes "conf_word ip" "conf_word port" "n + length ip + length port + 4 < CONF_BUFSIZE"
  shows "\<exists>info'. conf_line ((replicate n (CHR '' '') @ ''@'' @ ip @ '':'' @ port @ ''@'' @ [LF]) @ NUL # post)
    = Inr (info', \<lparr>ip_addr = (if n = 0 then ip else replicate (n - 1) (CHR '' '') @ ''@'' @ ip), sp_port = port\<rparr>)"
proof -
  let ?rest = "ip @ '':'' @ port @ ''@'' @ [LF]"
  let ?s = "replicate n (CHR '' '') @ ''@'' @ ?rest"
  have nul: "NUL \<notin> set ?s" "NUL \<notin> set (''@'' @ ?rest)" "NUL \<notin> set ?rest" using assms by (auto simp: conf_word_def)
  have sp: "strspn ?s '' '' = n" by (simp add: strspn_def takeWhile_append2)
  obtain i js where ip: "ip = i # js" "i \<noteq> CHR ''@''" using assms(1) by (cases ip) (auto simp: conf_word_def)
  have at: "strspn (''@'' @ ?rest) ''@'' = 1" by (simp add: strspn_def ip)
  have s: "str_at (?s @ NUL # post) 0 = Inr ?s" using str_at_append [of ?s 0 "[]" post] nul by simp
  have s1: "str_at (?s @ NUL # post) n = Inr (''@'' @ ?rest)"
    using str_at_append [of "''@'' @ ?rest" n "replicate n (CHR '' '')" post] nul by simp
  let ?ip = "if n = 0 then ip else replicate (n - 1) (CHR '' '') @ ''@'' @ ip"
  have t: "str_at (?s @ NUL # post) 1 = Inr (?ip @ CHR '':'' # port @ CHR ''@'' # [LF])"
  proof (cases n)
    case 0
    then show ?thesis using str_at_append [of ?rest 1 "''@''" post] nul by simp
  next
    case (Suc k)
    have "NUL \<notin> set (replicate k (CHR '' '') @ ''@'' @ ?rest)" using nul by auto
    from str_at_append [OF this, of 1 "'' ''" post] Suc show ?thesis by simp
  qed
  show ?thesis
    using conf_line_parts [OF s, unfolded sp, OF s1, unfolded at, OF t] assms by (auto simp: conf_word_def)
qed

section \<open>Properties\<close>

text \<open>
  C38. The documented configuration \<open>@ip:port@\<close> is read back: \<open>Init_sockpair\<close>
  stores exactly the address and the port of the line.
\<close>

theorem config_roundtrip:
  assumes "conf_word ip" "conf_word port" "length ip + length port + 4 < CONF_BUFSIZE"
  shows "Init_sockpair True True (Some (''@'' @ ip @ '':'' @ port @ ''@'' @ [LF])) = Inr \<lparr>ip_addr = ip, sp_port = port\<rparr>"
proof -
  have "conf_loop ((''@'' @ ip @ '':'' @ port @ ''@'') @ [LF]) (replicate CONF_BUFSIZE NUL) sp
      = Inr \<lparr>ip_addr = ip, sp_port = port\<rparr>" for sp
    using assms conf_line_blanks [of ip port 0]
    by (intro conf_loop_one) (auto simp: conf_word_def)
  then show ?thesis by (simp add: Init_sockpair_def Calloc_def file_param_def)
qed

theorem config_roundtrip_witness:
  "Init_sockpair True True (Some (''@127.0.0.1:8080@'' @ [LF])) = Inr \<lparr>ip_addr = ''127.0.0.1'', sp_port = ''8080''\<rparr>"
  using config_roundtrip [of "''127.0.0.1''" "''8080''"] by (simp add: conf_word_def CONF_BUFSIZE_def)

text \<open>
  Leading blanks are skipped wrongly: after \<open>n > 0\<close> blanks the address read
  still has \<open>n - 1\<close> of them and the \<open>@\<close>, because the second assignment of \<open>pos\<close>
  forgets the first.
\<close>

theorem config_leading_blanks:
  assumes "conf_word ip" "conf_word port" "n + length ip + length port + 4 < CONF_BUFSIZE" "0 < n"
  shows "Init_sockpair True True (Some (replicate n (CHR '' '') @ ''@'' @ ip @ '':'' @ port @ ''@'' @ [LF]))
    = Inr \<lparr>ip_addr = replicate (n - 1) (CHR '' '') @ ''@'' @ ip, sp_port = port\<rparr>"
proof -
  have "conf_loop ((replicate n (CHR '' '') @ ''@'' @ ip @ '':'' @ port @ ''@'') @ [LF]) (replicate CONF_BUFSIZE NUL) sp
      = Inr \<lparr>ip_addr = replicate (n - 1) (CHR '' '') @ ''@'' @ ip, sp_port = port\<rparr>" for sp
    using assms conf_line_blanks [of ip port n]
    by (intro conf_loop_one) (auto simp: conf_word_def)
  then show ?thesis by (simp add: Init_sockpair_def Calloc_def file_param_def)
qed

theorem config_leading_blanks_witness:
  "Init_sockpair True True (Some ('' @127.0.0.1:8080@'' @ [LF])) = Inr \<lparr>ip_addr = ''@127.0.0.1'', sp_port = ''8080''\<rparr>"
  using config_leading_blanks [of "''127.0.0.1''" "''8080''" 1] by (simp add: conf_word_def CONF_BUFSIZE_def)

end
