(* ===== verification/Io_Base.thy ===== *)
theory Io_Base
  imports Event_Loop
begin

text \<open>
  The second event loop, \<open>do_epoll\<close> of \<open>inc/http_io_base.h\<close>, with the interface
  functions of that file.  The event functions it calls are those of
  \<open>Event_Loop\<close>; the globals \<open>epollfd\<close> and \<open>flag_x\<close> are a member of the worker's state and
  an argument.
\<close>

section \<open>The loop\<close>

definition EPOLLEVENTS :: int where "EPOLLEVENTS = 100"
definition EPOLLET :: "32 word" where "EPOLLET = 0x80000000"

text \<open>
  One return of \<open>epoll_wait\<close>: the events with what \<open>write\<close> would do at each of them,
  and the surroundings of \<open>http_module_handler_request\<close>.
\<close>

record epoll_batch =
  b_events :: "(epoll_event \<times> wr_ret) list"
  b_env :: env
  b_mem :: bool
  b_g :: carray
  b_union :: "64 word"

text \<open>The endless loop, with the reason why it stops or the wait at its end.\<close>

fun do_epoll_loop :: "(errno + epoll_batch) list \<Rightarrow> carray \<Rightarrow> worker \<Rightarrow> worker \<times> stop" where
  "do_epoll_loop [] buf W = (W, Blocked)"
| "do_epoll_loop (Inl e # bs) buf W = (W, Exited 0)"
| "do_epoll_loop (Inr B # bs) buf W =
     (case handle_events (b_env B) (b_mem B) (b_g B) (b_union B) (b_events B) buf W of
        Inl e \<Rightarrow> (W, e)
      | Inr (buf, W) \<Rightarrow> do_epoll_loop bs buf W)"

text \<open>\<open>g\<close> is the uninitialised union of \<open>add_event\<close>; the result has the new value of \<open>flag_x\<close>.\<close>

definition do_epoll ::
  "64 word \<Rightarrow> int \<Rightarrow> (errno + epoll_batch) list \<Rightarrow> int \<Rightarrow> worker \<Rightarrow> (int \<times> worker \<times> stop) exec" where
  "do_epoll g listenfd batches flag_x W =
     bindE (if flag_x = 0
            then bindE (Epoll_create FDSIZE (kworld W)) (\<lambda>(e, k). Inr (W\<lparr>epfd := e, kworld := k\<rparr>))
            else Inr W) (\<lambda>W.
     bindE (add_event g listenfd (or EPOLLIN EPOLLET) W) (\<lambda>W.
     Inr (flag_x + 1, do_epoll_loop batches (replicate MAXSIZE NUL) W)))"

section \<open>The interface\<close>

definition http_do_epoll ::
  "64 word \<Rightarrow> int \<Rightarrow> (errno + epoll_batch) list \<Rightarrow> int \<Rightarrow> worker \<Rightarrow> (int \<times> worker \<times> stop) exec" where
  "http_do_epoll = do_epoll"

definition http_handle_events ::
  "env \<Rightarrow> bool \<Rightarrow> carray \<Rightarrow> 64 word \<Rightarrow> (epoll_event \<times> wr_ret) list \<Rightarrow> carray \<Rightarrow> worker \<Rightarrow> (carray \<times> worker) exec" where
  "http_handle_events = handle_events"

definition http_handle_accpet :: "64 word \<Rightarrow> int \<Rightarrow> worker \<Rightarrow> worker exec" where
  "http_handle_accpet = handle_accpet"

definition http_do_read :: "env \<Rightarrow> bool \<Rightarrow> carray \<Rightarrow> worker \<Rightarrow> worker exec" where
  "http_do_read = do_read"

definition http_do_write :: "wr_ret \<Rightarrow> 64 word \<Rightarrow> int \<Rightarrow> carray \<Rightarrow> worker \<Rightarrow> (carray \<times> worker) exec" where
  "http_do_write = do_write"

definition http_add_event :: "64 word \<Rightarrow> int \<Rightarrow> 32 word \<Rightarrow> worker \<Rightarrow> worker exec" where
  "http_add_event = add_event"

definition http_modify_event :: "64 word \<Rightarrow> int \<Rightarrow> 32 word \<Rightarrow> worker \<Rightarrow> worker exec" where
  "http_modify_event = modify_event"

definition http_delete_event :: "64 word \<Rightarrow> int \<Rightarrow> 32 word \<Rightarrow> worker \<Rightarrow> worker exec" where
  "http_delete_event = delete_event"

text \<open>The functions of \<open>inc/http_epoll.h\<close>.\<close>

definition Open_epoll ::
  "64 word \<Rightarrow> int \<Rightarrow> (errno + epoll_batch) list \<Rightarrow> int \<Rightarrow> worker \<Rightarrow> (int \<times> worker \<times> stop) exec" where
  "Open_epoll = http_do_epoll"

definition Add_event :: "64 word \<Rightarrow> int \<Rightarrow> 32 word \<Rightarrow> worker \<Rightarrow> worker exec" where
  "Add_event = http_add_event"

definition Modify_event :: "64 word \<Rightarrow> int \<Rightarrow> 32 word \<Rightarrow> worker \<Rightarrow> worker exec" where
  "Modify_event = http_modify_event"

definition Delete_event :: "64 word \<Rightarrow> int \<Rightarrow> 32 word \<Rightarrow> worker \<Rightarrow> worker exec" where
  "Delete_event = http_delete_event"

text \<open>
  \<open>pthread_handler\<close> of \<open>inc/http_task.h\<close>: \<open>argv\<close> points to the descriptor.  The loop it
  enters does not end, so the thread never detaches itself.
\<close>

definition pthread_handler ::
  "64 word \<Rightarrow> int option \<Rightarrow> (errno + epoll_batch) list \<Rightarrow> int \<Rightarrow> worker \<Rightarrow> (int \<times> worker \<times> stop) exec" where
  "pthread_handler g argv batches flag_x W =
     (case argv of None \<Rightarrow> Inl (Undef NullDeref) | Some connfd \<Rightarrow> Open_epoll g connfd batches flag_x W)"

section \<open>What the loop leaves alone\<close>

text \<open>Between two states nothing but empty writes happened, and no connection was accepted.\<close>

fun is_accept :: "call \<Rightarrow> bool" where
  "is_accept (CAccept f) = True"
| "is_accept _ = False"

definition quiet :: "worker \<Rightarrow> worker \<Rightarrow> bool" where
  "quiet W W' \<longleftrightarrow> (\<exists>ys. sent W' = sent W @ ys \<and> (\<forall>p\<in>set ys. snd p = [])) \<and>
     (\<exists>cs. trace (kworld W') = trace (kworld W) @ cs \<and> (\<forall>p\<in>set cs. \<not> is_accept (fst p)))"

lemma quiet_refl [simp]: "quiet W W"
  by (simp add: quiet_def)

lemma quiet_trans: "quiet U V \<Longrightarrow> quiet V W \<Longrightarrow> quiet U W"
  unfolding quiet_def by (force simp: ball_Un)

lemma quiet_ctl: "ctl op f ev W = Inr W' \<Longrightarrow> quiet W W'"
  by (auto simp: ctl_def Epoll_ctl_def bindE_eq_Inr sys_Inr quiet_def split: if_splits)

lemma quiet_close_fd: "close_fd f W = Inr W' \<Longrightarrow> quiet W W'"
  by (auto simp: close_fd_def bindE_eq_Inr sys_Inr quiet_def)

lemma quiet_add_event: "add_event g f st W = Inr W' \<Longrightarrow> quiet W W'"
  by (auto simp: add_event_def bindE_eq_Inr sys_Inr quiet_def)

lemma quiet_do_read: "do_read E mem g W = Inr W' \<Longrightarrow> quiet W W'"
  by (auto simp: do_read_def bindE_eq_Inr)

abbreviation blank :: carray where
  "blank \<equiv> replicate MAXSIZE NUL"

lemma str_at_blank: "str_at blank 0 = Inr []"
  by (simp add: str_at_def MAXSIZE_def numeral_eq_Suc)

lemma quiet_do_write:
  assumes "do_write r g f blank W = Inr (buf, W')"
  shows "buf = blank \<and> quiet W W'"
proof (cases r)
  case (WrErr e)
  with assms obtain W1 where "close_fd f W = Inr W1" "delete_event g f EPOLLOUT W1 = Inr W'" "buf = blank"
    by (auto simp: do_write_def str_at_blank bindE_eq_Inr)
  then show ?thesis using quiet_trans [OF quiet_close_fd quiet_ctl] by (auto simp: delete_event_def)
next
  case (WrN k)
  with assms have "modify_event g f EPOLLIN (W\<lparr>sent := sent W @ [(f, [])]\<rparr>) = Inr W'" "buf = blank"
    by (auto simp: do_write_def str_at_blank bindE_eq_Inr)
  moreover have "quiet W (W\<lparr>sent := sent W @ [(f, [])]\<rparr>)" by (simp add: quiet_def)
  ultimately show ?thesis using quiet_trans quiet_ctl by (auto simp: modify_event_def)
qed

lemma quiet_handle_events:
  "handle_events E mem g u evs blank W = Inr (buf, W') \<Longrightarrow> buf = blank \<and> quiet W W'"
proof (induction evs arbitrary: W)
  case (Cons p evs)
  obtain ev r where p: "p = (ev, r)" by force
  from Cons.prems p obtain buf1 W1 where
    step: "(if and (events ev) EPOLLIN \<noteq> 0 then bindE (do_read E mem g W) (\<lambda>W. Inr (blank, W))
        else if and (events ev) EPOLLOUT \<noteq> 0 then do_write r u (data_fd (ev_data ev)) blank W
        else Inr (blank, W)) = Inr (buf1, W1)" and
    rest: "handle_events E mem g u evs buf1 W1 = Inr (buf, W')"
    by (auto simp: bindE_eq_Inr simp del: if_splits)
  have "buf1 = blank \<and> quiet W W1"
    using step quiet_do_write quiet_do_read by (auto simp: bindE_eq_Inr split: if_splits)
  with rest Cons.IH [of W1] quiet_trans show ?case by blast
qed simp

lemma quiet_do_epoll_loop: "quiet W (fst (do_epoll_loop bs blank W))"
proof (induction bs arbitrary: W)
  case (Cons b bs)
  show ?case
  proof (cases b)
    case (Inr B)
    show ?thesis
    proof (cases "handle_events (b_env B) (b_mem B) (b_g B) (b_union B) (b_events B) blank W")
      case (Inr p)
      then obtain buf W1 where p: "p = (buf, W1)" by force
      with Inr quiet_handle_events have "buf = blank" "quiet W W1" by blast+
      with Inr p \<open>b = Inr B\<close> Cons.IH [of W1] quiet_trans show ?thesis by auto
    qed (use Inr in simp)
  qed simp
qed simp

section \<open>Property\<close>

text \<open>
  C32. The server of \<open>do_epoll\<close> serves nothing: the call that accepts a connection is
  commented out and the buffer it writes from is never filled, so whatever events
  arrive, no connection is ever accepted and no byte is ever sent.
\<close>

theorem do_epoll_serves_nothing:
  assumes "http_do_epoll g listenfd batches flag_x W = Inr (flag', W', e)"
  shows "flag' = flag_x + 1 \<and> concat (map snd (sent W')) = concat (map snd (sent W)) \<and>
    filter (\<lambda>p. is_accept (fst p)) (trace (kworld W')) = filter (\<lambda>p. is_accept (fst p)) (trace (kworld W))"
proof -
  from assms obtain W1 W2 where
    W: "(if flag_x = 0 then bindE (Epoll_create FDSIZE (kworld W)) (\<lambda>(e, k). Inr (W\<lparr>epfd := e, kworld := k\<rparr>)) else Inr W) = Inr W1"
      "add_event g listenfd (or EPOLLIN EPOLLET) W1 = Inr W2" "(W', e) = do_epoll_loop batches blank W2" "flag' = flag_x + 1"
    by (auto simp: http_do_epoll_def do_epoll_def bindE_eq_Inr simp del: if_splits)
  have "quiet W W1" using W(1) by (auto simp: Epoll_create_def bindE_eq_Inr sys_Inr quiet_def unix_error_def split: if_splits)
  moreover have "quiet W1 W2" by (rule quiet_add_event [OF W(2)])
  moreover have "quiet W2 W'" using quiet_do_epoll_loop [of W2 batches] W(3) by (metis fst_conv)
  ultimately have "quiet W W'" using quiet_trans by blast
  then obtain ys cs where q: "sent W' = sent W @ ys" "\<forall>p\<in>set ys. snd p = []"
    "trace (kworld W') = trace (kworld W) @ cs" "\<forall>p\<in>set cs. \<not> is_accept (fst p)" by (auto simp: quiet_def)
  have "concat (map snd ys) = []" using q(2) by simp
  with q W(4) show ?thesis by simp
qed

definition sample_stack :: carray where
  "sample_stack = ''- - '' @ replicate 1020 NUL"

text \<open>A client that connects (the listening socket 3 becomes readable), and descriptor 5 becomes writable.\<close>

definition sample_batch :: epoll_batch where
  "sample_batch = \<lparr>b_events = [(\<lparr>events = EPOLLIN, ev_data = 3\<rparr>, WrN 0), (\<lparr>events = EPOLLOUT, ev_data = 5\<rparr>, WrN 9)],
     b_env = sample_env, b_mem = True, b_g = sample_stack, b_union = 0\<rparr>"

definition sample_server :: worker where
  "sample_server = \<lparr>epfd = 0, clientfd = 0, interest = Map.empty, tcps = Map.empty, reqs = Map.empty, sent = [],
     kworld = \<lparr>outcomes = [SysOk 7, SysOk 0, SysOk 0], trace = []\<rparr>\<rparr>"

lemma do_write_blank: "do_write (WrN k) g f blank W =
    bindE (modify_event g f EPOLLIN (W\<lparr>sent := sent W @ [(f, [])]\<rparr>)) (\<lambda>W. Inr (blank, W))"
  by (simp add: do_write_def str_at_blank)

theorem do_epoll_serves_nothing_witness:
  "\<exists>W'. http_do_epoll 0 3 [Inr sample_batch] 0 sample_server = Inr (1, W', Blocked) \<and>
     map snd (sent W') = [[]] \<and> concat (map snd (sent W')) = []"
proof -
  obtain info where "http_module_handler_request sample_env True (''- - '' @ replicate 1020 NUL) = Inr info"
    using handler_request_runs by blast
  then have rd: "do_read sample_env True sample_stack W = Inr W" for W by (simp add: do_read_def sample_stack_def)
  have bits: "EPOLLIN \<noteq> 0" "and EPOLLOUT EPOLLIN = 0" "EPOLLOUT \<noteq> 0"
    by (simp_all add: EPOLLIN_def EPOLLOUT_def)
  have "\<exists>W'. http_do_epoll 0 3 [Inr sample_batch] 0 sample_server = Inr (1, W', Blocked) \<and> map snd (sent W') = [[]]"
    by (simp add: http_do_epoll_def do_epoll_def sample_server_def Epoll_create_def add_event_def sample_batch_def
        rd bits do_write_blank modify_event_def ctl_def Epoll_ctl_def)
  then obtain W' where W': "http_do_epoll 0 3 [Inr sample_batch] 0 sample_server = Inr (1, W', Blocked) \<and> map snd (sent W') = [[]]" ..
  from do_epoll_serves_nothing [OF conjunct1 [OF W']] have "concat (map snd (sent W')) = []" by (simp add: sample_server_def)
  with W' show ?thesis by (intro exI [of _ W'] conjI) simp_all
qed

end
