(* ===== verification/Ordered_Elems.thy ===== *)
theory Ordered_Elems
  imports Http_Prelude
begin

text \<open>
  What the trees of \<open>utils/tree.h\<close> promise to their clients.  The elements are
  compared by a function \<open>cmp\<close> of the client, of which only the sign counts; the
  contents of a tree are the sequence of its elements in ascending order.  The
  locale \<open>ordered_index\<close> states what inserting, finding, removing and stepping to
  the next element do to that sequence; both kinds of trees are interpretations.
\<close>

section \<open>Comparison functions\<close>

text \<open>The comparison is a total preorder: the client's part of the bargain.\<close>

definition cmp_ok :: "('k \<Rightarrow> 'k \<Rightarrow> int) \<Rightarrow> bool" where
  "cmp_ok cmp \<longleftrightarrow> (\<forall>a. cmp a a = 0) \<and> (\<forall>a b. cmp a b < 0 \<longleftrightarrow> 0 < cmp b a) \<and>
     (\<forall>a b c. cmp a b \<le> 0 \<longrightarrow> cmp b c \<le> 0 \<longrightarrow> cmp a c \<le> 0)"

lemma cmp_refl: "cmp_ok cmp \<Longrightarrow> cmp a a = 0"
  by (simp add: cmp_ok_def)

lemma cmp_flip: "cmp_ok cmp \<Longrightarrow> 0 < cmp b a \<longleftrightarrow> cmp a b < 0"
  by (simp add: cmp_ok_def)

lemma cmp_zero_flip: "cmp_ok cmp \<Longrightarrow> cmp a b = 0 \<longleftrightarrow> cmp b a = 0"
  by (metis cmp_flip less_irrefl linorder_neqE)

lemma cmp_le_trans: "cmp_ok cmp \<Longrightarrow> cmp a b \<le> 0 \<Longrightarrow> cmp b c \<le> 0 \<Longrightarrow> cmp a c \<le> 0"
  unfolding cmp_ok_def by blast

lemma cmp_less_le_trans: "cmp_ok cmp \<Longrightarrow> cmp a b < 0 \<Longrightarrow> cmp b c \<le> 0 \<Longrightarrow> cmp a c < 0"
  by (metis cmp_flip cmp_le_trans linorder_not_less)

lemma cmp_le_less_trans: "cmp_ok cmp \<Longrightarrow> cmp a b \<le> 0 \<Longrightarrow> cmp b c < 0 \<Longrightarrow> cmp a c < 0"
  by (metis cmp_flip cmp_le_trans linorder_not_less)

lemma cmp_less_trans: "cmp_ok cmp \<Longrightarrow> cmp a b < 0 \<Longrightarrow> cmp b c < 0 \<Longrightarrow> cmp a c < 0"
  by (meson cmp_less_le_trans order_less_imp_le)

section \<open>Ascending sequences\<close>

text \<open>\<open>key\<close> gives the contents of the element at an address.\<close>

definition ascending :: "('k \<Rightarrow> 'k \<Rightarrow> int) \<Rightarrow> (nat \<Rightarrow> 'k) \<Rightarrow> nat list \<Rightarrow> bool" where
  "ascending cmp key xs \<longleftrightarrow> cmp_ok cmp \<and> sorted_wrt (\<lambda>a b. cmp (key a) (key b) < 0) xs"

definition insert_asc :: "('k \<Rightarrow> 'k \<Rightarrow> int) \<Rightarrow> (nat \<Rightarrow> 'k) \<Rightarrow> nat \<Rightarrow> nat list \<Rightarrow> nat list" where
  "insert_asc cmp key x xs =
     (if \<exists>y\<in>set xs. cmp (key x) (key y) = 0 then xs
      else takeWhile (\<lambda>y. cmp (key y) (key x) < 0) xs @ x # dropWhile (\<lambda>y. cmp (key y) (key x) < 0) xs)"

definition find_asc :: "('k \<Rightarrow> 'k \<Rightarrow> int) \<Rightarrow> (nat \<Rightarrow> 'k) \<Rightarrow> nat \<Rightarrow> nat list \<Rightarrow> nat" where
  "find_asc cmp key x xs = (case find (\<lambda>y. cmp (key x) (key y) = 0) xs of None \<Rightarrow> 0 | Some y \<Rightarrow> y)"

definition next_in :: "nat \<Rightarrow> nat list \<Rightarrow> nat" where
  "next_in x xs = (case dropWhile (\<lambda>y. y \<noteq> x) xs of x # y # ys \<Rightarrow> y | _ \<Rightarrow> 0)"

lemma ascending_append:
  "ascending cmp key (xs @ ys) \<longleftrightarrow> ascending cmp key xs \<and> ascending cmp key ys \<and>
     (\<forall>x\<in>set xs. \<forall>y\<in>set ys. cmp (key x) (key y) < 0)"
  by (auto simp: ascending_def sorted_wrt_append)

lemma ascending_Cons:
  "ascending cmp key (x # xs) \<longleftrightarrow> ascending cmp key xs \<and> (\<forall>y\<in>set xs. cmp (key x) (key y) < 0)"
  by (auto simp: ascending_def)

lemma ascending_Nil [simp]: "ascending cmp key [] \<longleftrightarrow> cmp_ok cmp"
  by (simp add: ascending_def)

lemmas ascending_simps = ascending_append ascending_Cons

lemma ascending_cmp_ok [dest]: "ascending cmp key xs \<Longrightarrow> cmp_ok cmp"
  by (simp add: ascending_def)

lemma ascending_cong: "(\<And>x. x \<in> set xs \<Longrightarrow> key x = key' x) \<Longrightarrow> ascending cmp key xs = ascending cmp key' xs"
  by (induction xs) (auto simp: ascending_Cons)

lemma ascending_distinct: "ascending cmp key xs \<Longrightarrow> distinct xs"
proof (induction xs)
  case (Cons x xs)
  then have ok: "cmp_ok cmp" and less: "\<forall>y\<in>set xs. cmp (key x) (key y) < 0"
    and xs: "ascending cmp key xs" by (auto simp: ascending_Cons)
  have "x \<notin> set xs" using less cmp_refl [OF ok, of "key x"] by force
  with Cons.IH xs show ?case by simp
qed simp

text \<open>Inserting between smaller and greater elements.\<close>

lemma insert_asc_between:
  assumes "cmp_ok cmp" "\<And>y. y \<in> set xs \<Longrightarrow> cmp (key y) (key x) < 0" "\<And>y. y \<in> set ys \<Longrightarrow> cmp (key x) (key y) < 0"
  shows "insert_asc cmp key x (xs @ ys) = xs @ x # ys"
proof -
  have no: "\<not> (\<exists>y\<in>set (xs @ ys). cmp (key x) (key y) = 0)"
    using assms cmp_zero_flip [OF assms(1)] by fastforce
  have ge: "\<not> cmp (key y) (key x) < 0" if "y \<in> set ys" for y
    using assms(1,3) that cmp_flip [OF assms(1)] by (metis less_asym)
  have "dropWhile (\<lambda>y. cmp (key y) (key x) < 0) (xs @ ys) = ys"
    using assms(2) ge by (cases ys) (simp_all add: dropWhile_append2)
  moreover have "takeWhile (\<lambda>y. cmp (key y) (key x) < 0) (xs @ ys) = xs"
    using assms(2) ge by (cases ys) (simp_all add: takeWhile_append2)
  ultimately show ?thesis using no by (simp add: insert_asc_def)
qed

lemma insert_asc_present:
  "y \<in> set xs \<Longrightarrow> cmp (key x) (key y) = 0 \<Longrightarrow> insert_asc cmp key x xs = xs"
  by (auto simp: insert_asc_def)

lemma set_insert_asc: "set (insert_asc cmp key x xs) \<subseteq> insert x (set xs)"
  by (auto simp: insert_asc_def dest: set_takeWhileD set_dropWhileD)

lemma set_insert_asc_new:
  "\<not> (\<exists>y\<in>set xs. cmp (key x) (key y) = 0) \<Longrightarrow> set (insert_asc cmp key x xs) = insert x (set xs)"
  unfolding insert_asc_def
  by simp (metis Un_insert_right set_append takeWhile_dropWhile_id)

lemma ascending_insert_asc:
  assumes asc: "ascending cmp key xs"
  shows "ascending cmp key (insert_asc cmp key x xs)"
proof (cases "\<exists>y\<in>set xs. cmp (key x) (key y) = 0")
  case True
  with asc show ?thesis by (simp add: insert_asc_def)
next
  case False
  have ok: "cmp_ok cmp" using asc by auto
  let ?P = "\<lambda>y. cmp (key y) (key x) < 0"
  have split: "ascending cmp key (takeWhile ?P xs @ dropWhile ?P xs)" using asc by simp
  have "cmp (key x) (key y) < 0" if y: "y \<in> set (dropWhile ?P xs)" for y
  proof -
    obtain z zs where zs: "dropWhile ?P xs = z # zs" using y by (cases "dropWhile ?P xs") auto
    then have z: "\<not> ?P z" "z \<in> set xs" by (metis hd_dropWhile list.distinct(1) list.sel(1), metis list.set_intros(1) set_dropWhileD)
    then have xz: "cmp (key x) (key z) < 0" using False cmp_flip [OF ok] by (metis linorder_neqE)
    from split zs y have "y = z \<or> cmp (key z) (key y) < 0" by (auto simp: ascending_simps)
    with xz show ?thesis using cmp_less_trans [OF ok xz] by auto
  qed
  with split [unfolded ascending_append] False show ?thesis
    by (auto simp: insert_asc_def ascending_simps dest: set_takeWhileD)
qed

lemma find_asc_present:
  assumes "ascending cmp key (xs @ y # ys)" "cmp (key x) (key y) = 0"
  shows "find_asc cmp key x (xs @ y # ys) = y"
proof -
  have ok: "cmp_ok cmp" using assms(1) by auto
  have "cmp (key x) (key z) \<noteq> 0" if "z \<in> set xs" for z
    using assms that cmp_zero_flip [OF ok] cmp_le_less_trans [OF ok]
    by (auto simp: ascending_simps) (metis less_irrefl order_refl)
  then have "find (\<lambda>y. cmp (key x) (key y) = 0) (xs @ y # ys) = Some y"
    using assms(2) by (induction xs) auto
  then show ?thesis by (simp add: find_asc_def)
qed

lemma find_asc_absent:
  "\<not> (\<exists>y\<in>set xs. cmp (key x) (key y) = 0) \<Longrightarrow> find_asc cmp key x xs = 0"
  by (auto simp: find_asc_def find_None_iff2 split: option.split dest!: find_Some_iff [THEN iffD1])

lemma next_in_append [simp]:
  "x \<notin> set us \<Longrightarrow> next_in x (us @ x # vs) = (if vs = [] then 0 else hd vs)"
proof -
  assume "x \<notin> set us"
  then have "dropWhile (\<lambda>y. y \<noteq> x) (us @ x # vs) = x # vs" by (induction us) auto
  then show ?thesis by (simp add: next_in_def split: list.split)
qed

lemma ascending_filter_remove1:
  assumes asc: "ascending cmp key xs" and x: "x \<in> set xs"
  shows "filter (\<lambda>y. cmp (key x) (key y) \<noteq> 0) xs = remove1 x xs"
proof -
  have ok: "cmp_ok cmp" using asc by auto
  from x obtain us vs where xs: "xs = us @ x # vs" by (auto simp: in_set_conv_decomp)
  have "cmp (key x) (key y) \<noteq> 0" if "y \<in> set us \<or> y \<in> set vs" for y
    using asc that cmp_flip [OF ok, of "key x" "key y"] by (auto simp: xs ascending_simps)
  moreover have "x \<notin> set us" using ascending_distinct [OF asc] xs by simp
  ultimately show ?thesis using cmp_refl [OF ok, of "key x"] by (auto simp: xs remove1_append filter_id_conv)
qed

section \<open>Loops over a tree\<close>

text \<open>
  The loops \<open>for (x = MIN; x != NULL; x = NEXT(x))\<close> of the two kinds of trees, with
  the list of the elements visited as the result.
\<close>

definition foreach_body ::
  "(nat \<Rightarrow> 's \<Rightarrow> (nat \<times> 's) run) \<Rightarrow> nat \<times> 's \<times> nat list \<Rightarrow> ((nat \<times> 's \<times> nat list) \<times> bool) run" where
  "foreach_body nxt = (\<lambda>(x, s, seen).
     if x = 0 then Some (Inr ((x, s, seen), True))
     else bindR (nxt x s) (\<lambda>(y, s). Some (Inr ((y, s, seen @ [x]), False))))"

definition tree_foreach ::
  "('s \<Rightarrow> (nat \<times> 's) run) \<Rightarrow> (nat \<Rightarrow> 's \<Rightarrow> (nat \<times> 's) run) \<Rightarrow> 's \<Rightarrow> (nat list \<times> 's) run" where
  "tree_foreach mn nxt s =
     bindR (mn s) (\<lambda>(x, s).
     bindR (c_loop (foreach_body nxt) (x, s, [])) (\<lambda>(x, s, seen). Some (Inr (seen, s))))"

section \<open>The contract of an ordered index\<close>

fun run_all :: "(nat \<Rightarrow> 's \<Rightarrow> 's run) \<Rightarrow> nat list \<Rightarrow> 's \<Rightarrow> 's run" where
  "run_all f [] s = Some (Inr s)"
| "run_all f (x # xs) s = bindR (f x s) (run_all f xs)"

locale ordered_index =
  fixes rel :: "'s \<Rightarrow> nat list \<Rightarrow> bool"
    and key :: "'s \<Rightarrow> nat \<Rightarrow> 'k option"
    and cmp :: "'k \<Rightarrow> 'k \<Rightarrow> int"
    and ins :: "nat \<Rightarrow> 's \<Rightarrow> 's run"
    and rem :: "nat \<Rightarrow> 's \<Rightarrow> 's run"
    and fnd :: "nat \<Rightarrow> 's \<Rightarrow> (nat \<times> 's) run"
    and mn :: "'s \<Rightarrow> (nat \<times> 's) run"
    and nxt :: "nat \<Rightarrow> 's \<Rightarrow> (nat \<times> 's) run"
  assumes rel_asc: "rel s xs \<Longrightarrow> ascending cmp (\<lambda>a. the (key s a)) xs"
    and rel_dom: "rel s xs \<Longrightarrow> x \<in> set xs \<Longrightarrow> x \<noteq> 0 \<and> key s x \<noteq> None"
    and ins_law: "rel s xs \<Longrightarrow> x \<noteq> 0 \<Longrightarrow> key s x \<noteq> None \<Longrightarrow> x \<notin> set xs \<Longrightarrow>
      \<exists>s'. ins x s = Some (Inr s') \<and> rel s' (insert_asc cmp (\<lambda>a. the (key s a)) x xs) \<and> key s' = key s"
    and rem_law: "rel s xs \<Longrightarrow> x \<in> set xs \<Longrightarrow>
      \<exists>s'. rem x s = Some (Inr s') \<and> rel s' (remove1 x xs) \<and> key s' = key s"
    and fnd_law: "rel s xs \<Longrightarrow> key s x \<noteq> None \<Longrightarrow>
      \<exists>s'. fnd x s = Some (Inr (find_asc cmp (\<lambda>a. the (key s a)) x xs, s')) \<and> rel s' xs \<and> key s' = key s"
    and mn_law: "rel s xs \<Longrightarrow>
      \<exists>s'. mn s = Some (Inr (if xs = [] then 0 else hd xs, s')) \<and> rel s' xs \<and> key s' = key s"
    and nxt_law: "rel s xs \<Longrightarrow> x \<in> set xs \<Longrightarrow>
      \<exists>s'. nxt x s = Some (Inr (next_in x xs, s')) \<and> rel s' xs \<and> key s' = key s"
begin

text \<open>A loop over the tree visits its elements once each, in ascending order.\<close>

lemma foreach_from:
  "rel s (us @ vs) \<Longrightarrow> \<exists>s'. c_loop (foreach_body nxt) (if vs = [] then 0 else hd vs, s, us) = Some (Inr (0, s', us @ vs)) \<and>
     rel s' (us @ vs) \<and> key s' = key s"
proof (induction vs arbitrary: us s)
  case Nil
  then show ?case by (simp add: c_loop.simps foreach_body_def)
next
  case (Cons x vs)
  from nxt_law [OF Cons.prems, of x] obtain s1 where
    s1: "nxt x s = Some (Inr (next_in x (us @ x # vs), s1))" "rel s1 (us @ x # vs)" "key s1 = key s" by auto
  have "x \<notin> set us" "x \<noteq> 0"
    using ascending_distinct [OF rel_asc [OF Cons.prems]] rel_dom [OF Cons.prems, of x] by auto
  then have nx: "next_in x (us @ x # vs) = (if vs = [] then 0 else hd vs)" "x \<noteq> 0" by auto
  from s1(2) Cons.IH [of s1 "us @ [x]"] obtain s2 where
    "c_loop (foreach_body nxt) (if vs = [] then 0 else hd vs, s1, us @ [x]) = Some (Inr (0, s2, us @ x # vs))"
    "rel s2 (us @ x # vs)" "key s2 = key s1" by auto
  then show ?case
    using s1 nx by (auto simp: c_loop.simps [of _ "(x, s, us)"] foreach_body_def)
qed

lemma foreach_law:
  assumes "rel s xs"
  shows "\<exists>s'. tree_foreach mn nxt s = Some (Inr (xs, s')) \<and> rel s' xs \<and> key s' = key s"
proof -
  from mn_law [OF assms] obtain s1 where
    s1: "mn s = Some (Inr (if xs = [] then 0 else hd xs, s1))" "rel s1 xs" "key s1 = key s" by blast
  from foreach_from [of s1 "[]" xs] s1 show ?thesis by (auto simp: tree_foreach_def)
qed

text \<open>Filling an empty tree with elements of different keys sorts them.\<close>

lemma fill_law:
  assumes "rel s xs" "\<And>y. y \<in> set ys \<Longrightarrow> y \<noteq> 0 \<and> key s y \<noteq> None"
    and "distinct (xs @ ys)" "\<And>y z. y \<in> set (xs @ ys) \<Longrightarrow> z \<in> set (xs @ ys) \<Longrightarrow> cmp (the (key s y)) (the (key s z)) = 0 \<Longrightarrow> y = z"
  shows "\<exists>s' zs. run_all ins ys s = Some (Inr s') \<and> rel s' zs \<and> set zs = set (xs @ ys) \<and> key s' = key s"
  using assms
proof (induction ys arbitrary: s xs)
  case Nil
  then show ?case by auto
next
  case (Cons y ys)
  let ?xs = "insert_asc cmp (\<lambda>a. the (key s a)) y xs"
  have y: "y \<noteq> 0" "key s y \<noteq> None" "y \<notin> set xs" using Cons.prems(2) [of y] Cons.prems(3) by auto
  from ins_law [OF Cons.prems(1) y] obtain s1 where
    s1: "ins y s = Some (Inr s1)" "rel s1 ?xs" "key s1 = key s" by blast
  have new: "\<not> (\<exists>z\<in>set xs. cmp (the (key s y)) (the (key s z)) = 0)"
    using Cons.prems(4) [of y] y(3) by (metis Un_iff list.set_intros(1) set_append)
  have set: "set ?xs = insert y (set xs)" by (rule set_insert_asc_new) (use new in simp)
  have "distinct ?xs" by (rule ascending_distinct [OF rel_asc [OF s1(2)]])
  then have dist: "distinct (?xs @ ys)" using Cons.prems(3) set by auto
  have cells: "z \<noteq> 0 \<and> key s1 z \<noteq> None" if "z \<in> set ys" for z using Cons.prems(2) s1(3) that by simp
  have keys: "u = v" if "u \<in> set (?xs @ ys)" "v \<in> set (?xs @ ys)" "cmp (the (key s1 u)) (the (key s1 v)) = 0" for u v
    using Cons.prems(4) [of u v] that set s1(3) by simp
  from Cons.IH [OF s1(2) cells dist keys] obtain s' zs where
    "run_all ins ys s1 = Some (Inr s')" "rel s' zs" "set zs = set (?xs @ ys)" "key s' = key s1" by blast
  then show ?case using s1 set by auto
qed

text \<open>Removing elements one by one takes exactly these out.\<close>

lemma drain_law:
  assumes "rel s xs" "set ys \<subseteq> set xs" "distinct ys"
  shows "\<exists>s'. run_all rem ys s = Some (Inr s') \<and> rel s' (filter (\<lambda>x. x \<notin> set ys) xs) \<and> key s' = key s"
  using assms
proof (induction ys arbitrary: s xs)
  case Nil
  then show ?case by simp
next
  case (Cons y ys)
  from Cons.prems rem_law [of s xs y] obtain s1 where
    s1: "rem y s = Some (Inr s1)" "rel s1 (remove1 y xs)" "key s1 = key s" by auto
  have dist: "distinct xs" by (rule ascending_distinct [OF rel_asc [OF Cons.prems(1)]])
  have "set ys \<subseteq> set (remove1 y xs)" using Cons.prems dist by auto
  with Cons.IH [OF s1(2)] Cons.prems obtain s' where
    "run_all rem ys s1 = Some (Inr s')" "rel s' (filter (\<lambda>x. x \<notin> set ys) (remove1 y xs))" "key s' = key s1" by auto
  moreover have "filter (\<lambda>x. x \<notin> set ys) (remove1 y xs) = filter (\<lambda>x. x \<notin> set (y # ys)) xs"
    using dist by (simp add: distinct_remove1_removeAll removeAll_filter_not_eq) (metis (full_types))
  ultimately show ?case using s1 by simp
qed

text \<open>An element that was inserted is found, until it is removed.\<close>

lemma find_inserted:
  assumes "rel s xs" "x \<noteq> 0" "key s x \<noteq> None" "x \<notin> set xs" "\<forall>y\<in>set xs. cmp (the (key s x)) (the (key s y)) \<noteq> 0"
  shows "\<exists>s1 s2. ins x s = Some (Inr s1) \<and> fnd x s1 = Some (Inr (x, s2))"
proof -
  let ?xs = "insert_asc cmp (\<lambda>a. the (key s a)) x xs"
  from ins_law [OF assms(1-4)] obtain s1 where s1: "ins x s = Some (Inr s1)" "rel s1 ?xs" "key s1 = key s" by blast
  have "x \<in> set ?xs" using set_insert_asc_new [of xs cmp "\<lambda>a. the (key s a)" x] assms(5) by auto
  then obtain us vs where xs: "?xs = us @ x # vs" by (auto simp: in_set_conv_decomp)
  have asc: "ascending cmp (\<lambda>a. the (key s1 a)) ?xs" by (rule rel_asc [OF s1(2)])
  then have "cmp_ok cmp" by auto
  then have "find_asc cmp (\<lambda>a. the (key s1 a)) x ?xs = x"
    unfolding xs using asc xs by (intro find_asc_present) (simp_all add: cmp_refl)
  with fnd_law [OF s1(2), of x] assms(3) s1 show ?thesis by auto
qed

text \<open>A whole session: filling an empty tree, a loop over it, removals, and a second loop.\<close>

lemma session_law:
  assumes "rel s []" "distinct ys" "\<And>y. y \<in> set ys \<Longrightarrow> y \<noteq> 0 \<and> key s y \<noteq> None"
    and "\<And>y z. y \<in> set ys \<Longrightarrow> z \<in> set ys \<Longrightarrow> cmp (the (key s y)) (the (key s z)) = 0 \<Longrightarrow> y = z"
    and "distinct ds" "set ds \<subseteq> set ys"
  shows "\<exists>s1 s2 s3 s4 zs. run_all ins ys s = Some (Inr s1) \<and> tree_foreach mn nxt s1 = Some (Inr (zs, s2)) \<and>
    set zs = set ys \<and> ascending cmp (\<lambda>a. the (key s a)) zs \<and> run_all rem ds s2 = Some (Inr s3) \<and>
    tree_foreach mn nxt s3 = Some (Inr (filter (\<lambda>z. z \<notin> set ds) zs, s4)) \<and> rel s4 (filter (\<lambda>z. z \<notin> set ds) zs)"
proof -
  from fill_law [OF assms(1), of ys] assms(2-4) obtain s1 zs where
    s1: "run_all ins ys s = Some (Inr s1)" "rel s1 zs" "set zs = set ys" "key s1 = key s" by auto
  from foreach_law [OF s1(2)] obtain s2 where
    s2: "tree_foreach mn nxt s1 = Some (Inr (zs, s2))" "rel s2 zs" "key s2 = key s1" by blast
  from drain_law [OF s2(2), of ds] assms(5,6) s1(3) obtain s3 where
    s3: "run_all rem ds s2 = Some (Inr s3)" "rel s3 (filter (\<lambda>z. z \<notin> set ds) zs)" by auto
  from foreach_law [OF s3(2)] rel_asc [OF s1(2)] s1 s2 s3 show ?thesis by auto
qed

end

end
