(* ===== verification/Splay_Tree.thy ===== *)
theory Splay_Tree
  imports Ordered_Elems "HOL-Library.Tree"
begin

text \<open>
  The splay trees of \<open>utils/tree.h\<close> (\<open>SPLAY_GENERATE\<close>, \<open>SPLAY_PROTOTYPE\<close>) over an
  explicit heap.  The argument \<open>cmp\<close> is the comparison the client hands to the
  macros.  The loop of \<open>SPLAY\<close> takes the tree apart into a left and a right part
  that hang on the local variable \<open>__node\<close>; the abstraction describes them as
  two lists of nodes with their outer subtrees, and every macro as a
  step on these lists.
\<close>

section \<open>Data\<close>

record 'k splay_elm =
  spl_key :: 'k
  spe_left :: nat
  spe_right :: nat

record 'k splay =
  spl_cells :: "nat \<rightharpoonup> 'k splay_elm"
  sph_root :: nat

text \<open>
  The local variables of \<open>SPLAY\<close>: the two fields of the structure \<open>__node\<close>, and the
  pointers \<open>__left\<close> and \<open>__right\<close>, which refer to \<open>__node\<close> or to an element.
\<close>

datatype splay_ref = LocalNode | Elem nat

record splay_locals =
  node_left :: nat
  node_right :: nat
  left_ref :: splay_ref
  right_ref :: splay_ref

section \<open>The macros\<close>

definition SPLAY_INIT :: "'k splay \<Rightarrow> 'k splay" where
  "SPLAY_INIT t = t\<lparr>sph_root := 0\<rparr>"

definition SPLAY_INITIALIZER :: "(nat \<rightharpoonup> 'k splay_elm) \<Rightarrow> 'k splay" where
  "SPLAY_INITIALIZER h = \<lparr>spl_cells = h, sph_root = 0\<rparr>"

definition SPLAY_LEFT :: "'k splay \<Rightarrow> nat \<Rightarrow> nat exec" where
  "SPLAY_LEFT t p = bindE (fetch (spl_cells t) p) (\<lambda>e. Inr (spe_left e))"

definition SPLAY_RIGHT :: "'k splay \<Rightarrow> nat \<Rightarrow> nat exec" where
  "SPLAY_RIGHT t p = bindE (fetch (spl_cells t) p) (\<lambda>e. Inr (spe_right e))"

definition set_left :: "'k splay \<Rightarrow> nat \<Rightarrow> nat \<Rightarrow> 'k splay exec" where
  "set_left t p q =
     bindE (modify (spl_cells t) p (\<lambda>e. e\<lparr>spe_left := q\<rparr>)) (\<lambda>h. Inr (t\<lparr>spl_cells := h\<rparr>))"

definition set_right :: "'k splay \<Rightarrow> nat \<Rightarrow> nat \<Rightarrow> 'k splay exec" where
  "set_right t p q =
     bindE (modify (spl_cells t) p (\<lambda>e. e\<lparr>spe_right := q\<rparr>)) (\<lambda>h. Inr (t\<lparr>spl_cells := h\<rparr>))"

definition SPLAY_EMPTY :: "'k splay \<Rightarrow> bool" where
  "SPLAY_EMPTY t \<longleftrightarrow> sph_root t = 0"

definition SPLAY_ROOT :: "'k splay \<Rightarrow> nat" where
  "SPLAY_ROOT t = sph_root t"

text \<open>The comparison reads the contents of both elements.\<close>

definition cmp_at :: "('k \<Rightarrow> 'k \<Rightarrow> int) \<Rightarrow> 'k splay \<Rightarrow> nat \<Rightarrow> nat \<Rightarrow> int exec" where
  "cmp_at cmp t p q =
     bindE (fetch (spl_cells t) p) (\<lambda>d. bindE (fetch (spl_cells t) q) (\<lambda>e. Inr (cmp (spl_key d) (spl_key e))))"

definition SPLAY_ROTATE_RIGHT :: "'k splay \<Rightarrow> nat \<Rightarrow> 'k splay exec" where
  "SPLAY_ROTATE_RIGHT t tmp =
     bindE (SPLAY_RIGHT t tmp) (\<lambda>r.
     bindE (set_left t (sph_root t) r) (\<lambda>t.
     bindE (set_right t tmp (sph_root t)) (\<lambda>t.
     Inr (t\<lparr>sph_root := tmp\<rparr>))))"

definition SPLAY_ROTATE_LEFT :: "'k splay \<Rightarrow> nat \<Rightarrow> 'k splay exec" where
  "SPLAY_ROTATE_LEFT t tmp =
     bindE (SPLAY_LEFT t tmp) (\<lambda>l.
     bindE (set_right t (sph_root t) l) (\<lambda>t.
     bindE (set_left t tmp (sph_root t)) (\<lambda>t.
     Inr (t\<lparr>sph_root := tmp\<rparr>))))"

text \<open>Writing through \<open>__left\<close> or \<open>__right\<close>.\<close>

definition set_ref_left :: "splay_ref \<Rightarrow> nat \<Rightarrow> 'k splay \<times> splay_locals \<Rightarrow> ('k splay \<times> splay_locals) exec" where
  "set_ref_left p q = (\<lambda>(t, v). case p of
       LocalNode \<Rightarrow> Inr (t, v\<lparr>node_left := q\<rparr>)
     | Elem a \<Rightarrow> bindE (set_left t a q) (\<lambda>t. Inr (t, v)))"

definition set_ref_right :: "splay_ref \<Rightarrow> nat \<Rightarrow> 'k splay \<times> splay_locals \<Rightarrow> ('k splay \<times> splay_locals) exec" where
  "set_ref_right p q = (\<lambda>(t, v). case p of
       LocalNode \<Rightarrow> Inr (t, v\<lparr>node_right := q\<rparr>)
     | Elem a \<Rightarrow> bindE (set_right t a q) (\<lambda>t. Inr (t, v)))"

text \<open>\<open>SPLAY_LINKLEFT\<close> is used with \<open>__right\<close>, \<open>SPLAY_LINKRIGHT\<close> with \<open>__left\<close>.\<close>

definition SPLAY_LINKLEFT :: "'k splay \<times> splay_locals \<Rightarrow> ('k splay \<times> splay_locals) exec" where
  "SPLAY_LINKLEFT = (\<lambda>(t, v).
     bindE (set_ref_left (right_ref v) (sph_root t) (t, v)) (\<lambda>(t, v).
     bindE (SPLAY_LEFT t (sph_root t)) (\<lambda>l.
     Inr (t\<lparr>sph_root := l\<rparr>, v\<lparr>right_ref := Elem (sph_root t)\<rparr>))))"

definition SPLAY_LINKRIGHT :: "'k splay \<times> splay_locals \<Rightarrow> ('k splay \<times> splay_locals) exec" where
  "SPLAY_LINKRIGHT = (\<lambda>(t, v).
     bindE (set_ref_right (left_ref v) (sph_root t) (t, v)) (\<lambda>(t, v).
     bindE (SPLAY_RIGHT t (sph_root t)) (\<lambda>r.
     Inr (t\<lparr>sph_root := r\<rparr>, v\<lparr>left_ref := Elem (sph_root t)\<rparr>))))"

definition SPLAY_ASSEMBLE :: "'k splay \<times> splay_locals \<Rightarrow> 'k splay exec" where
  "SPLAY_ASSEMBLE = (\<lambda>(t, v).
     bindE (SPLAY_LEFT t (sph_root t)) (\<lambda>l.
     bindE (set_ref_right (left_ref v) l (t, v)) (\<lambda>(t, v).
     bindE (SPLAY_RIGHT t (sph_root t)) (\<lambda>r.
     bindE (set_ref_left (right_ref v) r (t, v)) (\<lambda>(t, v).
     bindE (set_left t (sph_root t) (node_right v)) (\<lambda>t.
     set_right t (sph_root t) (node_left v)))))))"

section \<open>The splay operation\<close>

definition init_locals :: splay_locals where
  "init_locals = \<lparr>node_left = 0, node_right = 0, left_ref = LocalNode, right_ref = LocalNode\<rparr>"

text \<open>
  One turn to the left: \<open>smaller\<close> says whether to rotate first, given the left child.
  The result says whether the loop is left.
\<close>

definition turn_left ::
  "('k splay \<Rightarrow> nat \<Rightarrow> bool exec) \<Rightarrow> 'k splay \<times> splay_locals \<Rightarrow> (('k splay \<times> splay_locals) \<times> bool) exec" where
  "turn_left smaller = (\<lambda>(t, v).
     bindE (SPLAY_LEFT t (sph_root t)) (\<lambda>tmp.
     if tmp = 0 then Inr ((t, v), True)
     else
       bindE (smaller t tmp) (\<lambda>rotate.
       bindE (if rotate then
                bindE (SPLAY_ROTATE_RIGHT t tmp) (\<lambda>t.
                bindE (SPLAY_LEFT t (sph_root t)) (\<lambda>l. Inr (t, l = 0)))
              else Inr (t, False)) (\<lambda>(t, leave).
       if leave then Inr ((t, v), True)
       else bindE (SPLAY_LINKLEFT (t, v)) (\<lambda>s. Inr (s, False))))))"

definition turn_right ::
  "('k splay \<Rightarrow> nat \<Rightarrow> bool exec) \<Rightarrow> 'k splay \<times> splay_locals \<Rightarrow> (('k splay \<times> splay_locals) \<times> bool) exec" where
  "turn_right larger = (\<lambda>(t, v).
     bindE (SPLAY_RIGHT t (sph_root t)) (\<lambda>tmp.
     if tmp = 0 then Inr ((t, v), True)
     else
       bindE (larger t tmp) (\<lambda>rotate.
       bindE (if rotate then
                bindE (SPLAY_ROTATE_LEFT t tmp) (\<lambda>t.
                bindE (SPLAY_RIGHT t (sph_root t)) (\<lambda>r. Inr (t, r = 0)))
              else Inr (t, False)) (\<lambda>(t, leave).
       if leave then Inr ((t, v), True)
       else bindE (SPLAY_LINKRIGHT (t, v)) (\<lambda>s. Inr (s, False))))))"

definition splay_body ::
  "('k \<Rightarrow> 'k \<Rightarrow> int) \<Rightarrow> nat \<Rightarrow> 'k splay \<times> splay_locals \<Rightarrow> (('k splay \<times> splay_locals) \<times> bool) exec" where
  "splay_body cmp x = (\<lambda>(t, v).
     bindE (cmp_at cmp t x (sph_root t)) (\<lambda>comp.
     if comp = 0 then Inr ((t, v), True)
     else if comp < 0 then
       turn_left (\<lambda>t tmp. bindE (cmp_at cmp t x tmp) (\<lambda>c. Inr (c < 0))) (t, v)
     else
       turn_right (\<lambda>t tmp. bindE (cmp_at cmp t x tmp) (\<lambda>c. Inr (0 < c))) (t, v)))"

definition SPLAY :: "('k \<Rightarrow> 'k \<Rightarrow> int) \<Rightarrow> nat \<Rightarrow> 'k splay \<Rightarrow> 'k splay run" where
  "SPLAY cmp x t =
     bindR (c_loop (\<lambda>s. Some (splay_body cmp x s)) (t, init_locals)) (\<lambda>s. Some (SPLAY_ASSEMBLE s))"

definition minmax_body ::
  "int \<Rightarrow> 'k splay \<times> splay_locals \<Rightarrow> (('k splay \<times> splay_locals) \<times> bool) exec" where
  "minmax_body dir = (\<lambda>s.
     if dir < 0 then turn_left (\<lambda>_ _. Inr (dir < 0)) s
     else if 0 < dir then turn_right (\<lambda>_ _. Inr (0 < dir)) s
     else Inr (s, False))"

definition SPLAY_MINMAX :: "int \<Rightarrow> 'k splay \<Rightarrow> 'k splay run" where
  "SPLAY_MINMAX dir t =
     bindR (c_loop (\<lambda>s. Some (minmax_body dir s)) (t, init_locals)) (\<lambda>s. Some (SPLAY_ASSEMBLE s))"

section \<open>The operations of a client\<close>

definition SPLAY_INSERT :: "('k \<Rightarrow> 'k \<Rightarrow> int) \<Rightarrow> nat \<Rightarrow> 'k splay \<Rightarrow> 'k splay run" where
  "SPLAY_INSERT cmp x t =
     (if SPLAY_EMPTY t then Some
        (bindE (set_right t x 0) (\<lambda>t. bindE (set_left t x 0) (\<lambda>t. Inr (t\<lparr>sph_root := x\<rparr>))))
      else
        bindR (SPLAY cmp x t) (\<lambda>t. Some
          (bindE (cmp_at cmp t x (sph_root t)) (\<lambda>comp.
           if comp < 0 then
             bindE (SPLAY_LEFT t (sph_root t)) (\<lambda>l.
             bindE (set_left t x l) (\<lambda>t.
             bindE (set_right t x (sph_root t)) (\<lambda>t.
             bindE (set_left t (sph_root t) 0) (\<lambda>t.
             Inr (t\<lparr>sph_root := x\<rparr>)))))
           else if 0 < comp then
             bindE (SPLAY_RIGHT t (sph_root t)) (\<lambda>r.
             bindE (set_right t x r) (\<lambda>t.
             bindE (set_left t x (sph_root t)) (\<lambda>t.
             bindE (set_right t (sph_root t) 0) (\<lambda>t.
             Inr (t\<lparr>sph_root := x\<rparr>)))))
           else Inr t))))"

definition SPLAY_REMOVE :: "('k \<Rightarrow> 'k \<Rightarrow> int) \<Rightarrow> nat \<Rightarrow> 'k splay \<Rightarrow> 'k splay run" where
  "SPLAY_REMOVE cmp x t =
     (if SPLAY_EMPTY t then Some (Inr t)
      else
        bindR (SPLAY cmp x t) (\<lambda>t.
        bindR (Some (cmp_at cmp t x (sph_root t))) (\<lambda>comp.
        if comp = 0 then
          bindR (Some (SPLAY_LEFT t (sph_root t))) (\<lambda>l.
          bindR (Some (SPLAY_RIGHT t (sph_root t))) (\<lambda>r.
          if l = 0 then Some (Inr (t\<lparr>sph_root := r\<rparr>))
          else
            bindR (SPLAY cmp x (t\<lparr>sph_root := l\<rparr>)) (\<lambda>t.
            Some (set_right t (sph_root t) r))))
        else Some (Inr t))))"

definition SPLAY_FIND :: "('k \<Rightarrow> 'k \<Rightarrow> int) \<Rightarrow> nat \<Rightarrow> 'k splay \<Rightarrow> (nat \<times> 'k splay) run" where
  "SPLAY_FIND cmp x t =
     (if SPLAY_EMPTY t then Some (Inr (0, t))
      else
        bindR (SPLAY cmp x t) (\<lambda>t.
        bindR (Some (cmp_at cmp t x (sph_root t))) (\<lambda>comp.
        Some (Inr (if comp = 0 then sph_root t else 0, t)))))"

definition leftmost_body :: "'k splay \<Rightarrow> nat \<Rightarrow> (nat \<times> bool) exec" where
  "leftmost_body t x =
     bindE (SPLAY_LEFT t x) (\<lambda>l. Inr (if l \<noteq> 0 then (l, False) else (x, True)))"

definition SPLAY_NEXT :: "('k \<Rightarrow> 'k \<Rightarrow> int) \<Rightarrow> nat \<Rightarrow> 'k splay \<Rightarrow> (nat \<times> 'k splay) run" where
  "SPLAY_NEXT cmp x t =
     bindR (SPLAY cmp x t) (\<lambda>t.
     bindR (Some (SPLAY_RIGHT t x)) (\<lambda>r.
     if r \<noteq> 0 then bindR (c_loop (\<lambda>p. Some (leftmost_body t p)) r) (\<lambda>p. Some (Inr (p, t)))
     else Some (Inr (0, t))))"

definition SPLAY_MIN_MAX :: "int \<Rightarrow> 'k splay \<Rightarrow> (nat \<times> 'k splay) run" where
  "SPLAY_MIN_MAX v t = bindR (SPLAY_MINMAX v t) (\<lambda>t. Some (Inr (SPLAY_ROOT t, t)))"

definition SPLAY_NEGINF :: int where "SPLAY_NEGINF = - 1"
definition SPLAY_INF :: int where "SPLAY_INF = 1"

definition SPLAY_MIN :: "'k splay \<Rightarrow> (nat \<times> 'k splay) run" where
  "SPLAY_MIN t = (if SPLAY_EMPTY t then Some (Inr (0, t)) else SPLAY_MIN_MAX SPLAY_NEGINF t)"

definition SPLAY_MAX :: "'k splay \<Rightarrow> (nat \<times> 'k splay) run" where
  "SPLAY_MAX t = (if SPLAY_EMPTY t then Some (Inr (0, t)) else SPLAY_MIN_MAX SPLAY_INF t)"

definition SPLAY_FOREACH :: "('k \<Rightarrow> 'k \<Rightarrow> int) \<Rightarrow> 'k splay \<Rightarrow> (nat list \<times> 'k splay) run" where
  "SPLAY_FOREACH cmp t = tree_foreach SPLAY_MIN (SPLAY_NEXT cmp) t"

section \<open>Trees in the heap\<close>

fun stree :: "(nat \<rightharpoonup> 'k splay_elm) \<Rightarrow> nat \<Rightarrow> nat tree \<Rightarrow> bool" where
  "stree h p Leaf = (p = 0)"
| "stree h p (Node l a r) =
     (p = a \<and> a \<noteq> 0 \<and> (\<exists>e. h a = Some e \<and> stree h (spe_left e) l \<and> stree h (spe_right e) r))"

text \<open>
  A part that hangs on \<open>__node\<close>: a chain of nodes linked by the field \<open>nxt\<close>, each
  with a subtree in the field \<open>sub\<close>.  The last link is not yet set.
\<close>

fun spine ::
  "('k splay_elm \<Rightarrow> nat) \<Rightarrow> ('k splay_elm \<Rightarrow> nat) \<Rightarrow> (nat \<rightharpoonup> 'k splay_elm) \<Rightarrow> nat \<Rightarrow> (nat \<times> nat tree) list \<Rightarrow> bool" where
  "spine sub nxt h p [] = True"
| "spine sub nxt h p ((a, s) # L) =
     (p = a \<and> a \<noteq> 0 \<and> (\<exists>e. h a = Some e \<and> stree h (sub e) s \<and> spine sub nxt h (nxt e) L))"

definition lseq :: "(nat \<times> nat tree) list \<Rightarrow> nat list" where
  "lseq L = concat (map (\<lambda>(a, s). inorder s @ [a]) L)"

definition rseq :: "(nat \<times> nat tree) list \<Rightarrow> nat list" where
  "rseq R = concat (map (\<lambda>(a, s). a # inorder s) (rev R))"

lemma parts_seq_simps [simp]:
  "lseq [] = []" "lseq ((a, s) # L) = inorder s @ a # lseq L" "lseq (L @ M) = lseq L @ lseq M"
  "rseq [] = []" "rseq ((a, s) # R) = rseq R @ a # inorder s" "rseq (R @ S) = rseq S @ rseq R"
  by (simp_all add: lseq_def rseq_def)

lemma set_rseq: "set (rseq R) = set (lseq R)"
  by (induction R) auto

lemma distinct_rseq: "distinct (rseq R) = distinct (lseq R)"
  by (induction R) (auto simp: set_rseq)

lemmas rseq_lseq = set_rseq distinct_rseq

text \<open>The whole sequence of the elements while the tree is taken apart.\<close>

definition loop_seq :: "(nat \<times> nat tree) list \<Rightarrow> nat tree \<Rightarrow> (nat \<times> nat tree) list \<Rightarrow> nat list" where
  "loop_seq L T R = lseq L @ inorder T @ rseq R"

lemma loop_seq_steps:
  "loop_seq L l (R @ [(a, r)]) = loop_seq L (Node l a r) R"
  "loop_seq (L @ [(a, l)]) r R = loop_seq L (Node l a r) R"
  "loop_seq L (Node (Node l b m) a r) R = loop_seq L (Node l b (Node m a r)) R"
  by (simp_all add: loop_seq_def)

lemma stree_upd [simp]: "a \<notin> set (inorder t) \<Longrightarrow> stree (h(a := e)) p t = stree h p t"
  by (induction t arbitrary: p) auto

lemma stree_null [simp]: "stree h 0 t \<longleftrightarrow> t = Leaf"
  by (cases t) auto

lemma stree_cong: "(\<And>a. a \<in> set (inorder t) \<Longrightarrow> h' a = h a) \<Longrightarrow> stree h' p t = stree h p t"
  by (induction t arbitrary: p) auto

lemma stree_root: "stree h p t \<Longrightarrow> t \<noteq> Leaf \<Longrightarrow> p \<noteq> 0 \<and> p \<in> set (inorder t) \<and> p \<in> dom h"
  by (cases t) auto

lemma stree_dom: "stree h p t \<Longrightarrow> a \<in> set (inorder t) \<Longrightarrow> a \<noteq> 0 \<and> a \<in> dom h"
  by (induction t arbitrary: p) auto

lemma spine_upd [simp]: "a \<notin> set (lseq L) \<Longrightarrow> spine sub nxt (h(a := e)) p L = spine sub nxt h p L"
  by (induction L arbitrary: p) auto

lemma spine_snoc:
  "spine sub nxt h p (L @ [(a, u), (x, s)]) \<longleftrightarrow>
     spine sub nxt h p (L @ [(a, u)]) \<and> (\<exists>e. h a = Some e \<and> spine sub nxt h (nxt e) [(x, s)])"
  by (induction L arbitrary: p) auto

lemma spine_last:
  "spine sub nxt h p (L @ [(a, u)]) \<Longrightarrow> \<exists>e. h a = Some e \<and> a \<noteq> 0"
  by (induction L arbitrary: p) auto

lemma spine_relink:
  "spine sub nxt h p (L @ [(a, u)]) \<Longrightarrow> distinct (lseq (L @ [(a, u)])) \<Longrightarrow> h a = Some e \<Longrightarrow> sub e' = sub e \<Longrightarrow>
   spine sub nxt (h(a \<mapsto> e')) p (L @ [(a, u)])"
  by (induction L arbitrary: p) auto

text \<open>What the loop keeps: the keys, and every element outside the tree.\<close>

definition keys :: "'k splay \<Rightarrow> nat \<Rightarrow> 'k option" where
  "keys t a = map_option spl_key (spl_cells t a)"

lemma keys_root [simp]: "keys (t\<lparr>sph_root := p\<rparr>) = keys t"
  by (simp add: keys_def fun_eq_iff)

definition same_but :: "nat set \<Rightarrow> 'k splay \<Rightarrow> 'k splay \<Rightarrow> bool" where
  "same_but A t t' \<longleftrightarrow> keys t' = keys t \<and> (\<forall>a. a \<notin> A \<longrightarrow> spl_cells t' a = spl_cells t a)"

lemma same_but_refl [simp]: "same_but A t t"
  by (simp add: same_but_def)

lemma same_but_trans [trans]: "same_but A t t' \<Longrightarrow> same_but A t' t'' \<Longrightarrow> same_but A t t''"
  by (simp add: same_but_def)

lemma same_but_mono: "same_but A t t' \<Longrightarrow> A \<subseteq> B \<Longrightarrow> same_but B t t'"
  by (auto simp: same_but_def)

lemma set_left_ok:
  "spl_cells t p = Some e \<Longrightarrow> set_left t p q = Inr (t\<lparr>spl_cells := (spl_cells t)(p \<mapsto> e\<lparr>spe_left := q\<rparr>)\<rparr>)"
  by (simp add: set_left_def)

lemma set_right_ok:
  "spl_cells t p = Some e \<Longrightarrow> set_right t p q = Inr (t\<lparr>spl_cells := (spl_cells t)(p \<mapsto> e\<lparr>spe_right := q\<rparr>)\<rparr>)"
  by (simp add: set_right_def)

lemma SPLAY_LEFT_ok: "spl_cells t p = Some e \<Longrightarrow> SPLAY_LEFT t p = Inr (spe_left e)"
  by (simp add: SPLAY_LEFT_def)

lemma SPLAY_RIGHT_ok: "spl_cells t p = Some e \<Longrightarrow> SPLAY_RIGHT t p = Inr (spe_right e)"
  by (simp add: SPLAY_RIGHT_def)

lemmas splay_access = set_left_ok set_right_ok SPLAY_LEFT_ok SPLAY_RIGHT_ok

section \<open>The state of the loop\<close>

definition ref_of :: "(nat \<times> nat tree) list \<Rightarrow> splay_ref" where
  "ref_of L = (if L = [] then LocalNode else Elem (fst (last L)))"

definition loop_rep ::
  "'k splay \<times> splay_locals \<Rightarrow> (nat \<times> nat tree) list \<Rightarrow> nat tree \<Rightarrow> (nat \<times> nat tree) list \<Rightarrow> bool" where
  "loop_rep = (\<lambda>(t, v) L T R.
     stree (spl_cells t) (sph_root t) T \<and>
     spine spe_left spe_right (spl_cells t) (node_right v) L \<and> left_ref v = ref_of L \<and>
     spine spe_right spe_left (spl_cells t) (node_left v) R \<and> right_ref v = ref_of R \<and>
     distinct (loop_seq L T R))"

lemma loop_rep_rotate_right:
  assumes "loop_rep (t, v) L (Node (Node l b m) a r) R"
  shows "\<exists>t'. SPLAY_ROTATE_RIGHT t b = Inr t' \<and> loop_rep (t', v) L (Node l b (Node m a r)) R \<and>
    same_but {a, b} t t'"
  using assms
  by (auto simp: loop_rep_def loop_seq_def SPLAY_ROTATE_RIGHT_def splay_access same_but_def keys_def fun_eq_iff rseq_lseq)

lemma loop_rep_rotate_left:
  assumes "loop_rep (t, v) L (Node l a (Node m b r)) R"
  shows "\<exists>t'. SPLAY_ROTATE_LEFT t b = Inr t' \<and> loop_rep (t', v) L (Node (Node l a m) b r) R \<and>
    same_but {a, b} t t'"
  using assms
  by (auto simp: loop_rep_def loop_seq_def SPLAY_ROTATE_LEFT_def splay_access same_but_def keys_def fun_eq_iff rseq_lseq)

lemma ref_of_simps [simp]: "ref_of [] = LocalNode" "ref_of [(a, s)] = Elem a" "ref_of (L @ [(a, s)]) = Elem a"
  "ref_of (L @ [bu, (a, s)]) = Elem a"
  by (simp_all add: ref_of_def)

lemma loop_rep_link_left:
  assumes rep: "loop_rep (t, v) L (Node l a r) R"
  shows "\<exists>t' v'. SPLAY_LINKLEFT (t, v) = Inr (t', v') \<and> loop_rep (t', v') L l (R @ [(a, r)]) \<and>
    same_but (set (rseq R)) t t'"
proof (cases R rule: rev_cases)
  case Nil
  with rep show ?thesis
    by (auto simp: loop_rep_def SPLAY_LINKLEFT_def set_ref_left_def splay_access same_but_def
        loop_seq_steps(1) [of _ _ "[]", simplified])
next
  case (snoc S bu)
  obtain b u where bu: "bu = (b, u)" by force
  with rep snoc obtain e where e: "spl_cells t b = Some e" "b \<noteq> 0"
    by (auto simp: loop_rep_def dest: spine_last)
  from rep have d: "distinct (loop_seq L (Node l a r) R)" by (simp add: loop_rep_def)
  then have out: "b \<noteq> a" "b \<notin> set (inorder l)" "b \<notin> set (inorder r)" "b \<notin> set (lseq L)" "distinct (lseq (S @ [(b, u)]))"
    using snoc bu by (auto simp: loop_seq_def rseq_lseq)
  have "spine spe_right spe_left ((spl_cells t)(b \<mapsto> e\<lparr>spe_left := a\<rparr>)) (node_left v) (S @ [(b, u)])"
    using rep e snoc bu out by (intro spine_relink [where e = e]) (simp_all add: loop_rep_def)
  with rep snoc bu e d out show ?thesis
    by (auto simp: loop_rep_def SPLAY_LINKLEFT_def set_ref_left_def splay_access spine_snoc same_but_def keys_def
        fun_eq_iff loop_seq_steps(1) [of _ _ "S @ [(b, u)]", simplified])
qed

lemma loop_rep_link_right:
  assumes rep: "loop_rep (t, v) L (Node l a r) R"
  shows "\<exists>t' v'. SPLAY_LINKRIGHT (t, v) = Inr (t', v') \<and> loop_rep (t', v') (L @ [(a, l)]) r R \<and>
    same_but (set (lseq L)) t t'"
proof (cases L rule: rev_cases)
  case Nil
  with rep show ?thesis
    by (auto simp: loop_rep_def SPLAY_LINKRIGHT_def set_ref_right_def splay_access same_but_def
        loop_seq_steps(2) [of "[]", simplified])
next
  case (snoc S bu)
  obtain b u where bu: "bu = (b, u)" by force
  with rep snoc obtain e where e: "spl_cells t b = Some e" "b \<noteq> 0"
    by (auto simp: loop_rep_def dest: spine_last)
  from rep have d: "distinct (loop_seq L (Node l a r) R)" by (simp add: loop_rep_def)
  then have out: "b \<noteq> a" "b \<notin> set (inorder l)" "b \<notin> set (inorder r)" "b \<notin> set (lseq R)" "distinct (lseq (S @ [(b, u)]))"
    using snoc bu by (auto simp: loop_seq_def rseq_lseq)
  have "spine spe_left spe_right ((spl_cells t)(b \<mapsto> e\<lparr>spe_right := a\<rparr>)) (node_right v) (S @ [(b, u)])"
    using rep e snoc bu out by (intro spine_relink [where e = e]) (simp_all add: loop_rep_def)
  with rep snoc bu e d out show ?thesis
    by (auto simp: loop_rep_def SPLAY_LINKRIGHT_def set_ref_right_def splay_access spine_snoc same_but_def keys_def
        fun_eq_iff loop_seq_steps(2) [of "S @ [(b, u)]", simplified])
qed

fun lbuild :: "(nat \<times> nat tree) list \<Rightarrow> nat tree \<Rightarrow> nat tree" where
  "lbuild [] l = l"
| "lbuild ((a, s) # L) l = Node s a (lbuild L l)"

fun rbuild :: "(nat \<times> nat tree) list \<Rightarrow> nat tree \<Rightarrow> nat tree" where
  "rbuild [] r = r"
| "rbuild ((a, s) # R) r = Node (rbuild R r) a s"

lemma inorder_build [simp]:
  "inorder (lbuild L l) = lseq L @ inorder l" "inorder (rbuild R r) = inorder r @ rseq R"
  by (induction L; auto) (induction R; auto)

lemma lbuild_stree:
  "spine spe_left spe_right h p (L @ [(a, u)]) \<Longrightarrow> h a = Some e \<Longrightarrow> stree h (spe_right e) l \<Longrightarrow>
   stree h p (lbuild (L @ [(a, u)]) l)"
  by (induction L arbitrary: p) auto

lemma rbuild_stree:
  "spine spe_right spe_left h p (R @ [(a, u)]) \<Longrightarrow> h a = Some e \<Longrightarrow> stree h (spe_left e) r \<Longrightarrow>
   stree h p (rbuild (R @ [(a, u)]) r)"
  by (induction R arbitrary: p) auto

text \<open>The two halves of \<open>SPLAY_ASSEMBLE\<close>: the inner subtrees go to the ends of the two chains.\<close>

lemma assemble_left:
  assumes rep: "loop_rep (t, v) L (Node l a r) R" and e: "spl_cells t a = Some e"
  shows "\<exists>t' v'. set_ref_right (left_ref v) (spe_left e) (t, v) = Inr (t', v') \<and>
    loop_rep (t', v') L (Node l a r) R \<and> spl_cells t' a = Some e \<and>
    stree (spl_cells t') (node_right v') (lbuild L l) \<and> same_but (set (lseq L)) t t'"
proof (cases L rule: rev_cases)
  case Nil
  with rep e show ?thesis by (auto simp: loop_rep_def set_ref_right_def)
next
  case (snoc S bu)
  obtain b u where bu: "bu = (b, u)" by force
  with rep snoc obtain d where d: "spl_cells t b = Some d" "b \<noteq> 0"
    by (auto simp: loop_rep_def dest: spine_last)
  from rep have dist: "distinct (loop_seq L (Node l a r) R)" by (simp add: loop_rep_def)
  then have out: "b \<noteq> a" "b \<notin> set (inorder l)" "b \<notin> set (inorder r)" "b \<notin> set (lseq R)" "distinct (lseq (S @ [(b, u)]))"
    using snoc bu by (auto simp: loop_seq_def rseq_lseq)
  let ?h = "(spl_cells t)(b \<mapsto> d\<lparr>spe_right := spe_left e\<rparr>)"
  have sp: "spine spe_left spe_right ?h (node_right v) (S @ [(b, u)])"
    using rep d snoc bu out by (intro spine_relink [where e = d]) (simp_all add: loop_rep_def)
  moreover have "stree ?h (spe_left e) l" using rep e out by (auto simp: loop_rep_def)
  ultimately have "stree ?h (node_right v) (lbuild L l)"
    unfolding snoc bu by (intro lbuild_stree) auto
  with sp rep snoc bu d e out dist show ?thesis
    by (auto simp: loop_rep_def set_ref_right_def splay_access same_but_def keys_def fun_eq_iff)
qed

lemma assemble_right:
  assumes rep: "loop_rep (t, v) L (Node l a r) R" and e: "spl_cells t a = Some e"
    and lb: "stree (spl_cells t) (node_right v) (lbuild L l)"
  shows "\<exists>t' v'. set_ref_left (right_ref v) (spe_right e) (t, v) = Inr (t', v') \<and>
    sph_root t' = a \<and> a \<noteq> 0 \<and> spl_cells t' a = Some e \<and>
    stree (spl_cells t') (node_right v') (lbuild L l) \<and> stree (spl_cells t') (node_left v') (rbuild R r) \<and>
    same_but (set (rseq R)) t t'"
proof (cases R rule: rev_cases)
  case Nil
  with rep e lb show ?thesis by (auto simp: loop_rep_def set_ref_left_def)
next
  case (snoc S bu)
  obtain b u where bu: "bu = (b, u)" by force
  with rep snoc obtain d where d: "spl_cells t b = Some d" "b \<noteq> 0"
    by (auto simp: loop_rep_def dest: spine_last)
  from rep have "distinct (loop_seq L (Node l a r) R)" by (simp add: loop_rep_def)
  then have out: "b \<noteq> a" "b \<notin> set (inorder l)" "b \<notin> set (inorder r)" "b \<notin> set (lseq L)" "distinct (lseq (S @ [(b, u)]))"
    using snoc bu by (auto simp: loop_seq_def rseq_lseq)
  let ?h = "(spl_cells t)(b \<mapsto> d\<lparr>spe_left := spe_right e\<rparr>)"
  have sp: "spine spe_right spe_left ?h (node_left v) (S @ [(b, u)])"
    using rep d snoc bu out by (intro spine_relink [where e = d]) (simp_all add: loop_rep_def)
  moreover have "stree ?h (spe_right e) r" using rep e out by (auto simp: loop_rep_def)
  ultimately have "stree ?h (node_left v) (rbuild R r)"
    unfolding snoc bu by (intro rbuild_stree) auto
  moreover have "b \<notin> set (inorder (lbuild L l))" using out by simp
  ultimately show ?thesis using sp rep snoc bu d e lb out
    by (auto simp: loop_rep_def set_ref_left_def splay_access same_but_def keys_def fun_eq_iff)
qed

lemma loop_rep_assemble:
  assumes rep: "loop_rep (t, v) L (Node l a r) R"
  shows "\<exists>t'. SPLAY_ASSEMBLE (t, v) = Inr t' \<and>
    stree (spl_cells t') (sph_root t') (Node (lbuild L l) a (rbuild R r)) \<and>
    same_but (set (lseq L @ a # rseq R)) t t'"
proof -
  from rep obtain e where e: "spl_cells t a = Some e" and root: "sph_root t = a" by (auto simp: loop_rep_def)
  from assemble_left [OF rep e] obtain t1 v1 where
    1: "set_ref_right (left_ref v) (spe_left e) (t, v) = Inr (t1, v1)"
      "loop_rep (t1, v1) L (Node l a r) R" "spl_cells t1 a = Some e"
      "stree (spl_cells t1) (node_right v1) (lbuild L l)" "same_but (set (lseq L)) t t1" by blast
  from assemble_right [OF 1(2-4)] obtain t2 v2 where
    2: "set_ref_left (right_ref v1) (spe_right e) (t1, v1) = Inr (t2, v2)" "sph_root t2 = a" "a \<noteq> 0"
      "spl_cells t2 a = Some e" "stree (spl_cells t2) (node_right v2) (lbuild L l)"
      "stree (spl_cells t2) (node_left v2) (rbuild R r)" "same_but (set (rseq R)) t1 t2" by blast
  have root1: "sph_root t1 = a" using 1(2) by (auto simp: loop_rep_def)
  have out: "a \<notin> set (inorder (lbuild L l))" "a \<notin> set (inorder (rbuild R r))"
    using rep by (auto simp: loop_rep_def loop_seq_def)
  have same: "same_but (set (lseq L @ a # rseq R)) t t2"
    using 1(5) 2(7) by (auto intro!: same_but_trans [of _ t t1 t2] elim: same_but_mono)
  show ?thesis
    using e root root1 1(1,3) 2 out same
    by (auto simp: SPLAY_ASSEMBLE_def splay_access same_but_def keys_def fun_eq_iff)
qed

section \<open>Turns\<close>

text \<open>What a turn does to the parts; \<open>rot\<close> says for a child whether to rot.\<close>

fun left_turn ::
  "(nat \<Rightarrow> bool) \<Rightarrow> nat tree \<Rightarrow> (nat \<times> nat tree) list \<Rightarrow> nat tree \<times> (nat \<times> nat tree) list \<times> bool" where
  "left_turn rot (Node (Node l b m) a r) R =
     (if rot b then
        if l = Leaf then (Node l b (Node m a r), R, True) else (l, R @ [(b, Node m a r)], False)
      else (Node l b m, R @ [(a, r)], False))"
| "left_turn rot T R = (T, R, True)"

fun right_turn ::
  "(nat \<Rightarrow> bool) \<Rightarrow> nat tree \<Rightarrow> (nat \<times> nat tree) list \<Rightarrow> nat tree \<times> (nat \<times> nat tree) list \<times> bool" where
  "right_turn rot (Node l a (Node m b r)) L =
     (if rot b then
        if r = Leaf then (Node (Node l a m) b r, L, True) else (r, L @ [(b, Node l a m)], False)
      else (Node m b r, L @ [(a, l)], False))"
| "right_turn rot T L = (T, L, True)"

lemma left_turn_seq:
  "left_turn rot T R = (T', R', leave) \<Longrightarrow>
   loop_seq L T' R' = loop_seq L T R \<and> (leave \<or> size T' < size T) \<and> (T \<noteq> Leaf \<longrightarrow> T' \<noteq> Leaf)"
  by (induction rot T R rule: left_turn.induct) (auto simp: loop_seq_def split: if_splits)

lemma right_turn_seq:
  "right_turn rot T L = (T', L', leave) \<Longrightarrow>
   loop_seq L' T' R = loop_seq L T R \<and> (leave \<or> size T' < size T) \<and> (T \<noteq> Leaf \<longrightarrow> T' \<noteq> Leaf)"
  by (induction rot T L rule: right_turn.induct) (auto simp: loop_seq_def split: if_splits)

lemma turn_left_rep:
  assumes rep: "loop_rep (t, v) L T R" and T: "T \<noteq> Leaf"
    and small: "\<And>b. b \<in> set (inorder T) \<Longrightarrow> smaller t b = Inr (rot b)"
    and turn: "left_turn rot T R = (T', R', leave)"
  shows "\<exists>t' v'. turn_left smaller (t, v) = Inr ((t', v'), leave) \<and> loop_rep (t', v') L T' R' \<and>
    same_but (set (loop_seq L T R)) t t'"
proof (cases "\<exists>l b m a r. T = Node (Node l b m) a r")
  case False
  with T obtain a r where T: "T = Node Leaf a r" by (metis tree.exhaust)
  with turn rep show ?thesis by (auto simp: loop_rep_def turn_left_def splay_access)
next
  case True
  then obtain l b m a r where T: "T = Node (Node l b m) a r" by blast
  from rep T obtain e where e: "spl_cells t (sph_root t) = Some e" "spe_left e = b" "b \<noteq> 0"
    by (auto simp: loop_rep_def)
  have sm: "smaller t b = Inr (rot b)" using small T by simp
  note start = turn_left_def splay_access(3) [OF e(1)] e sm
  show ?thesis
  proof (cases "rot b")
    case False
    from loop_rep_link_left [OF rep [unfolded T]] obtain t1 v1 where
      1: "SPLAY_LINKLEFT (t, v) = Inr (t1, v1)" "loop_rep (t1, v1) L (Node l b m) (R @ [(a, r)])"
        "same_but (set (rseq R)) t t1" by blast
    then have "same_but (set (loop_seq L T R)) t t1" by (auto simp: loop_seq_def elim: same_but_mono)
    with 1 False turn T show ?thesis by (auto simp: start)
  next
    case True
    from loop_rep_rotate_right [OF rep [unfolded T]] obtain t1 where
      1: "SPLAY_ROTATE_RIGHT t b = Inr t1" "loop_rep (t1, v) L (Node l b (Node m a r)) R" "same_but {a, b} t t1" by blast
    then have s1: "same_but (set (loop_seq L T R)) t t1" using T by (auto simp: loop_seq_def elim: same_but_mono)
    from 1(2) obtain d where d: "spl_cells t1 (sph_root t1) = Some d" "spe_left d = 0 \<longleftrightarrow> l = Leaf"
      by (cases l) (auto simp: loop_rep_def)
    show ?thesis
    proof (cases "l = Leaf")
      case leaf: True
      with 1 s1 d True turn T show ?thesis by (auto simp: start SPLAY_LEFT_ok)
    next
      case False
      from loop_rep_link_left [OF 1(2)] obtain t2 v2 where
        2: "SPLAY_LINKLEFT (t1, v) = Inr (t2, v2)" "loop_rep (t2, v2) L l (R @ [(b, Node m a r)])"
          "same_but (set (rseq R)) t1 t2" by blast
      then have "same_but (set (loop_seq L T R)) t1 t2" by (auto simp: loop_seq_def elim: same_but_mono)
      with s1 have "same_but (set (loop_seq L T R)) t t2" by (rule same_but_trans)
      with 1 2 d True False turn T show ?thesis by (auto simp: start SPLAY_LEFT_ok)
    qed
  qed
qed

lemma turn_right_rep:
  assumes rep: "loop_rep (t, v) L T R" and T: "T \<noteq> Leaf"
    and small: "\<And>b. b \<in> set (inorder T) \<Longrightarrow> larger t b = Inr (rot b)"
    and turn: "right_turn rot T L = (T', L', leave)"
  shows "\<exists>t' v'. turn_right larger (t, v) = Inr ((t', v'), leave) \<and> loop_rep (t', v') L' T' R \<and>
    same_but (set (loop_seq L T R)) t t'"
proof (cases "\<exists>l b m a r. T = Node l a (Node m b r)")
  case False
  with T obtain l a where T: "T = Node l a Leaf" by (metis tree.exhaust)
  with turn rep show ?thesis by (auto simp: loop_rep_def turn_right_def splay_access)
next
  case True
  then obtain l b m a r where T: "T = Node l a (Node m b r)" by blast
  from rep T obtain e where e: "spl_cells t (sph_root t) = Some e" "spe_right e = b" "b \<noteq> 0"
    by (auto simp: loop_rep_def)
  have sm: "larger t b = Inr (rot b)" using small T by simp
  note start = turn_right_def splay_access(4) [OF e(1)] e sm
  show ?thesis
  proof (cases "rot b")
    case False
    from loop_rep_link_right [OF rep [unfolded T]] obtain t1 v1 where
      1: "SPLAY_LINKRIGHT (t, v) = Inr (t1, v1)" "loop_rep (t1, v1) (L @ [(a, l)]) (Node m b r) R"
        "same_but (set (lseq L)) t t1" by blast
    then have "same_but (set (loop_seq L T R)) t t1" by (auto simp: loop_seq_def elim: same_but_mono)
    with 1 False turn T show ?thesis by (auto simp: start)
  next
    case True
    from loop_rep_rotate_left [OF rep [unfolded T]] obtain t1 where
      1: "SPLAY_ROTATE_LEFT t b = Inr t1" "loop_rep (t1, v) L (Node (Node l a m) b r) R" "same_but {a, b} t t1" by blast
    then have s1: "same_but (set (loop_seq L T R)) t t1" using T by (auto simp: loop_seq_def elim: same_but_mono)
    from 1(2) obtain d where d: "spl_cells t1 (sph_root t1) = Some d" "spe_right d = 0 \<longleftrightarrow> r = Leaf"
      by (cases r) (auto simp: loop_rep_def)
    show ?thesis
    proof (cases "r = Leaf")
      case leaf: True
      with 1 s1 d True turn T show ?thesis by (auto simp: start SPLAY_RIGHT_ok)
    next
      case False
      from loop_rep_link_right [OF 1(2)] obtain t2 v2 where
        2: "SPLAY_LINKRIGHT (t1, v) = Inr (t2, v2)" "loop_rep (t2, v2) (L @ [(b, Node l a m)]) r R"
          "same_but (set (lseq L)) t1 t2" by blast
      then have "same_but (set (loop_seq L T R)) t1 t2" by (auto simp: loop_seq_def elim: same_but_mono)
      with s1 have "same_but (set (loop_seq L T R)) t t2" by (rule same_but_trans)
      with 1 2 d True False turn T show ?thesis by (auto simp: start SPLAY_RIGHT_ok)
    qed
  qed
qed

section \<open>Correctness of the splay operation\<close>

abbreviation key_of :: "'k splay \<Rightarrow> nat \<Rightarrow> 'k" where
  "key_of t a \<equiv> the (keys t a)"

text \<open>The root of \<open>T\<close> is next to the key \<open>k\<close>: what is left of it is smaller, what is right greater.\<close>

fun parted :: "('k \<Rightarrow> 'k \<Rightarrow> int) \<Rightarrow> (nat \<Rightarrow> 'k) \<Rightarrow> 'k \<Rightarrow> nat tree \<Rightarrow> bool" where
  "parted cmp key k Leaf = False"
| "parted cmp key k (Node l a r) =
     ((\<forall>y\<in>set (inorder l). cmp (key y) k < 0) \<and> (\<forall>y\<in>set (inorder r). cmp k (key y) < 0))"

lemma left_turn_order:
  assumes asc: "ascending cmp key (inorder (Node l a r))" and a: "cmp k (key a) < 0"
    and R: "\<forall>y\<in>set (rseq R). cmp k (key y) < 0"
    and turn: "left_turn (\<lambda>b. cmp k (key b) < 0) (Node l a r) R = (T', R', leave)"
  shows "(\<forall>y\<in>set (rseq R'). cmp k (key y) < 0) \<and> (leave \<longrightarrow> parted cmp key k T')"
proof -
  have up: "cmp k (key y) < 0" if "cmp k (key b) < 0" "cmp (key b) (key y) < 0" for b y
    by (rule cmp_less_trans [OF ascending_cmp_ok [OF asc] that])
  have r: "\<forall>y\<in>set (inorder r). cmp k (key y) < 0" using asc up [OF a] by (simp add: ascending_simps)
  show ?thesis
  proof (cases l)
    case Leaf
    with turn r R show ?thesis by auto
  next
    case (Node l' b m)
    have "\<forall>y\<in>set (inorder m). cmp k (key y) < 0" if "cmp k (key b) < 0"
      using asc Node up [OF that] by (simp add: ascending_simps)
    with turn r R a Node show ?thesis by (auto split: if_splits)
  qed
qed

lemma right_turn_order:
  assumes asc: "ascending cmp key (inorder (Node l a r))" and a: "0 < cmp k (key a)"
    and L: "\<forall>y\<in>set (lseq L). cmp (key y) k < 0"
    and turn: "right_turn (\<lambda>b. 0 < cmp k (key b)) (Node l a r) L = (T', L', leave)"
  shows "(\<forall>y\<in>set (lseq L'). cmp (key y) k < 0) \<and> (leave \<longrightarrow> parted cmp key k T')"
proof -
  have ok: "cmp_ok cmp" using asc by auto
  have down: "cmp (key y) k < 0" if "0 < cmp k (key b)" "cmp (key y) (key b) < 0" for b y
    by (rule cmp_less_trans [OF ok that(2)]) (use that(1) cmp_flip [OF ok] in simp)
  have l: "\<forall>y\<in>set (inorder l). cmp (key y) k < 0" using asc down [OF a] by (simp add: ascending_simps)
  show ?thesis
  proof (cases r)
    case Leaf
    with turn l L show ?thesis by auto
  next
    case (Node m b r')
    have "\<forall>y\<in>set (inorder m). cmp (key y) k < 0" if "0 < cmp k (key b)"
      using asc Node down [OF that] by (simp add: ascending_simps)
    with turn l L a Node show ?thesis by (auto simp: cmp_flip [OF ok] split: if_splits)
  qed
qed

lemma parted_eq:
  assumes "ascending cmp key (inorder (Node l a r))" "cmp k (key a) = 0"
  shows "parted cmp key k (Node l a r)"
proof -
  have ok: "cmp_ok cmp" using assms(1) by auto
  have "cmp k (key a) \<le> 0" "cmp (key a) k \<le> 0" using assms(2) cmp_zero_flip [OF ok, of k "key a"] by auto
  with assms(1) show ?thesis
    by (auto simp: ascending_simps intro: cmp_le_less_trans [OF ok] cmp_less_le_trans [OF ok])
qed

lemma cmp_at_ok:
  "keys t p = Some a \<Longrightarrow> keys t q = Some b \<Longrightarrow> cmp_at cmp t p q = Inr (cmp a b)"
  by (auto simp: cmp_at_def keys_def)

lemma stree_keys: "stree (spl_cells t) p T \<Longrightarrow> a \<in> set (inorder T) \<Longrightarrow> keys t a = Some (key_of t a)"
  using stree_dom [of "spl_cells t" p T a] by (auto simp: keys_def)

text \<open>The invariant of the loop; \<open>n\<close> bounds the size of what is left of the tree.\<close>

definition splay_inv ::
  "('k \<Rightarrow> 'k \<Rightarrow> int) \<Rightarrow> 'k \<Rightarrow> 'k splay \<Rightarrow> nat list \<Rightarrow> (nat tree \<Rightarrow> bool) \<Rightarrow> 'k splay \<times> splay_locals \<Rightarrow> bool" where
  "splay_inv cmp k t0 xs P = (\<lambda>(t, v). \<exists>L T R. loop_rep (t, v) L T R \<and> T \<noteq> Leaf \<and> P T \<and>
     loop_seq L T R = xs \<and> same_but (set xs) t0 t \<and>
     (\<forall>y\<in>set (lseq L). cmp (key_of t0 y) k < 0) \<and> (\<forall>y\<in>set (rseq R). cmp k (key_of t0 y) < 0))"

lemma same_but_keys: "same_but A t t' \<Longrightarrow> keys t' = keys t"
  by (simp add: same_but_def)

lemma splay_body_step:
  assumes inv: "splay_inv cmp k t0 xs (\<lambda>T. size T = n) s"
    and asc: "ascending cmp (key_of t0) xs" and x: "keys t0 x = Some k"
  shows "\<exists>s' leave. splay_body cmp x s = Inr (s', leave) \<and>
    (if leave then splay_inv cmp k t0 xs (parted cmp (key_of t0) k) s'
     else \<exists>n'<n. splay_inv cmp k t0 xs (\<lambda>T. size T = n') s')"
proof -
  obtain t v where s: "s = (t, v)" by force
  with inv obtain L T R where rep: "loop_rep (t, v) L T R" and ne: "T \<noteq> Leaf" and n: "size T = n"
    and seq: "loop_seq L T R = xs" and same: "same_but (set xs) t0 t"
    and L: "\<forall>y\<in>set (lseq L). cmp (key_of t0 y) k < 0" and R: "\<forall>y\<in>set (rseq R). cmp k (key_of t0 y) < 0"
    by (auto simp: splay_inv_def)
  from ne obtain l a r where T: "T = Node l a r" by (cases T) auto
  have ascT: "ascending cmp (key_of t0) (inorder T)"
    using asc seq by (auto simp: loop_seq_def ascending_append)
  have st: "stree (spl_cells t) (sph_root t) T" using rep by (simp add: loop_rep_def)
  have keys: "keys t = keys t0" by (rule same_but_keys [OF same])
  have at: "cmp_at cmp t x b = Inr (cmp k (key_of t0 b))" if "b \<in> set (inorder T)" for b
    using cmp_at_ok [of t x k b] stree_keys [OF st that] x by (simp add: keys)
  have root: "sph_root t = a" using st T by auto
  have key0: "cmp_at cmp t x (sph_root t) = Inr (cmp k (key_of t0 a))" using at root T by simp
  consider "cmp k (key_of t0 a) = 0" | "cmp k (key_of t0 a) < 0" | "0 < cmp k (key_of t0 a)" by linarith
  then show ?thesis
  proof cases
    case 1
    have "parted cmp (key_of t0) k T" using parted_eq [OF ascT [unfolded T] 1] T by simp
    with 1 key0 s rep ne seq same L R show ?thesis
      by (auto simp: splay_body_def splay_inv_def)
  next
    case 2
    obtain T' R' leave where turn: "left_turn (\<lambda>b. cmp k (key_of t0 b) < 0) T R = (T', R', leave)"
      by (metis prod_cases3)
    from turn_left_rep [OF rep ne _ turn, of "\<lambda>t tmp. bindE (cmp_at cmp t x tmp) (\<lambda>c. Inr (c < 0))"] at
    obtain t' v' where t': "splay_body cmp x (t, v) = Inr ((t', v'), leave)"
        "loop_rep (t', v') L T' R'" "same_but (set (loop_seq L T R)) t t'"
      using 2 key0 by (auto simp: splay_body_def)
    have same': "same_but (set xs) t0 t'" using same t'(3) seq same_but_trans by blast
    note order = left_turn_order [OF ascT [unfolded T] 2 R turn [unfolded T]]
    note seq' = left_turn_seq [OF turn, of L]
    show ?thesis
      using t' same' order seq' seq ne L s n by (auto simp: splay_inv_def)
  next
    case 3
    obtain T' L' leave where turn: "right_turn (\<lambda>b. 0 < cmp k (key_of t0 b)) T L = (T', L', leave)"
      by (metis prod_cases3)
    from turn_right_rep [OF rep ne _ turn, of "\<lambda>t tmp. bindE (cmp_at cmp t x tmp) (\<lambda>c. Inr (0 < c))"] at
    obtain t' v' where t': "splay_body cmp x (t, v) = Inr ((t', v'), leave)"
        "loop_rep (t', v') L' T' R" "same_but (set (loop_seq L T R)) t t'"
      using 3 key0 by (auto simp: splay_body_def)
    have same': "same_but (set xs) t0 t'" using same t'(3) seq same_but_trans by blast
    note order = right_turn_order [OF ascT [unfolded T] 3 L turn [unfolded T]]
    note seq' = right_turn_seq [OF turn, of R]
    show ?thesis
      using t' same' order seq' seq ne R s n by (auto simp: splay_inv_def)
  qed
qed

lemma loop_rep_init:
  "stree (spl_cells t) (sph_root t) T \<Longrightarrow> distinct (inorder T) \<Longrightarrow> loop_rep (t, init_locals) [] T []"
  by (simp add: loop_rep_def init_locals_def loop_seq_def)

lemma SPLAY_ok:
  assumes T: "stree (spl_cells t) (sph_root t) T" "T \<noteq> Leaf"
    and asc: "ascending cmp (key_of t) (inorder T)" and x: "keys t x = Some k"
  shows "\<exists>t' l a r. SPLAY cmp x t = Some (Inr t') \<and> stree (spl_cells t') (sph_root t') (Node l a r) \<and>
    inorder l @ a # inorder r = inorder T \<and> parted cmp (key_of t) k (Node l a r) \<and> same_but (set (inorder T)) t t'"
proof -
  let ?I = "splay_inv cmp k t (inorder T)"
  have init: "?I (\<lambda>S. size S = size T) (t, init_locals)"
    unfolding splay_inv_def prod.case
    using loop_rep_init [OF T(1) ascending_distinct [OF asc]] T(2)
    by (intro exI [of _ "[]"] exI [of _ T]) (simp add: loop_seq_def)
  have step: "\<exists>s' leave. Some (splay_body cmp x s) = Some (Inr (s', leave)) \<and>
      (if leave then ?I (parted cmp (key_of t) k) s' else \<exists>n'<n. ?I (\<lambda>S. size S = n') s')"
    if "?I (\<lambda>S. size S = n) s" for n s
    using splay_body_step [OF that asc x] by (simp only: option.inject)
  from c_loop_rule [where I = "\<lambda>n. ?I (\<lambda>S. size S = n)" and body = "\<lambda>s. Some (splay_body cmp x s)"
      and Q = "?I (parted cmp (key_of t) k)", OF step init] obtain s where
    s: "c_loop (\<lambda>s. Some (splay_body cmp x s)) (t, init_locals) = Some (Inr s)"
      "?I (parted cmp (key_of t) k) s" by blast
  obtain t1 v where t1: "s = (t1, v)" by force
  with s(2) obtain L S R where
    rep: "loop_rep (t1, v) L S R" "S \<noteq> Leaf" "parted cmp (key_of t) k S" "loop_seq L S R = inorder T"
      "same_but (set (inorder T)) t t1" "\<forall>y\<in>set (lseq L). cmp (key_of t y) k < 0"
      "\<forall>y\<in>set (rseq R). cmp k (key_of t y) < 0"
    by (auto simp: splay_inv_def)
  then obtain l a r where S: "S = Node l a r" by (cases S) auto
  with rep(1) loop_rep_assemble obtain t' where
    t': "SPLAY_ASSEMBLE (t1, v) = Inr t'" "stree (spl_cells t') (sph_root t') (Node (lbuild L l) a (rbuild R r))"
      "same_but (set (lseq L @ a # rseq R)) t1 t'" by blast
  have "same_but (set (inorder T)) t t'"
    using rep(5) t'(3) S rep(4) [symmetric]
    by (auto intro!: same_but_trans [of _ t t1 t'] simp: loop_seq_def elim: same_but_mono)
  moreover have "inorder (lbuild L l) @ a # inorder (rbuild R r) = inorder T"
    using rep(4) S by (simp add: loop_seq_def)
  moreover have "parted cmp (key_of t) k (Node (lbuild L l) a (rbuild R r))"
    using rep(3,6,7) S by auto
  moreover have "SPLAY cmp x t = Some (Inr t')" using s(1) t1 t'(1) by (simp add: SPLAY_def)
  ultimately show ?thesis using t'(2) by blast
qed

text \<open>The contents of a tree.\<close>

definition splay_rel :: "('k \<Rightarrow> 'k \<Rightarrow> int) \<Rightarrow> 'k splay \<Rightarrow> nat list \<Rightarrow> bool" where
  "splay_rel cmp t xs \<longleftrightarrow> ascending cmp (key_of t) xs \<and>
     (\<exists>T. stree (spl_cells t) (sph_root t) T \<and> inorder T = xs)"

lemma splay_relI:
  "ascending cmp (key_of t) xs \<Longrightarrow> stree (spl_cells t) (sph_root t) T \<Longrightarrow> inorder T = xs \<Longrightarrow> splay_rel cmp t xs"
  by (auto simp: splay_rel_def)

lemma SPLAY_EMPTY_rel: "splay_rel cmp t xs \<Longrightarrow> SPLAY_EMPTY t \<longleftrightarrow> xs = []"
proof -
  assume "splay_rel cmp t xs"
  then obtain T where "stree (spl_cells t) (sph_root t) T" "inorder T = xs" by (auto simp: splay_rel_def)
  then show ?thesis by (cases T) (auto simp: SPLAY_EMPTY_def)
qed

lemma SPLAY_rel:
  assumes rel: "splay_rel cmp t xs" and ne: "xs \<noteq> []" and x: "keys t x = Some k"
  obtains t' l a r where "SPLAY cmp x t = Some (Inr t')"
    "stree (spl_cells t') (sph_root t') (Node l a r)" "xs = inorder l @ a # inorder r"
    "parted cmp (key_of t) k (Node l a r)" "same_but (set xs) t t'" "keys t' = keys t" "sph_root t' = a"
    "keys t a = Some (key_of t a)"
proof -
  from rel obtain T where T: "stree (spl_cells t) (sph_root t) T" "inorder T = xs"
    and asc: "ascending cmp (key_of t) xs" by (auto simp: splay_rel_def)
  from T ne have "T \<noteq> Leaf" by auto
  from SPLAY_ok [OF T(1) this _ x, of cmp] asc obtain t' l a r where
    t': "SPLAY cmp x t = Some (Inr t')" "stree (spl_cells t') (sph_root t') (Node l a r)"
    "inorder l @ a # inorder r = xs" "parted cmp (key_of t) k (Node l a r)" "same_but (set xs) t t'"
    unfolding T(2) by blast
  moreover have "keys t a = Some (key_of t a)" using t'(3) stree_keys [OF T(1), of a] T(2) by auto
  ultimately show ?thesis using that [of t' l a r] same_but_keys by (metis stree.simps(2))
qed

section \<open>The operations of a client on the contents\<close>

lemma splay_found:
  assumes "ascending cmp key (inorder l @ a # inorder r)" "parted cmp key k (Node l a r)"
  shows "(\<exists>y\<in>set (inorder l @ a # inorder r). cmp k (key y) = 0) \<longleftrightarrow> cmp k (key a) = 0"
proof
  have ok: "cmp_ok cmp" using assms(1) by auto
  assume "\<exists>y\<in>set (inorder l @ a # inorder r). cmp k (key y) = 0"
  then obtain y where y: "y \<in> set (inorder l @ a # inorder r)" "cmp k (key y) = 0" by blast
  then have "cmp (key y) k = 0" using cmp_zero_flip [OF ok, of k "key y"] by simp
  with y assms(2) show "cmp k (key a) = 0" by auto
qed auto

lemma SPLAY_FIND_ok:
  assumes rel: "splay_rel cmp t xs" and x: "keys t x = Some k"
  shows "\<exists>t'. SPLAY_FIND cmp x t = Some (Inr (find_asc cmp (key_of t) x xs, t')) \<and> splay_rel cmp t' xs \<and>
    keys t' = keys t"
proof (cases "xs = []")
  case True
  with rel show ?thesis by (simp add: SPLAY_FIND_def SPLAY_EMPTY_rel [OF rel] find_asc_def)
next
  case False
  have asc: "ascending cmp (key_of t) xs" using rel by (simp add: splay_rel_def)
  from SPLAY_rel [OF rel False x] obtain t' l a r where
    t': "SPLAY cmp x t = Some (Inr t')" "stree (spl_cells t') (sph_root t') (Node l a r)"
      "xs = inorder l @ a # inorder r" "parted cmp (key_of t) k (Node l a r)" "keys t' = keys t" "sph_root t' = a"
      "keys t a = Some (key_of t a)" by metis
  have at: "cmp_at cmp t' x (sph_root t') = Inr (cmp k (key_of t a))"
    using t'(5-7) x by (simp add: cmp_at_ok [of t' x k a "key_of t a"])
  have k: "key_of t x = k" using x by simp
  have "find_asc cmp (key_of t) x xs = (if cmp k (key_of t a) = 0 then a else 0)"
    using find_asc_present [of cmp "key_of t" "inorder l" a "inorder r" x] find_asc_absent [of xs cmp "key_of t" x]
      splay_found [OF asc [unfolded t'(3)] t'(4)] asc t'(3) k by auto
  then have "SPLAY_FIND cmp x t = Some (Inr (find_asc cmp (key_of t) x xs, t'))"
    using t'(1,6) at False by (simp add: SPLAY_FIND_def SPLAY_EMPTY_rel [OF rel])
  moreover have "splay_rel cmp t' xs"
    using asc t'(2,3,5) by (intro splay_relI [of _ _ _ "Node l a r"]) simp_all
  ultimately show ?thesis using t'(5) by blast
qed

text \<open>The new element becomes the root, above the old one.\<close>

lemma insert_left_of_root:
  assumes "stree (spl_cells t) (sph_root t) (Node l a r)" "spl_cells t x = Some e" "x \<noteq> 0"
    and "x \<notin> set (inorder l @ a # inorder r)" "distinct (inorder l @ a # inorder r)"
  shows "\<exists>t'. bindE (SPLAY_LEFT t (sph_root t)) (\<lambda>l. bindE (set_left t x l) (\<lambda>t.
      bindE (set_right t x (sph_root t)) (\<lambda>t. bindE (set_left t (sph_root t) 0) (\<lambda>t. Inr (t\<lparr>sph_root := x\<rparr>))))) = Inr t' \<and>
    stree (spl_cells t') (sph_root t') (Node l x (Node Leaf a r)) \<and> keys t' = keys t"
  using assms by (auto simp: splay_access keys_def fun_eq_iff)

lemma insert_right_of_root:
  assumes "stree (spl_cells t) (sph_root t) (Node l a r)" "spl_cells t x = Some e" "x \<noteq> 0"
    and "x \<notin> set (inorder l @ a # inorder r)" "distinct (inorder l @ a # inorder r)"
  shows "\<exists>t'. bindE (SPLAY_RIGHT t (sph_root t)) (\<lambda>r. bindE (set_right t x r) (\<lambda>t.
      bindE (set_left t x (sph_root t)) (\<lambda>t. bindE (set_right t (sph_root t) 0) (\<lambda>t. Inr (t\<lparr>sph_root := x\<rparr>))))) = Inr t' \<and>
    stree (spl_cells t') (sph_root t') (Node (Node l a Leaf) x r) \<and> keys t' = keys t"
  using assms by (auto simp: splay_access keys_def fun_eq_iff)

lemma insert_asc_parted:
  assumes "ascending cmp key (inorder l @ a # inorder r)" "parted cmp key (key x) (Node l a r)"
  shows "insert_asc cmp key x (inorder l @ a # inorder r) =
    (if cmp (key x) (key a) < 0 then inorder l @ x # a # inorder r
     else if 0 < cmp (key x) (key a) then inorder l @ a # x # inorder r
     else inorder l @ a # inorder r)"
proof -
  have ok: "cmp_ok cmp" using assms(1) by auto
  consider "cmp (key x) (key a) = 0" | "cmp (key x) (key a) < 0" | "0 < cmp (key x) (key a)" by linarith
  then show ?thesis
  proof cases
    case 1
    then show ?thesis using insert_asc_present [of a "inorder l @ a # inorder r" cmp key x] by simp
  next
    case 2
    with assms(2) show ?thesis using insert_asc_between [OF ok, of "inorder l" key x "a # inorder r"] by auto
  next
    case 3
    then have "cmp (key a) (key x) < 0" by (simp add: cmp_flip [OF ok])
    with 3 assms(2) show ?thesis using insert_asc_between [OF ok, of "inorder l @ [a]" key x "inorder r"] by auto
  qed
qed

lemma SPLAY_INSERT_ok:
  assumes rel: "splay_rel cmp t xs" and x: "keys t x = Some k" "x \<noteq> 0" "x \<notin> set xs"
  shows "\<exists>t'. SPLAY_INSERT cmp x t = Some (Inr t') \<and> splay_rel cmp t' (insert_asc cmp (key_of t) x xs) \<and>
    keys t' = keys t"
proof (cases "xs = []")
  case True
  from x obtain e where e: "spl_cells t x = Some e" by (auto simp: keys_def)
  have "cmp_ok cmp" using rel by (auto simp: splay_rel_def)
  with True rel e x(2) show ?thesis
    by (auto simp: SPLAY_INSERT_def SPLAY_EMPTY_rel [OF rel] splay_access insert_asc_def splay_rel_def keys_def
        fun_eq_iff ascending_Cons intro!: exI [of _ "Node Leaf x Leaf"])
next
  case False
  have asc: "ascending cmp (key_of t) xs" using rel by (simp add: splay_rel_def)
  from SPLAY_rel [OF rel False x(1)] obtain t' l a r where
    t': "SPLAY cmp x t = Some (Inr t')" "stree (spl_cells t') (sph_root t') (Node l a r)"
      "xs = inorder l @ a # inorder r" "parted cmp (key_of t) k (Node l a r)" "keys t' = keys t" "sph_root t' = a"
      "keys t a = Some (key_of t a)" by metis
  have k: "k = key_of t x" using x by simp
  have at: "cmp_at cmp t' x (sph_root t') = Inr (cmp k (key_of t a))"
    using t'(5-7) x by (simp add: cmp_at_ok [of t' x k a "key_of t a"])
  have "keys t' x = Some k" using x(1) t'(5) by simp
  then obtain e where e: "spl_cells t' x = Some e" by (auto simp: keys_def)
  note new = x(3) [unfolded t'(3)] and dist = ascending_distinct [OF asc, unfolded t'(3)]
  note ins = insert_asc_parted [OF asc [unfolded t'(3)] t'(4) [unfolded k], folded t'(3)]
  have asc': "ascending cmp (key_of t) (insert_asc cmp (key_of t) x xs)" by (rule ascending_insert_asc [OF asc])
  note start = SPLAY_INSERT_def SPLAY_EMPTY_rel [OF rel] False t'(1) at ins
  consider "cmp k (key_of t a) = 0" | "cmp k (key_of t a) < 0" | "0 < cmp k (key_of t a)" by linarith
  then show ?thesis
  proof cases
    case 1
    with t'(2,5) asc k have "splay_rel cmp t' (insert_asc cmp (key_of t) x xs)"
      by (intro splay_relI [of _ _ _ "Node l a r"]) (simp_all add: ins t'(3) [symmetric])
    with 1 t'(5) k show ?thesis by (simp add: start)
  next
    case 2
    from insert_left_of_root [OF t'(2) e x(2) new dist] obtain t2 where
      t2: "bindE (SPLAY_LEFT t' (sph_root t')) (\<lambda>l. bindE (set_left t' x l) (\<lambda>t.
      bindE (set_right t x (sph_root t)) (\<lambda>t. bindE (set_left t (sph_root t) 0) (\<lambda>t. Inr (t\<lparr>sph_root := x\<rparr>))))) = Inr t2"
      "stree (spl_cells t2) (sph_root t2) (Node l x (Node Leaf a r))" "keys t2 = keys t'" by blast
    with 2 t'(5) asc' k have "splay_rel cmp t2 (insert_asc cmp (key_of t) x xs)"
      by (intro splay_relI [of _ _ _ "Node l x (Node Leaf a r)"]) (simp_all add: ins)
    with 2 t2(1,3) t'(5) show ?thesis by (simp add: start)
  next
    case 3
    from insert_right_of_root [OF t'(2) e x(2) new dist] obtain t2 where
      t2: "bindE (SPLAY_RIGHT t' (sph_root t')) (\<lambda>r. bindE (set_right t' x r) (\<lambda>t.
      bindE (set_left t x (sph_root t)) (\<lambda>t. bindE (set_right t (sph_root t) 0) (\<lambda>t. Inr (t\<lparr>sph_root := x\<rparr>))))) = Inr t2"
      "stree (spl_cells t2) (sph_root t2) (Node (Node l a Leaf) x r)" "keys t2 = keys t'" by blast
    with 3 t'(5) asc' k have "splay_rel cmp t2 (insert_asc cmp (key_of t) x xs)"
      by (intro splay_relI [of _ _ _ "Node (Node l a Leaf) x r"]) (simp_all add: ins)
    with 3 t2(1,3) t'(5) show ?thesis by (simp add: start)
  qed
qed

lemma parted_filter:
  assumes ok: "cmp_ok cmp" and "parted cmp key k (Node l a r)"
  shows "filter (\<lambda>y. cmp k (key y) \<noteq> 0) (inorder l @ a # inorder r) =
    (if cmp k (key a) = 0 then inorder l @ inorder r else inorder l @ a # inorder r)"
proof -
  have "cmp k (key y) \<noteq> 0" if "y \<in> set (inorder l) \<or> y \<in> set (inorder r)" for y
    using assms(2) that cmp_flip [OF ok, of k "key y"] by auto
  then have "filter (\<lambda>y. cmp k (key y) \<noteq> 0) (inorder l) = inorder l"
    "filter (\<lambda>y. cmp k (key y) \<noteq> 0) (inorder r) = inorder r"
    by (auto simp: filter_id_conv)
  then show ?thesis by simp
qed

lemma set_right_joins:
  assumes "stree (spl_cells t) (sph_root t) (Node l b Leaf)" "stree (spl_cells t) p r"
    and "b \<notin> set (inorder l)" "b \<notin> set (inorder r)"
  shows "\<exists>t'. set_right t (sph_root t) p = Inr t' \<and> stree (spl_cells t') (sph_root t') (Node l b r) \<and> keys t' = keys t"
  using assms by (auto simp: splay_access keys_def fun_eq_iff)

text \<open>Splaying the left subtree for a key above all of it brings its greatest element to the root.\<close>

lemma SPLAY_left_part:
  assumes T: "stree (spl_cells t) (sph_root t) l" "stree (spl_cells t) p r" "l \<noteq> Leaf"
    and asc: "ascending cmp (key_of t) (inorder l @ inorder r)" and x: "keys t x = Some k"
    and below: "\<forall>y\<in>set (inorder l). cmp (key_of t y) k < 0"
  shows "\<exists>t'. bindR (SPLAY cmp x t) (\<lambda>t. Some (set_right t (sph_root t) p)) = Some (Inr t') \<and>
    splay_rel cmp t' (inorder l @ inorder r) \<and> keys t' = keys t"
proof -
  have ok: "cmp_ok cmp" and ascl: "ascending cmp (key_of t) (inorder l)" using asc by (auto simp: ascending_append)
  from SPLAY_ok [OF T(1,3) ascl x] obtain t1 l1 b r1 where
    t1: "SPLAY cmp x t = Some (Inr t1)" "stree (spl_cells t1) (sph_root t1) (Node l1 b r1)"
      "inorder l1 @ b # inorder r1 = inorder l" "parted cmp (key_of t) k (Node l1 b r1)" "same_but (set (inorder l)) t t1"
    by blast
  have mem: "set (inorder l) = set (inorder l1) \<union> {b} \<union> set (inorder r1)" by (simp flip: t1(3))
  have r1: "r1 = Leaf"
  proof (rule ccontr)
    assume "r1 \<noteq> Leaf"
    then obtain y where "y \<in> set (inorder r1)" by (cases r1) auto
    then have "cmp k (key_of t y) < 0" "cmp (key_of t y) k < 0" using t1(4) below mem by auto
    then show False using cmp_flip [OF ok, of k "key_of t y"] by simp
  qed
  have dist: "distinct (inorder l @ inorder r)" by (rule ascending_distinct [OF asc])
  then have "stree (spl_cells t1) p r"
    using T(2) t1(5) by (subst stree_cong [of r "spl_cells t1" "spl_cells t"]) (auto simp: same_but_def)
  moreover have "b \<notin> set (inorder l1)" "b \<notin> set (inorder r)" using dist t1(3) [symmetric] by auto
  ultimately obtain t2 where t2: "set_right t1 (sph_root t1) p = Inr t2"
      "stree (spl_cells t2) (sph_root t2) (Node l1 b r)" "keys t2 = keys t1"
    using set_right_joins [of t1 l1 b p r] t1(2) r1 by blast
  have keys: "keys t2 = keys t" using t2(3) same_but_keys [OF t1(5)] by simp
  moreover have "splay_rel cmp t2 (inorder l @ inorder r)"
    using asc t2(2) t1(3) r1 keys by (intro splay_relI [of _ _ _ "Node l1 b r"]) (simp_all flip: t1(3))
  ultimately show ?thesis using t1(1) t2(1) by simp
qed

lemma SPLAY_REMOVE_ok:
  assumes rel: "splay_rel cmp t xs" and x: "keys t x = Some k"
  shows "\<exists>t'. SPLAY_REMOVE cmp x t = Some (Inr t') \<and>
    splay_rel cmp t' (filter (\<lambda>y. cmp k (key_of t y) \<noteq> 0) xs) \<and> keys t' = keys t"
proof (cases "xs = []")
  case True
  with rel show ?thesis by (simp add: SPLAY_REMOVE_def SPLAY_EMPTY_rel [OF rel])
next
  case False
  have asc: "ascending cmp (key_of t) xs" using rel by (simp add: splay_rel_def)
  from SPLAY_rel [OF rel False x] obtain t' l a r where
    t': "SPLAY cmp x t = Some (Inr t')" "stree (spl_cells t') (sph_root t') (Node l a r)"
      "xs = inorder l @ a # inorder r" "parted cmp (key_of t) k (Node l a r)" "keys t' = keys t" "sph_root t' = a"
      "keys t a = Some (key_of t a)" by metis
  have at: "cmp_at cmp t' x (sph_root t') = Inr (cmp k (key_of t a))"
    using t'(5-7) x by (simp add: cmp_at_ok [of t' x k a "key_of t a"])
  note filt = parted_filter [OF ascending_cmp_ok [OF asc] t'(4), folded t'(3)]
  note start = SPLAY_REMOVE_def SPLAY_EMPTY_rel [OF rel] False t'(1) at at [unfolded t'(6)] filt
  show ?thesis
  proof (cases "cmp k (key_of t a) = 0")
    case False
    with t'(2,3,5) asc have "splay_rel cmp t' xs" by (intro splay_relI [of _ _ _ "Node l a r"]) simp_all
    with False t'(5) show ?thesis by (simp add: start)
  next
    case True
    from t'(2,6) obtain e where e: "spl_cells t' a = Some e" "stree (spl_cells t') (spe_left e) l"
      "stree (spl_cells t') (spe_right e) r" by auto
    have asc': "ascending cmp (key_of t) (inorder l @ inorder r)" using asc t'(3) by (auto simp: ascending_simps)
    show ?thesis
    proof (cases "l = Leaf")
      case leaf: True
      with e asc' t'(5) have "splay_rel cmp (t'\<lparr>sph_root := spe_right e\<rparr>) (inorder l @ inorder r)"
        by (intro splay_relI [of _ _ _ r]) simp_all
      with leaf True e t'(5,6) show ?thesis by (simp add: start splay_access)
    next
      case False
      then have "spe_left e \<noteq> 0" using e(2) by (cases l) auto
      moreover obtain t2 where "bindR (SPLAY cmp x (t'\<lparr>sph_root := spe_left e\<rparr>))
          (\<lambda>t. Some (set_right t (sph_root t) (spe_right e))) = Some (Inr t2)"
        "splay_rel cmp t2 (inorder l @ inorder r)" "keys t2 = keys t"
        using SPLAY_left_part [of "t'\<lparr>sph_root := spe_left e\<rparr>" l "spe_right e" r cmp x k]
          e False asc' x t'(4,5) by auto
      ultimately show ?thesis using True e t'(6) by (simp add: start splay_access)
    qed
  qed
qed

lemma leftmost_ok:
  "stree (spl_cells t) p T \<Longrightarrow> T \<noteq> Leaf \<Longrightarrow> c_loop (\<lambda>p. Some (leftmost_body t p)) p = Some (Inr (hd (inorder T)))"
proof (induction T arbitrary: p)
  case (Node l a r)
  then obtain e where e: "p = a" "spl_cells t a = Some e" "stree (spl_cells t) (spe_left e) l" by auto
  show ?case
  proof (cases "l = Leaf")
    case True
    with e show ?thesis by (simp add: c_loop.simps [of _ a] leftmost_body_def SPLAY_LEFT_ok)
  next
    case False
    then have "spe_left e \<noteq> 0" "inorder l \<noteq> []" using e(3) by (cases l; auto)+
    with e Node.IH(1) [OF e(3) False] show ?thesis
      by (simp add: c_loop.simps [of _ a] leftmost_body_def SPLAY_LEFT_ok)
  qed
qed simp

lemma SPLAY_NEXT_ok:
  assumes rel: "splay_rel cmp t xs" and x: "x \<in> set xs"
  shows "\<exists>t'. SPLAY_NEXT cmp x t = Some (Inr (next_in x xs, t')) \<and> splay_rel cmp t' xs \<and> keys t' = keys t"
proof -
  have asc: "ascending cmp (key_of t) xs" using rel by (simp add: splay_rel_def)
  then have ok: "cmp_ok cmp" by auto
  have ne: "xs \<noteq> []" using x by auto
  have k: "keys t x = Some (key_of t x)" using rel x stree_keys by (fastforce simp: splay_rel_def)
  from SPLAY_rel [OF rel ne k] obtain t' l a r where
    t': "SPLAY cmp x t = Some (Inr t')" "stree (spl_cells t') (sph_root t') (Node l a r)"
      "xs = inorder l @ a # inorder r" "parted cmp (key_of t) (key_of t x) (Node l a r)" "keys t' = keys t" by metis
  have a: "a = x" using x t'(3,4) cmp_refl [OF ok, of "key_of t x"] by auto
  have "splay_rel cmp t' xs" using asc t'(2,3,5) by (intro splay_relI [of _ _ _ "Node l a r"]) simp_all
  moreover have "next_in x xs = (if r = Leaf then 0 else hd (inorder r))"
    using ascending_distinct [OF asc] t'(3) a by (cases r) auto
  moreover from t'(2) a obtain e where e: "spl_cells t' x = Some e" "stree (spl_cells t') (spe_right e) r" by auto
  moreover have "spe_right e = 0 \<longleftrightarrow> r = Leaf" using e(2) by (cases r) auto
  ultimately show ?thesis
    using t'(1,5) leftmost_ok [OF e(2)] by (auto simp: SPLAY_NEXT_def SPLAY_RIGHT_ok)
qed

section \<open>Least and greatest element, and the loop over a tree\<close>

lemma minmax_seq:
  "left_turn (\<lambda>b. True) T R = (T', R', True) \<Longrightarrow> T \<noteq> Leaf \<Longrightarrow> \<exists>a r. T' = Node Leaf a r"
  "right_turn (\<lambda>b. True) T L = (T', L', True) \<Longrightarrow> T \<noteq> Leaf \<Longrightarrow> \<exists>l a. T' = Node l a Leaf"
  by (induction "\<lambda>b::nat. True" T R rule: left_turn.induct; auto split: if_splits)
    (induction "\<lambda>b::nat. True" T L rule: right_turn.induct; auto split: if_splits)

definition minmax_inv :: "'k splay \<Rightarrow> nat list \<Rightarrow> (((nat \<times> nat tree) list \<Rightarrow> nat tree \<Rightarrow> (nat \<times> nat tree) list \<Rightarrow> bool)) \<Rightarrow>
    'k splay \<times> splay_locals \<Rightarrow> bool" where
  "minmax_inv t0 xs P = (\<lambda>(t, v). \<exists>L T R. loop_rep (t, v) L T R \<and> T \<noteq> Leaf \<and> P L T R \<and>
     loop_seq L T R = xs \<and> same_but (set xs) t0 t)"

lemma minmax_body_step:
  assumes inv: "minmax_inv t0 xs (\<lambda>L T R. (if dir < 0 then L = [] else R = []) \<and> size T = n) s" and dir: "dir \<noteq> 0"
  shows "\<exists>s' leave. minmax_body dir s = Inr (s', leave) \<and>
    (if leave then minmax_inv t0 xs (\<lambda>L T R. if dir < 0 then L = [] \<and> (\<exists>a r. T = Node Leaf a r)
        else R = [] \<and> (\<exists>l a. T = Node l a Leaf)) s'
     else \<exists>n'<n. minmax_inv t0 xs (\<lambda>L T R. (if dir < 0 then L = [] else R = []) \<and> size T = n') s')"
proof -
  obtain t v where s: "s = (t, v)" by force
  with inv obtain L T R where rep: "loop_rep (t, v) L T R" and ne: "T \<noteq> Leaf" and n: "size T = n"
    and side: "if dir < 0 then L = [] else R = []" and seq: "loop_seq L T R = xs" and same: "same_but (set xs) t0 t"
    by (auto simp: minmax_inv_def)
  show ?thesis
  proof (cases "dir < 0")
    case True
    obtain T' R' leave where turn: "left_turn (\<lambda>b. True) T R = (T', R', leave)" by (metis prod_cases3)
    from turn_left_rep [OF rep ne _ turn, of "\<lambda>_ _. Inr (dir < 0)"] True obtain t' v' where
      t': "minmax_body dir (t, v) = Inr ((t', v'), leave)" "loop_rep (t', v') L T' R'" "same_but (set (loop_seq L T R)) t t'"
      by (auto simp: minmax_body_def)
    have same': "same_but (set xs) t0 t'" using same t'(3) seq same_but_trans by blast
    show ?thesis
      using t' same' left_turn_seq [OF turn, of L] minmax_seq(1) [of T R T' R'] turn True side seq ne n s
      by (cases leave) (auto simp: minmax_inv_def)
  next
    case False
    obtain T' L' leave where turn: "right_turn (\<lambda>b. True) T L = (T', L', leave)" by (metis prod_cases3)
    from turn_right_rep [OF rep ne _ turn, of "\<lambda>_ _. Inr (0 < dir)"] False dir obtain t' v' where
      t': "minmax_body dir (t, v) = Inr ((t', v'), leave)" "loop_rep (t', v') L' T' R" "same_but (set (loop_seq L T R)) t t'"
      by (auto simp: minmax_body_def)
    have same': "same_but (set xs) t0 t'" using same t'(3) seq same_but_trans by blast
    show ?thesis
      using t' same' right_turn_seq [OF turn, of R] minmax_seq(2) [of T L T' L'] turn False side seq ne n s
      by (cases leave) (auto simp: minmax_inv_def)
  qed
qed

lemma SPLAY_MINMAX_ok:
  assumes rel: "splay_rel cmp t xs" and ne: "xs \<noteq> []" and dir: "dir \<noteq> 0"
  shows "\<exists>t'. SPLAY_MINMAX dir t = Some (Inr t') \<and> splay_rel cmp t' xs \<and> keys t' = keys t \<and>
    sph_root t' = (if dir < 0 then hd xs else last xs)"
proof -
  from rel obtain T where T: "stree (spl_cells t) (sph_root t) T" "inorder T = xs"
    and asc: "ascending cmp (key_of t) xs" by (auto simp: splay_rel_def)
  let ?I = "\<lambda>n. minmax_inv t xs (\<lambda>L T R. (if dir < 0 then L = [] else R = []) \<and> size T = n)"
  let ?Q = "minmax_inv t xs (\<lambda>L T R. if dir < 0 then L = [] \<and> (\<exists>a r. T = Node Leaf a r) else R = [] \<and> (\<exists>l a. T = Node l a Leaf))"
  have init: "?I (size T) (t, init_locals)"
    unfolding minmax_inv_def prod.case
    using loop_rep_init [OF T(1)] ascending_distinct [OF asc] T(2) ne
    by (intro exI [of _ "[]"] exI [of _ T]) (auto simp: loop_seq_def)
  have step: "\<exists>s' leave. Some (minmax_body dir s) = Some (Inr (s', leave)) \<and>
      (if leave then ?Q s' else \<exists>n'<n. ?I n' s')" if "?I n s" for n s
    using minmax_body_step [OF that dir] by (simp only: option.inject)
  from c_loop_rule [where I = ?I and body = "\<lambda>s. Some (minmax_body dir s)" and Q = ?Q, OF step init]
  obtain t1 v where t1: "c_loop (\<lambda>s. Some (minmax_body dir s)) (t, init_locals) = Some (Inr (t1, v))" "?Q (t1, v)"
    by fastforce
  then obtain L S R where
    rep: "loop_rep (t1, v) L S R" "loop_seq L S R = xs" "same_but (set xs) t t1" "S \<noteq> Leaf"
      "if dir < 0 then L = [] \<and> (\<exists>a r. S = Node Leaf a r) else R = [] \<and> (\<exists>l a. S = Node l a Leaf)"
    by (auto simp: minmax_inv_def)
  then obtain l a r where S: "S = Node l a r" by (cases S) auto
  with rep(1) loop_rep_assemble obtain t' where
    t': "SPLAY_ASSEMBLE (t1, v) = Inr t'" "stree (spl_cells t') (sph_root t') (Node (lbuild L l) a (rbuild R r))"
      "same_but (set (lseq L @ a # rseq R)) t1 t'" by blast
  have keys: "keys t' = keys t" using same_but_keys [OF rep(3)] same_but_keys [OF t'(3)] by simp
  have ord: "inorder (Node (lbuild L l) a (rbuild R r)) = xs" using rep(2) S by (simp add: loop_seq_def)
  have "splay_rel cmp t' xs" using asc keys by (intro splay_relI [OF _ t'(2) ord]) simp
  moreover have "sph_root t' = (if dir < 0 then hd xs else last xs)"
    using t'(2) rep(2,5) S by (auto simp: loop_seq_def split: if_splits)
  ultimately show ?thesis using t1(1) t'(1) keys by (simp add: SPLAY_MINMAX_def)
qed

lemma SPLAY_MINMAX_zero_hangs: "SPLAY_MINMAX 0 t = None"
  unfolding SPLAY_MINMAX_def
  by (subst c_loop_diverges [where I = "\<lambda>s. True"]) (simp_all add: minmax_body_def)

lemma SPLAY_MIN_ok:
  assumes rel: "splay_rel cmp t xs"
  shows "\<exists>t'. SPLAY_MIN t = Some (Inr (if xs = [] then 0 else hd xs, t')) \<and> splay_rel cmp t' xs \<and> keys t' = keys t"
proof (cases "xs = []")
  case True
  then show ?thesis using rel by (simp add: SPLAY_MIN_def SPLAY_EMPTY_rel [OF rel])
next
  case False
  then show ?thesis using SPLAY_MINMAX_ok [OF rel False, of "SPLAY_NEGINF"]
    by (auto simp: SPLAY_MIN_def SPLAY_EMPTY_rel [OF rel] SPLAY_MIN_MAX_def SPLAY_ROOT_def SPLAY_NEGINF_def)
qed

lemma SPLAY_MAX_ok:
  assumes rel: "splay_rel cmp t xs"
  shows "\<exists>t'. SPLAY_MAX t = Some (Inr (if xs = [] then 0 else last xs, t')) \<and> splay_rel cmp t' xs \<and> keys t' = keys t"
proof (cases "xs = []")
  case True
  then show ?thesis using rel by (simp add: SPLAY_MAX_def SPLAY_EMPTY_rel [OF rel])
next
  case False
  then show ?thesis using SPLAY_MINMAX_ok [OF rel False, of "SPLAY_INF"]
    by (auto simp: SPLAY_MAX_def SPLAY_EMPTY_rel [OF rel] SPLAY_MIN_MAX_def SPLAY_ROOT_def SPLAY_INF_def)
qed

section \<open>The contract\<close>

lemma splay_rel_dom: "splay_rel cmp t xs \<Longrightarrow> x \<in> set xs \<Longrightarrow> x \<noteq> 0 \<and> keys t x \<noteq> None"
  using stree_keys stree_dom by (fastforce simp: splay_rel_def)

lemma SPLAY_REMOVE_member:
  assumes rel: "splay_rel cmp t xs" and x: "x \<in> set xs"
  shows "\<exists>t'. SPLAY_REMOVE cmp x t = Some (Inr t') \<and> splay_rel cmp t' (remove1 x xs) \<and> keys t' = keys t"
proof -
  have asc: "ascending cmp (key_of t) xs" using rel by (simp add: splay_rel_def)
  have "keys t x = Some (key_of t x)" using splay_rel_dom [OF rel x] by auto
  from SPLAY_REMOVE_ok [OF rel this] ascending_filter_remove1 [OF asc x] show ?thesis by metis
qed

interpretation splay_index: ordered_index "splay_rel cmp" keys cmp "SPLAY_INSERT cmp" "SPLAY_REMOVE cmp"
  "SPLAY_FIND cmp" SPLAY_MIN "SPLAY_NEXT cmp" for cmp :: "'k \<Rightarrow> 'k \<Rightarrow> int"
proof
  fix t :: "'k splay" and xs x
  assume rel: "splay_rel cmp t xs"
  show "ascending cmp (\<lambda>a. the (keys t a)) xs" using rel by (simp add: splay_rel_def)
  show "x \<noteq> 0 \<and> keys t x \<noteq> None" if "x \<in> set xs" using splay_rel_dom [OF rel that] .
  show "\<exists>t'. SPLAY_INSERT cmp x t = Some (Inr t') \<and> splay_rel cmp t' (insert_asc cmp (\<lambda>a. the (keys t a)) x xs) \<and> keys t' = keys t"
    if "x \<noteq> 0" "keys t x \<noteq> None" "x \<notin> set xs" using SPLAY_INSERT_ok [OF rel] that by auto
  show "\<exists>t'. SPLAY_REMOVE cmp x t = Some (Inr t') \<and> splay_rel cmp t' (remove1 x xs) \<and> keys t' = keys t"
    if "x \<in> set xs" using SPLAY_REMOVE_member [OF rel that] .
  show "\<exists>t'. SPLAY_FIND cmp x t = Some (Inr (find_asc cmp (\<lambda>a. the (keys t a)) x xs, t')) \<and> splay_rel cmp t' xs \<and> keys t' = keys t"
    if "keys t x \<noteq> None" using SPLAY_FIND_ok [OF rel] that by auto
  show "\<exists>t'. SPLAY_MIN t = Some (Inr (if xs = [] then 0 else hd xs, t')) \<and> splay_rel cmp t' xs \<and> keys t' = keys t"
    using SPLAY_MIN_ok [OF rel] .
  show "\<exists>t'. SPLAY_NEXT cmp x t = Some (Inr (next_in x xs, t')) \<and> splay_rel cmp t' xs \<and> keys t' = keys t"
    if "x \<in> set xs" using SPLAY_NEXT_ok [OF rel that] .
qed

section \<open>Properties\<close>

text \<open>
  C29. The splay operation on a non-empty tree ends, keeps the sequence of the
  elements, their keys and everything outside the tree, and its root splits the
  sequence: the elements before it are smaller and those behind it greater than
  the key looked for, so the root has that key if any element has it.
\<close>

theorem SPLAY_correct:
  assumes "splay_rel cmp t xs" "xs \<noteq> []" "keys t x = Some k"
  shows "\<exists>t' us vs. SPLAY cmp x t = Some (Inr t') \<and> splay_rel cmp t' xs \<and> keys t' = keys t \<and>
    (\<forall>a. a \<notin> set xs \<longrightarrow> spl_cells t' a = spl_cells t a) \<and> xs = us @ sph_root t' # vs \<and>
    (\<forall>y\<in>set us. cmp (key_of t y) k < 0) \<and> (\<forall>y\<in>set vs. cmp k (key_of t y) < 0)"
proof -
  from SPLAY_rel [OF assms] obtain t' l a r where
    t': "SPLAY cmp x t = Some (Inr t')" "stree (spl_cells t') (sph_root t') (Node l a r)"
      "xs = inorder l @ a # inorder r" "parted cmp (key_of t) k (Node l a r)" "same_but (set xs) t t'"
      "keys t' = keys t" "sph_root t' = a" by metis
  have "splay_rel cmp t' xs"
    using assms(1) t'(2,3,6) by (intro splay_relI [of _ _ _ "Node l a r"]) (simp_all add: splay_rel_def)
  moreover have "\<forall>a. a \<notin> set xs \<longrightarrow> spl_cells t' a = spl_cells t a" using t'(5) by (simp add: same_but_def)
  moreover have "xs = inorder l @ sph_root t' # inorder r" using t'(3,7) by simp
  moreover have "\<forall>y\<in>set (inorder l). cmp (key_of t y) k < 0" "\<forall>y\<in>set (inorder r). cmp k (key_of t y) < 0"
    using t'(4) by simp_all
  ultimately show ?thesis using t'(1,6) by blast
qed

text \<open>Three elements with the keys 10, 20 and 30; the tree is a chain to the left.\<close>

definition sample_splay :: "int splay" where
  "sample_splay = \<lparr>spl_cells =
     [1 \<mapsto> \<lparr>spl_key = 10, spe_left = 0, spe_right = 0\<rparr>, 2 \<mapsto> \<lparr>spl_key = 20, spe_left = 1, spe_right = 0\<rparr>,
      3 \<mapsto> \<lparr>spl_key = 30, spe_left = 2, spe_right = 0\<rparr>], sph_root = 3\<rparr>"

lemma cmp_ok_int: "cmp_ok (\<lambda>a b. a - b :: int)"
  by (auto simp: cmp_ok_def)

lemma sample_splay_rel: "splay_rel (\<lambda>a b. a - b) sample_splay [1, 2, 3]"
  using cmp_ok_int
  by (intro splay_relI [of _ _ _ "Node (Node (Node Leaf 1 Leaf) 2 Leaf) 3 Leaf"])
    (simp_all add: sample_splay_def ascending_Cons keys_def)

theorem SPLAY_correct_witness:
  "\<exists>t'. SPLAY (\<lambda>a b. a - b) 1 sample_splay = Some (Inr t') \<and> splay_rel (\<lambda>a b. a - b) t' [1, 2, 3] \<and> sph_root t' = 1"
proof -
  have "keys sample_splay 1 = Some 10" by (simp add: sample_splay_def keys_def)
  from SPLAY_correct [OF sample_splay_rel _ this] obtain t' us vs where
    t': "SPLAY (\<lambda>a b. a - b) 1 sample_splay = Some (Inr t')" "splay_rel (\<lambda>a b. a - b) t' [1, 2, 3]"
      "[1, 2, 3] = us @ sph_root t' # vs" "\<forall>y\<in>set us. key_of sample_splay y - 10 < 0" by auto
  from t'(3,4) have "sph_root t' = 1"
    by (cases us) (auto simp: sample_splay_def keys_def)
  with t' show ?thesis by blast
qed

text \<open>
  C35. \<open>SPLAY_MINMAX\<close> brings the least or the greatest element to the root; called
  with 0 it runs for ever, whatever the tree.
\<close>

theorem SPLAY_MINMAX_total:
  assumes "splay_rel cmp t xs" "xs \<noteq> []"
  shows "if dir = 0 then SPLAY_MINMAX dir t = None
    else \<exists>t'. SPLAY_MINMAX dir t = Some (Inr t') \<and> splay_rel cmp t' xs \<and> keys t' = keys t \<and>
      sph_root t' = (if dir < 0 then hd xs else last xs)"
  using SPLAY_MINMAX_zero_hangs [of t] SPLAY_MINMAX_ok [OF assms, of dir] by auto

theorem SPLAY_MINMAX_total_witness:
  "\<exists>t'. SPLAY_MINMAX SPLAY_INF sample_splay = Some (Inr t') \<and> sph_root t' = 3"
  using SPLAY_MINMAX_total [OF sample_splay_rel, of SPLAY_INF] by (auto simp: SPLAY_INF_def)

end
