(* ===== verification/Rb_Tree.thy ===== *)
theory Rb_Tree
  imports Ordered_Elems "HOL-Library.Tree"
begin

text \<open>
  The red-black trees of \<open>utils/tree.h\<close> (\<open>RB_GENERATE\<close>) over an explicit heap with
  parent pointers; \<open>cmp\<close> is the comparison the client hands to the macros and
  \<open>RB_AUGMENT\<close> is empty, as the file defines it.  This theory holds the macros and
  the functions as the file has them, and what a single step does to a tree: a
  tree is a functional tree with a focus, and every rotation or recolouring is
  an equation on the part in focus.
\<close>

section \<open>Data\<close>

record 'k rb_elm =
  rb_key :: 'k
  rbe_left :: nat
  rbe_right :: nat
  rbe_parent :: nat
  rbe_color :: int

record 'k rb =
  rb_cells :: "nat \<rightharpoonup> 'k rb_elm"
  rbh_root :: nat

definition RB_BLACK :: int where "RB_BLACK = 0"
definition RB_RED :: int where "RB_RED = 1"

section \<open>The macros\<close>

definition RB_INIT :: "'k rb \<Rightarrow> 'k rb" where
  "RB_INIT t = t\<lparr>rbh_root := 0\<rparr>"

definition RB_INITIALIZER :: "(nat \<rightharpoonup> 'k rb_elm) \<Rightarrow> 'k rb" where
  "RB_INITIALIZER h = \<lparr>rb_cells = h, rbh_root = 0\<rparr>"

definition RB_ROOT :: "'k rb \<Rightarrow> nat" where
  "RB_ROOT t = rbh_root t"

definition RB_EMPTY :: "'k rb \<Rightarrow> bool" where
  "RB_EMPTY t \<longleftrightarrow> RB_ROOT t = 0"

definition RB_LEFT :: "'k rb \<Rightarrow> nat \<Rightarrow> nat exec" where
  "RB_LEFT t p = bindE (fetch (rb_cells t) p) (\<lambda>e. Inr (rbe_left e))"

definition RB_RIGHT :: "'k rb \<Rightarrow> nat \<Rightarrow> nat exec" where
  "RB_RIGHT t p = bindE (fetch (rb_cells t) p) (\<lambda>e. Inr (rbe_right e))"

definition RB_PARENT :: "'k rb \<Rightarrow> nat \<Rightarrow> nat exec" where
  "RB_PARENT t p = bindE (fetch (rb_cells t) p) (\<lambda>e. Inr (rbe_parent e))"

definition RB_COLOR :: "'k rb \<Rightarrow> nat \<Rightarrow> int exec" where
  "RB_COLOR t p = bindE (fetch (rb_cells t) p) (\<lambda>e. Inr (rbe_color e))"

text \<open>Assignments to a field of an element.\<close>

definition rb_upd :: "'k rb \<Rightarrow> nat \<Rightarrow> ('k rb_elm \<Rightarrow> 'k rb_elm) \<Rightarrow> 'k rb exec" where
  "rb_upd t p f = bindE (modify (rb_cells t) p f) (\<lambda>h. Inr (t\<lparr>rb_cells := h\<rparr>))"

definition put_left :: "'k rb \<Rightarrow> nat \<Rightarrow> nat \<Rightarrow> 'k rb exec" where
  "put_left t p q = rb_upd t p (\<lambda>e. e\<lparr>rbe_left := q\<rparr>)"

definition put_right :: "'k rb \<Rightarrow> nat \<Rightarrow> nat \<Rightarrow> 'k rb exec" where
  "put_right t p q = rb_upd t p (\<lambda>e. e\<lparr>rbe_right := q\<rparr>)"

definition put_parent :: "'k rb \<Rightarrow> nat \<Rightarrow> nat \<Rightarrow> 'k rb exec" where
  "put_parent t p q = rb_upd t p (\<lambda>e. e\<lparr>rbe_parent := q\<rparr>)"

definition put_color :: "'k rb \<Rightarrow> nat \<Rightarrow> int \<Rightarrow> 'k rb exec" where
  "put_color t p c = rb_upd t p (\<lambda>e. e\<lparr>rbe_color := c\<rparr>)"

definition RB_SET :: "'k rb \<Rightarrow> nat \<Rightarrow> nat \<Rightarrow> 'k rb exec" where
  "RB_SET t elm parent =
     bindE (put_parent t elm parent) (\<lambda>t.
     bindE (put_right t elm 0) (\<lambda>t.
     bindE (put_left t elm 0) (\<lambda>t.
     put_color t elm RB_RED)))"

definition RB_SET_BLACKRED :: "'k rb \<Rightarrow> nat \<Rightarrow> nat \<Rightarrow> 'k rb exec" where
  "RB_SET_BLACKRED t black red =
     bindE (put_color t black RB_BLACK) (\<lambda>t. put_color t red RB_RED)"

text \<open>
  The rotations, with the pointer \<open>tmp\<close> as a second result.  \<open>rb_replace\<close> is the
  statement that makes \<open>new\<close> the child of \<open>parent\<close> in the place of \<open>elm\<close>, or the
  root when there is no parent; it occurs in the rotations and in \<open>RB_REMOVE\<close>.
\<close>

definition rb_replace :: "'k rb \<Rightarrow> nat \<Rightarrow> nat \<Rightarrow> nat \<Rightarrow> 'k rb exec" where
  "rb_replace t parent elm new =
     (if parent \<noteq> 0 then
        bindE (RB_LEFT t parent) (\<lambda>l.
        if l = elm then put_left t parent new else put_right t parent new)
      else Inr (t\<lparr>rbh_root := new\<rparr>))"

definition RB_ROTATE_LEFT :: "'k rb \<Rightarrow> nat \<Rightarrow> ('k rb \<times> nat) exec" where
  "RB_ROTATE_LEFT t elm =
     bindE (RB_RIGHT t elm) (\<lambda>tmp.
     bindE (RB_LEFT t tmp) (\<lambda>l.
     bindE (put_right t elm l) (\<lambda>t.
     bindE (if l \<noteq> 0 then bindE (RB_LEFT t tmp) (\<lambda>l. put_parent t l elm) else Inr t) (\<lambda>t.
     bindE (RB_PARENT t elm) (\<lambda>parent.
     bindE (put_parent t tmp parent) (\<lambda>t.
     bindE (rb_replace t parent elm tmp) (\<lambda>t.
     bindE (put_left t tmp elm) (\<lambda>t.
     bindE (put_parent t elm tmp) (\<lambda>t.
     Inr (t, tmp))))))))))"

definition RB_ROTATE_RIGHT :: "'k rb \<Rightarrow> nat \<Rightarrow> ('k rb \<times> nat) exec" where
  "RB_ROTATE_RIGHT t elm =
     bindE (RB_LEFT t elm) (\<lambda>tmp.
     bindE (RB_RIGHT t tmp) (\<lambda>r.
     bindE (put_left t elm r) (\<lambda>t.
     bindE (if r \<noteq> 0 then bindE (RB_RIGHT t tmp) (\<lambda>r. put_parent t r elm) else Inr t) (\<lambda>t.
     bindE (RB_PARENT t elm) (\<lambda>parent.
     bindE (put_parent t tmp parent) (\<lambda>t.
     bindE (rb_replace t parent elm tmp) (\<lambda>t.
     bindE (put_right t tmp elm) (\<lambda>t.
     bindE (put_parent t elm tmp) (\<lambda>t.
     Inr (t, tmp))))))))))"

section \<open>Insertion\<close>

text \<open>\<open>tmp \<and> RB_COLOR(tmp) = RB_RED\<close>, and \<open>tmp = NULL \<or> RB_COLOR(tmp) = RB_BLACK\<close>.\<close>

definition is_red :: "'k rb \<Rightarrow> nat \<Rightarrow> bool exec" where
  "is_red t p = (if p \<noteq> 0 then bindE (RB_COLOR t p) (\<lambda>c. Inr (c = RB_RED)) else Inr False)"

definition null_or_black :: "'k rb \<Rightarrow> nat \<Rightarrow> bool exec" where
  "null_or_black t p = (if p = 0 then Inr True else bindE (RB_COLOR t p) (\<lambda>c. Inr (c = RB_BLACK)))"

text \<open>The two branches of the loop of \<open>RB_INSERT_COLOR\<close>; the result is the new \<open>elm\<close>.\<close>

definition insert_fix_left :: "'k rb \<Rightarrow> nat \<Rightarrow> nat \<Rightarrow> nat \<Rightarrow> ('k rb \<times> nat) exec" where
  "insert_fix_left t gparent parent elm =
     bindE (RB_RIGHT t gparent) (\<lambda>tmp.
     bindE (is_red t tmp) (\<lambda>red.
     if red then
       bindE (put_color t tmp RB_BLACK) (\<lambda>t.
       bindE (RB_SET_BLACKRED t parent gparent) (\<lambda>t.
       Inr (t, gparent)))
     else
       bindE (RB_RIGHT t parent) (\<lambda>r.
       bindE (if r = elm then bindE (RB_ROTATE_LEFT t parent) (\<lambda>(t, tmp). Inr (t, elm, parent))
              else Inr (t, parent, elm)) (\<lambda>(t, parent, elm).
       bindE (RB_SET_BLACKRED t parent gparent) (\<lambda>t.
       bindE (RB_ROTATE_RIGHT t gparent) (\<lambda>(t, tmp).
       Inr (t, elm)))))))"

definition insert_fix_right :: "'k rb \<Rightarrow> nat \<Rightarrow> nat \<Rightarrow> nat \<Rightarrow> ('k rb \<times> nat) exec" where
  "insert_fix_right t gparent parent elm =
     bindE (RB_LEFT t gparent) (\<lambda>tmp.
     bindE (is_red t tmp) (\<lambda>red.
     if red then
       bindE (put_color t tmp RB_BLACK) (\<lambda>t.
       bindE (RB_SET_BLACKRED t parent gparent) (\<lambda>t.
       Inr (t, gparent)))
     else
       bindE (RB_LEFT t parent) (\<lambda>l.
       bindE (if l = elm then bindE (RB_ROTATE_RIGHT t parent) (\<lambda>(t, tmp). Inr (t, elm, parent))
              else Inr (t, parent, elm)) (\<lambda>(t, parent, elm).
       bindE (RB_SET_BLACKRED t parent gparent) (\<lambda>t.
       bindE (RB_ROTATE_LEFT t gparent) (\<lambda>(t, tmp).
       Inr (t, elm)))))))"

definition insert_color_body :: "'k rb \<times> nat \<Rightarrow> (('k rb \<times> nat) \<times> bool) exec" where
  "insert_color_body = (\<lambda>(t, elm).
     bindE (RB_PARENT t elm) (\<lambda>parent.
     bindE (is_red t parent) (\<lambda>go.
     if \<not> go then Inr ((t, elm), True)
     else
       bindE (RB_PARENT t parent) (\<lambda>gparent.
       bindE (RB_LEFT t gparent) (\<lambda>l.
       bindE (if parent = l then insert_fix_left t gparent parent elm
              else insert_fix_right t gparent parent elm) (\<lambda>s.
       Inr (s, False)))))))"

definition RB_INSERT_COLOR :: "nat \<Rightarrow> 'k rb \<Rightarrow> 'k rb run" where
  "RB_INSERT_COLOR elm t =
     bindR (c_loop (\<lambda>s. Some (insert_color_body s)) (t, elm)) (\<lambda>(t, elm).
     Some (put_color t (rbh_root t) RB_BLACK))"

definition rb_cmp :: "('k \<Rightarrow> 'k \<Rightarrow> int) \<Rightarrow> 'k rb \<Rightarrow> nat \<Rightarrow> nat \<Rightarrow> int exec" where
  "rb_cmp cmp t p q =
     bindE (fetch (rb_cells t) p) (\<lambda>d. bindE (fetch (rb_cells t) q) (\<lambda>e. Inr (cmp (rb_key d) (rb_key e))))"

text \<open>
  The descent of \<open>RB_INSERT\<close>: the state is \<open>tmp\<close>, \<open>parent\<close> and \<open>comp\<close>; the loop is
  left at the end of the path or at an equal element (\<open>tmp\<close> is not NULL then).
\<close>

definition descend_body ::
  "('k \<Rightarrow> 'k \<Rightarrow> int) \<Rightarrow> 'k rb \<Rightarrow> nat \<Rightarrow> nat \<times> nat \<times> int \<Rightarrow> ((nat \<times> nat \<times> int) \<times> bool) exec" where
  "descend_body cmp t elm = (\<lambda>(tmp, parent, comp).
     if tmp = 0 then Inr ((tmp, parent, comp), True)
     else
       bindE (rb_cmp cmp t elm tmp) (\<lambda>comp.
       if comp < 0 then bindE (RB_LEFT t tmp) (\<lambda>l. Inr ((l, tmp, comp), False))
       else if 0 < comp then bindE (RB_RIGHT t tmp) (\<lambda>r. Inr ((r, tmp, comp), False))
       else Inr ((tmp, tmp, comp), True)))"

definition RB_INSERT :: "('k \<Rightarrow> 'k \<Rightarrow> int) \<Rightarrow> nat \<Rightarrow> 'k rb \<Rightarrow> (nat \<times> 'k rb) run" where
  "RB_INSERT cmp elm t =
     bindR (c_loop (\<lambda>s. Some (descend_body cmp t elm s)) (RB_ROOT t, 0, 0)) (\<lambda>(tmp, parent, comp).
     if tmp \<noteq> 0 then Some (Inr (tmp, t))
     else
       bindR (Some
         (bindE (RB_SET t elm parent) (\<lambda>t.
          if parent \<noteq> 0 then (if comp < 0 then put_left t parent elm else put_right t parent elm)
          else Inr (t\<lparr>rbh_root := elm\<rparr>)))) (\<lambda>t.
       bindR (RB_INSERT_COLOR elm t) (\<lambda>t.
       Some (Inr (0, t)))))"

section \<open>Removal\<close>

text \<open>
  The two branches of the loop of \<open>RB_REMOVE_COLOR\<close>; the result is the tree, the
  new \<open>parent\<close> and \<open>elm\<close>, and whether the loop is left.
\<close>

definition remove_fix_left :: "'k rb \<Rightarrow> nat \<Rightarrow> nat \<Rightarrow> (('k rb \<times> nat \<times> nat) \<times> bool) exec" where
  "remove_fix_left t parent elm =
     bindE (RB_RIGHT t parent) (\<lambda>tmp.
     bindE (RB_COLOR t tmp) (\<lambda>c.
     bindE (if c = RB_RED then
              bindE (RB_SET_BLACKRED t tmp parent) (\<lambda>t.
              bindE (RB_ROTATE_LEFT t parent) (\<lambda>(t, tmp).
              bindE (RB_RIGHT t parent) (\<lambda>tmp. Inr (t, tmp))))
            else Inr (t, tmp)) (\<lambda>(t, tmp).
     bindE (RB_LEFT t tmp) (\<lambda>l. bindE (null_or_black t l) (\<lambda>lb.
     bindE (RB_RIGHT t tmp) (\<lambda>r. bindE (null_or_black t r) (\<lambda>rb.
     if lb \<and> rb then
       bindE (put_color t tmp RB_RED) (\<lambda>t.
       bindE (RB_PARENT t parent) (\<lambda>grand.
       Inr ((t, grand, parent), False)))
     else
       bindE (if rb then
                bindE (RB_LEFT t tmp) (\<lambda>oleft.
                bindE (if oleft \<noteq> 0 then put_color t oleft RB_BLACK else Inr t) (\<lambda>t.
                bindE (put_color t tmp RB_RED) (\<lambda>t.
                bindE (RB_ROTATE_RIGHT t tmp) (\<lambda>(t, oleft).
                bindE (RB_RIGHT t parent) (\<lambda>tmp. Inr (t, tmp))))))
              else Inr (t, tmp)) (\<lambda>(t, tmp).
       bindE (RB_COLOR t parent) (\<lambda>c.
       bindE (put_color t tmp c) (\<lambda>t.
       bindE (put_color t parent RB_BLACK) (\<lambda>t.
       bindE (RB_RIGHT t tmp) (\<lambda>r.
       bindE (if r \<noteq> 0 then put_color t r RB_BLACK else Inr t) (\<lambda>t.
       bindE (RB_ROTATE_LEFT t parent) (\<lambda>(t, tmp).
       Inr ((t, parent, RB_ROOT t), True)))))))))))))))"

definition remove_fix_right :: "'k rb \<Rightarrow> nat \<Rightarrow> nat \<Rightarrow> (('k rb \<times> nat \<times> nat) \<times> bool) exec" where
  "remove_fix_right t parent elm =
     bindE (RB_LEFT t parent) (\<lambda>tmp.
     bindE (RB_COLOR t tmp) (\<lambda>c.
     bindE (if c = RB_RED then
              bindE (RB_SET_BLACKRED t tmp parent) (\<lambda>t.
              bindE (RB_ROTATE_RIGHT t parent) (\<lambda>(t, tmp).
              bindE (RB_LEFT t parent) (\<lambda>tmp. Inr (t, tmp))))
            else Inr (t, tmp)) (\<lambda>(t, tmp).
     bindE (RB_LEFT t tmp) (\<lambda>l. bindE (null_or_black t l) (\<lambda>lb.
     bindE (RB_RIGHT t tmp) (\<lambda>r. bindE (null_or_black t r) (\<lambda>rb.
     if lb \<and> rb then
       bindE (put_color t tmp RB_RED) (\<lambda>t.
       bindE (RB_PARENT t parent) (\<lambda>grand.
       Inr ((t, grand, parent), False)))
     else
       bindE (if lb then
                bindE (RB_RIGHT t tmp) (\<lambda>oright.
                bindE (if oright \<noteq> 0 then put_color t oright RB_BLACK else Inr t) (\<lambda>t.
                bindE (put_color t tmp RB_RED) (\<lambda>t.
                bindE (RB_ROTATE_LEFT t tmp) (\<lambda>(t, oright).
                bindE (RB_LEFT t parent) (\<lambda>tmp. Inr (t, tmp))))))
              else Inr (t, tmp)) (\<lambda>(t, tmp).
       bindE (RB_COLOR t parent) (\<lambda>c.
       bindE (put_color t tmp c) (\<lambda>t.
       bindE (put_color t parent RB_BLACK) (\<lambda>t.
       bindE (RB_LEFT t tmp) (\<lambda>l.
       bindE (if l \<noteq> 0 then put_color t l RB_BLACK else Inr t) (\<lambda>t.
       bindE (RB_ROTATE_RIGHT t parent) (\<lambda>(t, tmp).
       Inr ((t, parent, RB_ROOT t), True)))))))))))))))"

definition remove_color_body :: "'k rb \<times> nat \<times> nat \<Rightarrow> (('k rb \<times> nat \<times> nat) \<times> bool) exec" where
  "remove_color_body = (\<lambda>(t, parent, elm).
     bindE (null_or_black t elm) (\<lambda>black.
     if \<not> (black \<and> elm \<noteq> RB_ROOT t) then Inr ((t, parent, elm), True)
     else
       bindE (RB_LEFT t parent) (\<lambda>l.
       if l = elm then remove_fix_left t parent elm else remove_fix_right t parent elm)))"

definition RB_REMOVE_COLOR :: "nat \<Rightarrow> nat \<Rightarrow> 'k rb \<Rightarrow> 'k rb run" where
  "RB_REMOVE_COLOR parent elm t =
     bindR (c_loop (\<lambda>s. Some (remove_color_body s)) (t, parent, elm)) (\<lambda>(t, parent, elm).
     Some (if elm \<noteq> 0 then put_color t elm RB_BLACK else Inr t))"

definition rb_leftmost_body :: "'k rb \<Rightarrow> nat \<Rightarrow> (nat \<times> bool) exec" where
  "rb_leftmost_body t x =
     bindE (RB_LEFT t x) (\<lambda>l. Inr (if l \<noteq> 0 then (l, False) else (x, True)))"

text \<open>The loop \<open>do ... while ((left = RB_PARENT(left)))\<close>, whose body is empty.\<close>

definition augment_body :: "'k rb \<Rightarrow> nat \<Rightarrow> (nat \<times> bool) exec" where
  "augment_body t x = bindE (RB_PARENT t x) (\<lambda>p. Inr (p, p = 0))"

text \<open>Taking \<open>elm\<close> out of its place: \<open>child\<close> moves up to \<open>parent\<close>.\<close>

definition splice_out :: "'k rb \<Rightarrow> nat \<Rightarrow> nat \<Rightarrow> nat \<Rightarrow> 'k rb exec" where
  "splice_out t parent elm child =
     bindE (if child \<noteq> 0 then put_parent t child parent else Inr t) (\<lambda>t.
     rb_replace t parent elm child)"

text \<open>\<open>elm\<close> takes the place of \<open>old\<close>: its fields, and the pointers of the neighbours.\<close>

definition take_place :: "'k rb \<Rightarrow> nat \<Rightarrow> nat \<Rightarrow> 'k rb exec" where
  "take_place t old elm =
     bindE (fetch (rb_cells t) old) (\<lambda>e.
     bindE (rb_upd t elm (\<lambda>d. d\<lparr>rbe_left := rbe_left e, rbe_right := rbe_right e,
       rbe_parent := rbe_parent e, rbe_color := rbe_color e\<rparr>)) (\<lambda>t.
     bindE (RB_PARENT t old) (\<lambda>p.
     bindE (rb_replace t p old elm) (\<lambda>t.
     bindE (RB_LEFT t old) (\<lambda>l.
     bindE (put_parent t l elm) (\<lambda>t.
     bindE (RB_RIGHT t old) (\<lambda>r.
     if r \<noteq> 0 then put_parent t r elm else Inr t)))))))"

text \<open>
  The two ways through \<open>RB_REMOVE\<close> up to the label \<open>color\<close>; the result is the tree,
  \<open>parent\<close>, \<open>child\<close> and \<open>color\<close>.
\<close>

definition remove_simple :: "'k rb \<Rightarrow> nat \<Rightarrow> nat \<Rightarrow> ('k rb \<times> nat \<times> nat \<times> int) exec" where
  "remove_simple t elm child =
     bindE (RB_PARENT t elm) (\<lambda>parent.
     bindE (RB_COLOR t elm) (\<lambda>color.
     bindE (splice_out t parent elm child) (\<lambda>t.
     Inr (t, parent, child, color))))"

definition remove_double :: "'k rb \<Rightarrow> nat \<Rightarrow> ('k rb \<times> nat \<times> nat \<times> int) run" where
  "remove_double t old =
     bindR (Some (RB_RIGHT t old)) (\<lambda>r.
     bindR (c_loop (\<lambda>x. Some (rb_leftmost_body t x)) r) (\<lambda>elm.
     bindR (Some (RB_RIGHT t elm)) (\<lambda>child.
     bindR (Some (RB_PARENT t elm)) (\<lambda>parent.
     bindR (Some (RB_COLOR t elm)) (\<lambda>color.
     bindR (Some (splice_out t parent elm child)) (\<lambda>t.
     bindR (Some (RB_PARENT t elm)) (\<lambda>p.
     let parent = (if p = old then elm else parent) in
     bindR (Some (take_place t old elm)) (\<lambda>t.
     bindR (if parent \<noteq> 0 then c_loop (\<lambda>x. Some (augment_body t x)) parent else Some (Inr 0)) (\<lambda>_.
     Some (Inr (t, parent, child, color)))))))))))"

definition RB_REMOVE :: "nat \<Rightarrow> 'k rb \<Rightarrow> 'k rb run" where
  "RB_REMOVE elm t =
     bindR
       (bindR (Some (RB_LEFT t elm)) (\<lambda>l.
        bindR (Some (RB_RIGHT t elm)) (\<lambda>r.
        if l = 0 then Some (remove_simple t elm r)
        else if r = 0 then Some (remove_simple t elm l)
        else remove_double t elm))) (\<lambda>(t, parent, child, color).
     if color = RB_BLACK then RB_REMOVE_COLOR parent child t else Some (Inr t))"

section \<open>Finding and iterating\<close>

text \<open>The loop of \<open>RB_FIND\<close>: at the end \<open>tmp\<close> is the element found or NULL.\<close>

definition find_body :: "('k \<Rightarrow> 'k \<Rightarrow> int) \<Rightarrow> 'k rb \<Rightarrow> nat \<Rightarrow> nat \<Rightarrow> (nat \<times> bool) exec" where
  "find_body cmp t elm tmp =
     (if tmp = 0 then Inr (tmp, True)
      else
        bindE (rb_cmp cmp t elm tmp) (\<lambda>comp.
        if comp < 0 then bindE (RB_LEFT t tmp) (\<lambda>l. Inr (l, False))
        else if 0 < comp then bindE (RB_RIGHT t tmp) (\<lambda>r. Inr (r, False))
        else Inr (tmp, True)))"

definition RB_FIND :: "('k \<Rightarrow> 'k \<Rightarrow> int) \<Rightarrow> nat \<Rightarrow> 'k rb \<Rightarrow> nat run" where
  "RB_FIND cmp elm t = c_loop (\<lambda>x. Some (find_body cmp t elm x)) (RB_ROOT t)"

text \<open>\<open>RB_PARENT(elm) \<and> elm = child(RB_PARENT(elm))\<close> for one of the two children.\<close>

definition is_child :: "('k rb \<Rightarrow> nat \<Rightarrow> nat exec) \<Rightarrow> 'k rb \<Rightarrow> nat \<Rightarrow> bool exec" where
  "is_child chld t elm =
     bindE (RB_PARENT t elm) (\<lambda>p.
     if p = 0 then Inr False else bindE (chld t p) (\<lambda>c. Inr (elm = c)))"

definition climb_body :: "'k rb \<Rightarrow> nat \<Rightarrow> (nat \<times> bool) exec" where
  "climb_body t elm =
     bindE (is_child RB_RIGHT t elm) (\<lambda>b.
     if b then bindE (RB_PARENT t elm) (\<lambda>p. Inr (p, False)) else Inr (elm, True))"

definition RB_NEXT :: "nat \<Rightarrow> 'k rb \<Rightarrow> nat run" where
  "RB_NEXT elm t =
     bindR (Some (RB_RIGHT t elm)) (\<lambda>r.
     if r \<noteq> 0 then c_loop (\<lambda>x. Some (rb_leftmost_body t x)) r
     else
       bindR (Some (is_child RB_LEFT t elm)) (\<lambda>b.
       if b then Some (RB_PARENT t elm)
       else
         bindR (c_loop (\<lambda>x. Some (climb_body t x)) elm) (\<lambda>elm.
         Some (RB_PARENT t elm))))"

definition RB_NEGINF :: int where "RB_NEGINF = - 1"
definition RB_INF :: int where "RB_INF = 1"

definition minmax_walk :: "'k rb \<Rightarrow> int \<Rightarrow> nat \<times> nat \<Rightarrow> ((nat \<times> nat) \<times> bool) exec" where
  "minmax_walk t v = (\<lambda>(tmp, parent).
     if tmp = 0 then Inr ((tmp, parent), True)
     else if v < 0 then bindE (RB_LEFT t tmp) (\<lambda>l. Inr ((l, tmp), False))
     else bindE (RB_RIGHT t tmp) (\<lambda>r. Inr ((r, tmp), False)))"

definition RB_MINMAX :: "int \<Rightarrow> 'k rb \<Rightarrow> nat run" where
  "RB_MINMAX v t =
     bindR (c_loop (\<lambda>s. Some (minmax_walk t v s)) (RB_ROOT t, 0)) (\<lambda>(tmp, parent). Some (Inr parent))"

definition RB_MIN :: "'k rb \<Rightarrow> nat run" where
  "RB_MIN t = RB_MINMAX RB_NEGINF t"

definition RB_MAX :: "'k rb \<Rightarrow> nat run" where
  "RB_MAX t = RB_MINMAX RB_INF t"

text \<open>\<open>RB_FOREACH\<close> leaves the tree as it is.\<close>

definition with_state :: "('k rb \<Rightarrow> nat run) \<Rightarrow> 'k rb \<Rightarrow> (nat \<times> 'k rb) run" where
  "with_state f t = bindR (f t) (\<lambda>p. Some (Inr (p, t)))"

definition RB_FOREACH :: "'k rb \<Rightarrow> (nat list \<times> 'k rb) run" where
  "RB_FOREACH t = tree_foreach (with_state RB_MIN) (\<lambda>x. with_state (RB_NEXT x)) t"

end
