(* ===== verification/Rb_Focus.thy ===== *)
theory Rb_Focus
  imports Rb_Tree
begin

text \<open>
  Red-black trees in the heap as functional trees with a focus.  A frame of the
  context says on which side of a node the focus is; since the functions of
  \<open>utils/tree.h\<close> come in mirrored pairs, the lemmas are stated for a side and hold
  for both members of a pair.
\<close>

section \<open>Sides\<close>

datatype side = Lft | Rgt

fun flip :: "side \<Rightarrow> side" where
  "flip Lft = Rgt"
| "flip Rgt = Lft"

lemma flip_flip [simp]: "flip (flip d) = d" "flip d \<noteq> d" "d \<noteq> flip d"
  by (cases d; simp)+

fun child :: "side \<Rightarrow> 'k rb_elm \<Rightarrow> nat" where
  "child Lft e = rbe_left e"
| "child Rgt e = rbe_right e"

fun upd_child :: "side \<Rightarrow> nat \<Rightarrow> 'k rb_elm \<Rightarrow> 'k rb_elm" where
  "upd_child Lft q e = e\<lparr>rbe_left := q\<rparr>"
| "upd_child Rgt q e = e\<lparr>rbe_right := q\<rparr>"

lemma child_upd [simp]:
  "child d (upd_child d q e) = q" "child (flip d) (upd_child d q e) = child (flip d) e"
  "child d (upd_child (flip d) q e) = child d e"
  "rbe_parent (upd_child d q e) = rbe_parent e" "rbe_color (upd_child d q e) = rbe_color e"
  "rb_key (upd_child d q e) = rb_key e"
  "child d (e\<lparr>rbe_parent := q\<rparr>) = child d e" "child d (e\<lparr>rbe_color := c\<rparr>) = child d e"
  by (cases d; simp)+

definition get_child :: "side \<Rightarrow> 'k rb \<Rightarrow> nat \<Rightarrow> nat exec" where
  "get_child d = (case d of Lft \<Rightarrow> RB_LEFT | Rgt \<Rightarrow> RB_RIGHT)"

definition put_child :: "side \<Rightarrow> 'k rb \<Rightarrow> nat \<Rightarrow> nat \<Rightarrow> 'k rb exec" where
  "put_child d = (case d of Lft \<Rightarrow> put_left | Rgt \<Rightarrow> put_right)"

definition rotate_to :: "side \<Rightarrow> 'k rb \<Rightarrow> nat \<Rightarrow> ('k rb \<times> nat) exec" where
  "rotate_to d = (case d of Lft \<Rightarrow> RB_ROTATE_LEFT | Rgt \<Rightarrow> RB_ROTATE_RIGHT)"

lemma get_child_eq: "get_child d t p = bindE (fetch (rb_cells t) p) (\<lambda>e. Inr (child d e))"
  by (cases d) (simp_all add: get_child_def RB_LEFT_def RB_RIGHT_def)

lemma put_child_eq: "put_child d t p q = rb_upd t p (upd_child d q)"
  by (cases d) (simp_all add: put_child_def put_left_def put_right_def rb_upd_def modify_def)

lemma rotate_to_eq:
  "rotate_to d t elm =
     bindE (get_child (flip d) t elm) (\<lambda>tmp.
     bindE (get_child d t tmp) (\<lambda>m.
     bindE (put_child (flip d) t elm m) (\<lambda>t.
     bindE (if m \<noteq> 0 then bindE (get_child d t tmp) (\<lambda>m. put_parent t m elm) else Inr t) (\<lambda>t.
     bindE (RB_PARENT t elm) (\<lambda>parent.
     bindE (put_parent t tmp parent) (\<lambda>t.
     bindE (rb_replace t parent elm tmp) (\<lambda>t.
     bindE (put_child d t tmp elm) (\<lambda>t.
     bindE (put_parent t elm tmp) (\<lambda>t.
     Inr (t, tmp))))))))))"
  by (induction d) (simp_all add: rotate_to_def get_child_def put_child_def RB_ROTATE_LEFT_def RB_ROTATE_RIGHT_def
      cong: if_cong)

lemma rb_upd_ok [simp]:
  "rb_cells t p = Some e \<Longrightarrow> rb_upd t p f = Inr (t\<lparr>rb_cells := (rb_cells t)(p \<mapsto> f e)\<rparr>)"
  by (simp add: rb_upd_def)

lemma get_child_ok [simp]: "rb_cells t p = Some e \<Longrightarrow> get_child d t p = Inr (child d e)"
  by (simp add: get_child_eq)

lemma RB_PARENT_ok [simp]: "rb_cells t p = Some e \<Longrightarrow> RB_PARENT t p = Inr (rbe_parent e)"
  by (simp add: RB_PARENT_def)

lemma RB_COLOR_ok [simp]: "rb_cells t p = Some e \<Longrightarrow> RB_COLOR t p = Inr (rbe_color e)"
  by (simp add: RB_COLOR_def)

section \<open>Trees\<close>

datatype rb_color = Red | Black

fun code :: "rb_color \<Rightarrow> int" where
  "code Red = RB_RED"
| "code Black = RB_BLACK"

lemma code_simps [simp]: "code c = RB_RED \<longleftrightarrow> c = Red" "code c = RB_BLACK \<longleftrightarrow> c = Black"
  by (cases c; simp add: RB_RED_def RB_BLACK_def)+

lemma not_Black [simp]: "c \<noteq> Black \<longleftrightarrow> c = Red" and not_Red [simp]: "c \<noteq> Red \<longleftrightarrow> c = Black"
  by (cases c; simp)+

type_synonym rbt = "(nat \<times> rb_color) tree"

fun mk :: "side \<Rightarrow> rbt \<Rightarrow> nat \<Rightarrow> rb_color \<Rightarrow> rbt \<Rightarrow> rbt" where
  "mk Lft s a c sib = Node s (a, c) sib"
| "mk Rgt s a c sib = Node sib (a, c) s"

lemma mk_flip: "mk (flip d) s a c sib = mk d sib a c s"
  by (cases d) simp_all

lemma mk_exhaust: "T \<noteq> Leaf \<Longrightarrow> \<exists>s a c sib. T = mk d s a c sib"
  by (cases T; cases d; force)

lemma mk_not_Leaf [simp]: "mk d s a c sib \<noteq> Leaf" "Leaf \<noteq> mk d s a c sib"
  by (cases d; simp)+

lemma mk_inject [simp]: "mk d s a c sib = mk d s' a' c' sib' \<longleftrightarrow> s = s' \<and> a = a' \<and> c = c' \<and> sib = sib'"
  by (cases d) auto

fun ptr :: "rbt \<Rightarrow> nat" where
  "ptr Leaf = 0"
| "ptr (Node l (a, c) r) = a"

fun color_of :: "rbt \<Rightarrow> rb_color" where
  "color_of Leaf = Black"
| "color_of (Node l (a, c) r) = c"

definition seq :: "rbt \<Rightarrow> nat list" where
  "seq T = map fst (inorder T)"

lemma ptr_mk [simp]: "ptr (mk d s a c sib) = a" and color_of_mk [simp]: "color_of (mk d s a c sib) = c"
  by (cases d; simp)+

lemma seq_simps [simp]: "seq Leaf = []" "seq (Node l (a, c) r) = seq l @ a # seq r"
  by (simp_all add: seq_def)

lemma set_seq_mk [simp]: "set (seq (mk d s a c sib)) = insert a (set (seq s) \<union> set (seq sib))"
  by (cases d) auto

lemma distinct_seq_mk [simp]:
  "distinct (seq (mk d s a c sib)) \<longleftrightarrow> distinct (seq s) \<and> distinct (seq sib) \<and> set (seq s) \<inter> set (seq sib) = {} \<and>
     a \<notin> set (seq s) \<and> a \<notin> set (seq sib)"
  by (cases d) auto

fun rtree :: "(nat \<rightharpoonup> 'k rb_elm) \<Rightarrow> nat \<Rightarrow> rbt \<Rightarrow> bool" where
  "rtree h p Leaf = True"
| "rtree h p (Node l (a, c) r) =
     (a \<noteq> 0 \<and> (\<exists>e. h a = Some e \<and> rbe_left e = ptr l \<and> rbe_right e = ptr r \<and> rbe_parent e = p \<and> rbe_color e = code c) \<and>
      rtree h a l \<and> rtree h a r)"

lemma rtree_mk:
  "rtree h p (mk d s a c sib) \<longleftrightarrow>
     a \<noteq> 0 \<and> (\<exists>e. h a = Some e \<and> child d e = ptr s \<and> child (flip d) e = ptr sib \<and> rbe_parent e = p \<and> rbe_color e = code c) \<and>
     rtree h a s \<and> rtree h a sib"
  by (cases d) auto

lemma rtree_upd [simp]: "a \<notin> set (seq T) \<Longrightarrow> rtree (h(a := e)) p T = rtree h p T"
  by (induction T arbitrary: p rule: tree.induct) (auto split: prod.splits)

lemma rtree_dom: "rtree h p T \<Longrightarrow> a \<in> set (seq T) \<Longrightarrow> a \<noteq> 0 \<and> a \<in> dom h"
proof (induction T arbitrary: p)
  case (Node l x r)
  obtain b c where "x = (b, c)" by force
  with Node.prems consider "a = b" "b \<noteq> 0" "b \<in> dom h" | "rtree h b l" "a \<in> set (seq l)" | "rtree h b r" "a \<in> set (seq r)"
    by auto
  then show ?case by cases (use Node.IH in blast)+
qed simp

lemma ptr_in: "T \<noteq> Leaf \<Longrightarrow> ptr T \<in> set (seq T)"
  by (cases T) auto

lemma ptr_zero: "rtree h p T \<Longrightarrow> ptr T = 0 \<longleftrightarrow> T = Leaf"
  by (cases T) auto

lemma rtree_reparent:
  "rtree h p T \<Longrightarrow> T \<noteq> Leaf \<Longrightarrow> distinct (seq T) \<Longrightarrow> h (ptr T) = Some e \<Longrightarrow>
   rtree (h(ptr T \<mapsto> e\<lparr>rbe_parent := q\<rparr>)) q T"
  by (cases T) auto

section \<open>Contexts\<close>

text \<open>A frame: the side of the focus, the node, its colour and the subtree on the other side.\<close>

type_synonym frame = "side \<times> nat \<times> rb_color \<times> rbt"

fun plug :: "frame list \<Rightarrow> rbt \<Rightarrow> rbt" where
  "plug [] s = s"
| "plug ((d, a, c, sib) # fs) s = plug fs (mk d s a c sib)"

fun par_of :: "frame list \<Rightarrow> nat" where
  "par_of [] = 0"
| "par_of ((d, a, c, sib) # fs) = a"

fun fset :: "frame list \<Rightarrow> nat set" where
  "fset [] = {}"
| "fset ((d, a, c, sib) # fs) = insert a (set (seq sib) \<union> fset fs)"

fun fdistinct :: "frame list \<Rightarrow> bool" where
  "fdistinct [] = True"
| "fdistinct ((d, a, c, sib) # fs) =
     (distinct (seq sib) \<and> a \<notin> set (seq sib) \<and> a \<notin> fset fs \<and> set (seq sib) \<inter> fset fs = {} \<and> fdistinct fs)"

fun rctx :: "(nat \<rightharpoonup> 'k rb_elm) \<Rightarrow> nat \<Rightarrow> frame list \<Rightarrow> nat \<Rightarrow> bool" where
  "rctx h root [] p = (root = p)"
| "rctx h root ((d, a, c, sib) # fs) p =
     (a \<noteq> 0 \<and> (\<exists>e. h a = Some e \<and> child d e = p \<and> child (flip d) e = ptr sib \<and> rbe_parent e = par_of fs \<and> rbe_color e = code c) \<and>
      rtree h a sib \<and> rctx h root fs a)"

lemma rctx_upd [simp]: "a \<notin> fset fs \<Longrightarrow> rctx (h(a := e)) root fs p = rctx h root fs p"
  by (induction fs arbitrary: p rule: fset.induct) auto

lemma set_plug: "set (seq (plug fs s)) = fset fs \<union> set (seq s)"
  by (induction fs s rule: plug.induct) auto

lemma distinct_plug:
  "distinct (seq (plug fs s)) \<longleftrightarrow> fdistinct fs \<and> distinct (seq s) \<and> fset fs \<inter> set (seq s) = {}"
  by (induction fs s rule: plug.induct) auto

lemma plug_append [simp]: "plug (gs @ fs) s = plug fs (plug gs s)"
  by (induction gs s rule: plug.induct) auto

lemma plug_Leaf [simp]: "plug fs s = Leaf \<longleftrightarrow> fs = [] \<and> s = Leaf"
  by (induction fs s rule: plug.induct) auto

text \<open>A tree in the heap, with the focus on a subtree.\<close>

definition focus :: "'k rb \<Rightarrow> frame list \<Rightarrow> rbt \<Rightarrow> bool" where
  "focus t fs s \<longleftrightarrow> rctx (rb_cells t) (rbh_root t) fs (ptr s) \<and> rtree (rb_cells t) (par_of fs) s \<and>
     fdistinct fs \<and> distinct (seq s) \<and> fset fs \<inter> set (seq s) = {}"

lemma focus_step: "focus t ((d, a, c, sib) # fs) s \<longleftrightarrow> focus t fs (mk d s a c sib)"
  by (auto simp: focus_def rtree_mk)

lemma focus_plug: "focus t (gs @ fs) s \<longleftrightarrow> focus t fs (plug gs s)"
  by (induction gs arbitrary: s) (auto simp: focus_step)

text \<open>What stays the same: the keys, and all elements outside a set.\<close>

definition rb_keys :: "'k rb \<Rightarrow> nat \<Rightarrow> 'k option" where
  "rb_keys t a = map_option rb_key (rb_cells t a)"

lemma rb_keys_upd [simp]:
  "rb_cells t p = Some e \<Longrightarrow> rb_key e' = rb_key e \<Longrightarrow> rb_keys (t\<lparr>rb_cells := (rb_cells t)(p \<mapsto> e')\<rparr>) = rb_keys t"
  "rb_keys (t\<lparr>rbh_root := r\<rparr>) = rb_keys t"
  by (auto simp: rb_keys_def fun_eq_iff)

section \<open>Moving pointers\<close>

lemma rtree_cong: "(\<And>a. a \<in> set (seq T) \<Longrightarrow> h' a = h a) \<Longrightarrow> rtree h' p T = rtree h p T"
  by (induction T arbitrary: p rule: tree.induct) (auto split: prod.splits)

lemma rctx_cong: "(\<And>a. a \<in> fset fs \<Longrightarrow> h' a = h a) \<Longrightarrow> rctx h' root fs p = rctx h root fs p"
proof (induction fs arbitrary: p rule: fset.induct)
  case (2 d a c sib fs)
  then have "rtree h' a sib = rtree h a sib" by (intro rtree_cong) auto
  with 2 show ?case by auto
qed simp

text \<open>Making \<open>q\<close> the child of the innermost frame, and giving a subtree a new parent.\<close>

lemma rb_replace_ok:
  assumes ctx: "rctx (rb_cells t) (rbh_root t) fs p" "fdistinct fs" "p \<noteq> 0" "p \<notin> fset fs"
  shows "\<exists>t'. rb_replace t (par_of fs) p q = Inr t' \<and> rctx (rb_cells t') (rbh_root t') fs q \<and>
    (\<forall>a. a \<notin> fset fs \<longrightarrow> rb_cells t' a = rb_cells t a) \<and> rb_keys t' = rb_keys t"
proof (cases fs)
  case Nil
  then show ?thesis by (simp add: rb_replace_def)
next
  case (Cons f gs)
  obtain d a c sib where f: "f = (d, a, c, sib)" by (cases f) auto
  with Cons ctx(1) obtain e where e: "a \<noteq> 0" "rb_cells t a = Some e" "child d e = p" "child (flip d) e = ptr sib"
    "rbe_parent e = par_of gs" "rbe_color e = code c" "rtree (rb_cells t) a sib" "rctx (rb_cells t) (rbh_root t) gs a" by auto
  have "ptr sib \<noteq> p" using ctx(3,4) Cons f ptr_in [of sib] by (cases "sib = Leaf") auto
  then have "rb_replace t a p q = Inr (t\<lparr>rb_cells := (rb_cells t)(a \<mapsto> upd_child d q e)\<rparr>)"
    using e by (cases d) (auto simp: rb_replace_def RB_LEFT_def put_left_def put_right_def)
  with e Cons f ctx(2) show ?thesis by auto
qed

lemma adopt_ok:
  assumes "rtree (rb_cells t) p m" "distinct (seq m)"
  shows "\<exists>t'. (if ptr m \<noteq> 0 then put_parent t (ptr m) x else Inr t) = Inr t' \<and> rtree (rb_cells t') x m \<and>
    rbh_root t' = rbh_root t \<and> (\<forall>a. a \<notin> set (seq m) \<longrightarrow> rb_cells t' a = rb_cells t a) \<and> rb_keys t' = rb_keys t"
proof (cases "m = Leaf")
  case False
  then obtain e where e: "rb_cells t (ptr m) = Some e" "ptr m \<noteq> 0" using assms(1) by (cases m) auto
  from rtree_reparent [OF assms(1) False assms(2) e(1)] e ptr_in [OF False] show ?thesis
    by (auto simp: put_parent_def)
qed simp

section \<open>Rotations\<close>

text \<open>Rotating at the node in focus towards side \<open>d\<close>.\<close>

lemma focus_rotate:
  assumes foc: "focus t fs (mk d l x c (mk d m y c' r))"
  shows "\<exists>t'. rotate_to d t x = Inr (t', y) \<and> focus t' fs (mk d (mk d l x c m) y c' r) \<and> rb_keys t' = rb_keys t"
proof -
  let ?h = "rb_cells t"
  from foc have ctx: "rctx ?h (rbh_root t) fs x" "fdistinct fs" "x \<notin> fset fs" "y \<notin> fset fs"
    and x0: "x \<noteq> 0" "y \<noteq> 0" "x \<noteq> y" "y \<noteq> x"
    and out: "x \<notin> set (seq l)" "x \<notin> set (seq m)" "x \<notin> set (seq r)" "y \<notin> set (seq l)" "y \<notin> set (seq m)" "y \<notin> set (seq r)"
    and dist: "distinct (seq l)" "distinct (seq m)" "distinct (seq r)"
    and disj: "set (seq l) \<inter> set (seq m) = {}" "set (seq l) \<inter> set (seq r) = {}" "set (seq m) \<inter> set (seq r) = {}"
      "fset fs \<inter> set (seq l) = {}" "fset fs \<inter> set (seq m) = {}" "fset fs \<inter> set (seq r) = {}"
    and lmr: "rtree ?h x l" "rtree ?h y m" "rtree ?h y r"
    by (auto simp: focus_def rtree_mk)
  from foc obtain ex ey where
    ex: "?h x = Some ex" "child d ex = ptr l" "child (flip d) ex = y" "rbe_parent ex = par_of fs" "rbe_color ex = code c" and
    ey: "?h y = Some ey" "child d ey = ptr m" "child (flip d) ey = ptr r" "rbe_parent ey = x" "rbe_color ey = code c'"
    by (auto simp: focus_def rtree_mk)
  let ?ex = "upd_child (flip d) (ptr m) ex" and ?ey = "ey\<lparr>rbe_parent := par_of fs\<rparr>"
  let ?t1 = "t\<lparr>rb_cells := ?h(x \<mapsto> ?ex)\<rparr>"
  have "rtree (rb_cells ?t1) y m" using lmr(2) out by simp
  from adopt_ok [OF this dist(2), of x] obtain t2 where
    t2: "(if ptr m \<noteq> 0 then put_parent ?t1 (ptr m) x else Inr ?t1) = Inr t2" "rtree (rb_cells t2) x m"
      "rbh_root t2 = rbh_root t" "\<forall>a. a \<notin> set (seq m) \<longrightarrow> rb_cells t2 a = rb_cells ?t1 a" "rb_keys t2 = rb_keys t"
    using ex by auto
  have c2: "rb_cells t2 x = Some ?ex" "rb_cells t2 y = Some ey" using t2(4) out x0 ey by auto
  let ?t3 = "t2\<lparr>rb_cells := (rb_cells t2)(y \<mapsto> ?ey)\<rparr>"
  have ctx3: "rctx (rb_cells ?t3) (rbh_root ?t3) fs x"
  proof -
    have "rb_cells ?t3 a = ?h a" if "a \<in> fset fs" for a
      using t2(4) that ctx(3,4) disj(5) by (auto simp: disjoint_iff)
    with ctx(1) t2(3) show ?thesis by (subst rctx_cong [of fs _ ?h]) simp_all
  qed
  from rb_replace_ok [OF ctx3 ctx(2) x0(1) ctx(3), of y] obtain t4 where
    t4: "rb_replace ?t3 (par_of fs) x y = Inr t4" "rctx (rb_cells t4) (rbh_root t4) fs y"
      "\<forall>a. a \<notin> fset fs \<longrightarrow> rb_cells t4 a = rb_cells ?t3 a" "rb_keys t4 = rb_keys ?t3" by blast
  have c4: "rb_cells t4 x = Some ?ex" "rb_cells t4 y = Some ?ey" using t4(3) ctx(3,4) c2 x0 by auto
  let ?t5 = "t4\<lparr>rb_cells := (rb_cells t4)(y \<mapsto> upd_child d x ?ey)\<rparr>"
  let ?t6 = "t4\<lparr>rb_cells := (rb_cells t4)(y \<mapsto> upd_child d x ?ey, x \<mapsto> ?ex\<lparr>rbe_parent := y\<rparr>)\<rparr>"
  have run: "rotate_to d t x = Inr (?t6, y)"
    using ex ey c2 c4 t2(1) t4(1) x0
    by (simp add: rotate_to_eq put_child_eq put_parent_def cong: if_cong)
  have keys: "rb_keys ?t6 = rb_keys t"
    using c4 t4(4) c2 t2(5) x0 ex(1) ey(1) by (auto simp: rb_keys_def fun_eq_iff split: if_splits)
  have same: "rb_cells ?t6 a = ?h a" if "a \<notin> fset fs" "a \<notin> set (seq m)" "a \<noteq> x" "a \<noteq> y" for a
    using that t4(3) t2(4) by simp
  have "rb_cells ?t6 a = ?h a" if "a \<in> set (seq l) \<union> set (seq r)" for a
    using that disj out by (intro same) (auto simp: disjoint_iff)
  then have tr: "rtree (rb_cells ?t6) x l" "rtree (rb_cells ?t6) y r"
    using lmr(1,3) rtree_cong [of l "rb_cells ?t6" ?h] rtree_cong [of r "rb_cells ?t6" ?h] by blast+
  have "rb_cells ?t6 a = rb_cells t2 a" if "a \<in> set (seq m)" for a
    using that t4(3) disj(5) out by (auto simp: disjoint_iff)
  then have trm: "rtree (rb_cells ?t6) x m" using t2(2) by (subst rtree_cong [of _ _ "rb_cells t2"])
  have "rctx (rb_cells ?t6) (rbh_root ?t6) fs y" using t4(2) ctx(3,4) by simp
  then have "focus ?t6 fs (mk d (mk d l x c m) y c' r)"
    using tr trm x0 ctx out dist disj ex ey by (auto simp: focus_def rtree_mk)
  with run keys show ?thesis by blast
qed

section \<open>Recolouring\<close>

lemma focus_color:
  assumes "focus t fs (mk d l x c r)"
  shows "\<exists>t'. put_color t x (code c') = Inr t' \<and> focus t' fs (mk d l x c' r) \<and> rb_keys t' = rb_keys t"
  using assms by (auto simp: focus_def rtree_mk put_color_def)

lemmas focus_black = focus_color [where c' = Black, simplified]
  and focus_red = focus_color [where c' = Red, simplified]

text \<open>What the accessors read at the node in focus.\<close>

lemma focus_reads:
  assumes "focus t fs (mk d l x c r)"
  shows "x \<noteq> 0" "get_child d t x = Inr (ptr l)" "get_child (flip d) t x = Inr (ptr r)"
    "RB_PARENT t x = Inr (par_of fs)" "RB_COLOR t x = Inr (code c)"
  using assms by (auto simp: focus_def rtree_mk)

lemma focus_root:
  assumes "focus t fs s"
  shows "rbh_root t = ptr (plug fs s)"
  using assms
proof (induction fs s rule: plug.induct)
  case (1 s)
  then show ?case by (simp add: focus_def)
qed (simp add: focus_step)

lemma focus_color_of:
  assumes "focus t fs s"
  shows "is_red t (ptr s) = Inr (s \<noteq> Leaf \<and> color_of s = Red)" "null_or_black t (ptr s) = Inr (color_of s = Black)"
  using assms by (cases s; auto simp: focus_def is_red_def null_or_black_def)+

lemma focus_sub:
  assumes "focus t fs (mk d l x c r)"
  shows "focus t ((d, x, c, r) # fs) l" "focus t ((flip d, x, c, l) # fs) r"
  using assms by (simp_all add: focus_step mk_flip)

lemma focus_nonnull: "focus t fs s \<Longrightarrow> ptr s = 0 \<longleftrightarrow> s = Leaf"
  by (cases s) (auto simp: focus_def)

lemma focus_par: "focus t fs s \<Longrightarrow> par_of fs = 0 \<longleftrightarrow> fs = []"
  by (cases fs) (auto simp: focus_def)

lemma focus_siblings: "focus t fs (mk d l x c r) \<Longrightarrow> l \<noteq> Leaf \<or> r \<noteq> Leaf \<Longrightarrow> ptr l \<noteq> ptr r"
  by (auto simp: focus_def rtree_mk disjoint_iff) (metis ptr_in ptr_zero rtree_dom)+

section \<open>The invariants of a red-black tree\<close>

fun no_red_red :: "rbt \<Rightarrow> bool" where
  "no_red_red Leaf = True"
| "no_red_red (Node l (a, c) r) =
     ((c = Red \<longrightarrow> color_of l = Black \<and> color_of r = Black) \<and> no_red_red l \<and> no_red_red r)"

fun blacks :: "rbt \<Rightarrow> nat" where
  "blacks Leaf = 0"
| "blacks (Node l (a, c) r) = (if c = Black then Suc (blacks l) else blacks l)"

fun balanced :: "rbt \<Rightarrow> bool" where
  "balanced Leaf = True"
| "balanced (Node l (a, c) r) = (blacks l = blacks r \<and> balanced l \<and> balanced r)"

fun blacken :: "rbt \<Rightarrow> rbt" where
  "blacken Leaf = Leaf"
| "blacken (Node l (a, c) r) = Node l (a, Black) r"

lemma balanced_mk [simp]: "balanced (mk d l a c r) \<longleftrightarrow> blacks l = blacks r \<and> balanced l \<and> balanced r"
  by (cases d) auto

lemma blacks_mk: "balanced (mk d l a c r) \<Longrightarrow> blacks (mk d l a c r) = (if c = Black then Suc (blacks l) else blacks l)"
  by (cases d) auto

lemma no_red_red_mk [simp]:
  "no_red_red (mk d l a c r) \<longleftrightarrow>
     (c = Red \<longrightarrow> color_of l = Black \<and> color_of r = Black) \<and> no_red_red l \<and> no_red_red r"
  by (cases d) auto

lemma blacken_mk [simp]: "blacken (mk d l a c r) = mk d l a Black r"
  by (cases d) auto

lemma blacken_black: "color_of s = Black \<Longrightarrow> blacken s = s"
  by (cases s) auto

lemma blacken_simps [simp]: "color_of (blacken s) = Black" "balanced (blacken s) = balanced s"
  "seq (blacken s) = seq s" "ptr (blacken s) = ptr s"
  by (cases s; auto)+

lemma no_red_red_blacken: "no_red_red s \<Longrightarrow> no_red_red (blacken s)"
  by (cases s) auto

definition rb_tree :: "rbt \<Rightarrow> bool" where
  "rb_tree T \<longleftrightarrow> no_red_red T \<and> balanced T \<and> color_of T = Black"

text \<open>A context that takes a subtree with \<open>n\<close> black nodes on its paths and a root of colour \<open>c\<close>.\<close>

fun accepts :: "frame list \<Rightarrow> nat \<Rightarrow> rb_color \<Rightarrow> bool" where
  "accepts [] n c = True"
| "accepts ((d, a, k, sib) # fs) n c =
     ((k = Red \<longrightarrow> c = Black \<and> color_of sib = Black) \<and> no_red_red sib \<and> balanced sib \<and> blacks sib = n \<and>
      accepts fs (if k = Black then Suc n else n) k)"

lemma accepts_plug:
  "no_red_red (plug fs s) \<and> balanced (plug fs s) \<longleftrightarrow> no_red_red s \<and> balanced s \<and> accepts fs (blacks s) (color_of s)"
proof (induction fs s rule: plug.induct)
  case (2 d a c sib fs s)
  then show ?case by (cases "blacks sib = blacks s") (auto simp: blacks_mk)
qed simp

lemma accepts_black: "accepts fs n c \<Longrightarrow> accepts fs n Black"
  by (cases "(fs, n, c)" rule: accepts.cases) auto

end
