(* ===== verification/Rb_Insert.thy ===== *)
theory Rb_Insert
  imports Rb_Focus
begin

text \<open>
  Insertion into the red-black trees of \<open>utils/tree.h\<close>: the loop of
  \<open>RB_INSERT_COLOR\<close> restores the invariants whatever the shape of the tree, and
  \<open>RB_INSERT\<close> puts the element at its place in the ascending sequence.
\<close>

section \<open>Repairing the colours after an insertion\<close>

definition insert_fix :: "side \<Rightarrow> 'k rb \<Rightarrow> nat \<Rightarrow> nat \<Rightarrow> nat \<Rightarrow> ('k rb \<times> nat) exec" where
  "insert_fix d t gparent parent elm =
     bindE (get_child (flip d) t gparent) (\<lambda>tmp.
     bindE (is_red t tmp) (\<lambda>red.
     if red then
       bindE (put_color t tmp RB_BLACK) (\<lambda>t.
       bindE (RB_SET_BLACKRED t parent gparent) (\<lambda>t.
       Inr (t, gparent)))
     else
       bindE (get_child (flip d) t parent) (\<lambda>q.
       bindE (if q = elm then bindE (rotate_to d t parent) (\<lambda>(t, tmp). Inr (t, elm, parent))
              else Inr (t, parent, elm)) (\<lambda>(t, parent, elm).
       bindE (RB_SET_BLACKRED t parent gparent) (\<lambda>t.
       bindE (rotate_to (flip d) t gparent) (\<lambda>(t, tmp).
       Inr (t, elm)))))))"

lemma insert_fix_sides:
  "insert_fix_left = insert_fix Lft" "insert_fix_right = insert_fix Rgt"
  by (simp_all add: fun_eq_iff insert_fix_def insert_fix_left_def insert_fix_right_def get_child_def rotate_to_def
      cong: if_cong)

text \<open>Recolouring parent and grandparent.\<close>

lemma focus_blackred:
  assumes "focus t fs (mk d (mk d' a p c b) g k u)"
  shows "\<exists>t'. RB_SET_BLACKRED t p g = Inr t' \<and> focus t' fs (mk d (mk d' a p Black b) g Red u) \<and> rb_keys t' = rb_keys t"
proof -
  from focus_black [OF focus_sub(1) [OF assms]] obtain t1 where
    t1: "put_color t p RB_BLACK = Inr t1" "focus t1 ((d, g, k, u) # fs) (mk d' a p Black b)" "rb_keys t1 = rb_keys t" by blast
  from focus_red [OF t1(2) [unfolded focus_step]] obtain t2 where
    t2: "put_color t1 g RB_RED = Inr t2" "focus t2 fs (mk d (mk d' a p Black b) g Red u)" "rb_keys t2 = rb_keys t1" by blast
  from t1 t2 show ?thesis by (simp add: RB_SET_BLACKRED_def)
qed

lemma insert_fix_red_uncle:
  assumes foc: "focus t fs (mk d (mk d' s p Red sp) g Black u)" and u: "u \<noteq> Leaf" "color_of u = Red"
  shows "\<exists>t'. insert_fix d t g p x = Inr (t', g) \<and>
    focus t' fs (mk d (mk d' s p Black sp) g Red (blacken u)) \<and> rb_keys t' = rb_keys t"
proof -
  from u obtain ul q ur where uq: "u = mk d ul q Red ur" using mk_exhaust [of u d] by auto
  note foc_u = focus_sub(2) [OF foc]
  from focus_black [OF foc_u [unfolded uq]] obtain t1 where
    t1: "put_color t q RB_BLACK = Inr t1" "focus t1 fs (mk d (mk d' s p Red sp) g Black (blacken u))" "rb_keys t1 = rb_keys t"
    unfolding focus_step mk_flip uq by auto
  from focus_blackred [OF t1(2)] obtain t2 where
    t2: "RB_SET_BLACKRED t1 p g = Inr t2" "focus t2 fs (mk d (mk d' s p Black sp) g Red (blacken u))" "rb_keys t2 = rb_keys t1"
    by blast
  have "is_red t q = Inr True" using focus_color_of(1) [OF foc_u] u uq by simp
  with t1 t2 focus_reads(3) [OF foc] uq show ?thesis by (simp add: insert_fix_def)
qed

text \<open>With a black uncle a last rotation ends the repair; a child on the inner side is first rotated outwards.\<close>

lemma insert_fix_outer:
  assumes foc: "focus t fs (mk d (mk d A p Red B) g Black u)"
  shows "\<exists>t1 t'. RB_SET_BLACKRED t p g = Inr t1 \<and> rotate_to (flip d) t1 g = Inr (t', p) \<and>
    focus t' fs (mk d A p Black (mk d B g Red u)) \<and> rb_keys t' = rb_keys t"
proof -
  from focus_blackred [OF foc] obtain t1 where
    t1: "RB_SET_BLACKRED t p g = Inr t1" "focus t1 fs (mk d (mk d A p Black B) g Red u)" "rb_keys t1 = rb_keys t" by blast
  then have "focus t1 fs (mk (flip d) u g Red (mk (flip d) B p Black A))" by (simp add: mk_flip)
  from focus_rotate [OF this] obtain t2 where
    "rotate_to (flip d) t1 g = Inr (t2, p)" "focus t2 fs (mk d A p Black (mk d B g Red u))" "rb_keys t2 = rb_keys t1"
    by (auto simp: mk_flip)
  with t1 show ?thesis by auto
qed

lemma insert_fix_black_uncle:
  assumes foc: "focus t fs (mk d (mk d' (mk d a x Red b) p Red sp) g Black u)" and u: "\<not> (u \<noteq> Leaf \<and> color_of u = Red)"
  shows "\<exists>t' A y B q. insert_fix d t g p x = Inr (t', y) \<and>
    focus t' fs (mk d (mk d A y Red B) q Black (mk d (if d' = d then sp else b) g Red u)) \<and> rb_keys t' = rb_keys t \<and>
    (if d' = d then A = a \<and> y = x \<and> B = b \<and> q = p else A = sp \<and> y = p \<and> B = a \<and> q = x)"
proof -
  have red: "is_red t (ptr u) = Inr False" using focus_color_of(1) [OF focus_sub(2) [OF foc]] u by simp
  note foc_p = focus_sub(1) [OF foc]
  show ?thesis
  proof (cases "d' = d")
    case True
    have "ptr sp \<noteq> x" using focus_siblings [OF foc_p] by auto
    then have q: "get_child (flip d) t p = Inr (ptr sp)" "ptr sp \<noteq> x" using focus_reads(3) [OF foc_p] True by auto
    from insert_fix_outer [OF foc [unfolded True]] obtain t1 t' where
      "RB_SET_BLACKRED t p g = Inr t1" "rotate_to (flip d) t1 g = Inr (t', p)"
      "focus t' fs (mk d (mk d a x Red b) p Black (mk d sp g Red u))" "rb_keys t' = rb_keys t" by blast
    with True q red focus_reads(3) [OF foc] show ?thesis by (auto simp: insert_fix_def)
  next
    case False
    then have d': "d' = flip d" by (cases d; cases d') auto
    have foc_p': "focus t ((d, g, Black, u) # fs) (mk d sp p Red (mk d a x Red b))"
      using foc_p by (simp add: d' mk_flip)
    have q: "get_child (flip d) t p = Inr x" using focus_reads(3) [OF foc_p'] by simp
    from focus_rotate [OF foc_p'] obtain t0 where
      t0: "rotate_to d t p = Inr (t0, x)" "focus t0 fs (mk d (mk d (mk d sp p Red a) x Red b) g Black u)" "rb_keys t0 = rb_keys t"
      by (auto simp: focus_step)
    from insert_fix_outer [OF t0(2)] obtain t1 t' where
      "RB_SET_BLACKRED t0 x g = Inr t1" "rotate_to (flip d) t1 g = Inr (t', x)"
      "focus t' fs (mk d (mk d sp p Red a) x Black (mk d b g Red u))" "rb_keys t' = rb_keys t0" by blast
    with False q red t0 focus_reads(3) [OF foc] show ?thesis by (auto simp: insert_fix_def)
  qed
qed

text \<open>The sequence of a tree splits at the focus.\<close>

fun lpart :: "frame list \<Rightarrow> nat list" where
  "lpart [] = []"
| "lpart ((d, a, c, sib) # fs) = lpart fs @ (if d = Rgt then seq sib @ [a] else [])"

fun rpart :: "frame list \<Rightarrow> nat list" where
  "rpart [] = []"
| "rpart ((d, a, c, sib) # fs) = (if d = Lft then a # seq sib else []) @ rpart fs"

lemma seq_plug: "seq (plug fs s) = lpart fs @ seq s @ rpart fs"
proof (induction fs s rule: plug.induct)
  case (2 d a c sib fs s)
  then show ?case by (cases d) auto
qed simp

definition top_black :: "frame list \<Rightarrow> bool" where
  "top_black fs \<longleftrightarrow> fs = [] \<or> color_of (plug fs Leaf) = Black"

lemma top_black_Nil [simp]: "top_black []"
  by (simp add: top_black_def)

lemma color_of_plug: "fs \<noteq> [] \<Longrightarrow> color_of (plug fs s) = color_of (plug fs s')"
proof (induction fs arbitrary: s s')
  case (Cons f fs)
  obtain d a c sib where "f = (d, a, c, sib)" by (cases f) auto
  with Cons show ?case by (cases "fs = []") auto
qed simp

lemma top_black_step: "top_black ((d, a, c, sib) # fs) \<longleftrightarrow> (if fs = [] then c = Black else top_black fs)"
  using color_of_plug [of fs "mk d Leaf a c sib" Leaf] by (auto simp: top_black_def)

definition insert_inv :: "'k rb \<Rightarrow> nat list \<Rightarrow> nat \<Rightarrow> 'k rb \<times> nat \<Rightarrow> bool" where
  "insert_inv t0 xs n = (\<lambda>(t, x). \<exists>fs s. focus t fs s \<and> s \<noteq> Leaf \<and> ptr s = x \<and> color_of s = Red \<and>
     no_red_red s \<and> balanced s \<and> accepts fs (blacks s) Black \<and> top_black fs \<and>
     seq (plug fs s) = xs \<and> rb_keys t = rb_keys t0 \<and> length fs = n)"

definition insert_post :: "'k rb \<Rightarrow> nat list \<Rightarrow> 'k rb \<times> nat \<Rightarrow> bool" where
  "insert_post t0 xs = (\<lambda>(t, x). \<exists>T. focus t [] T \<and> T \<noteq> Leaf \<and> no_red_red T \<and> balanced T \<and>
     seq T = xs \<and> rb_keys t = rb_keys t0)"

lemma insert_done:
  assumes "focus t fs s" "s \<noteq> Leaf" "no_red_red s" "balanced s" "accepts fs (blacks s) Black"
    and "seq (plug fs s) = xs" "rb_keys t = rb_keys t0" "fs = [] \<or> (\<exists>d a sib gs. fs = (d, a, Black, sib) # gs)"
  shows "insert_post t0 xs (t, x)"
proof -
  have "accepts fs (blacks s) (color_of s)" using assms(5,8) by auto
  then have "no_red_red (plug fs s) \<and> balanced (plug fs s)" using assms(3,4) accepts_plug by blast
  moreover have "focus t [] (plug fs s)" using assms(1) focus_plug [of t fs "[]" s] by simp
  moreover have "plug fs s \<noteq> Leaf" using assms(2) by simp
  ultimately show ?thesis using assms(6,7) by (auto simp: insert_post_def)
qed

lemma focus_left_child:
  assumes "focus t ((d, g, k, u) # fs) P" "P \<noteq> Leaf \<or> u \<noteq> Leaf"
  shows "\<exists>l. RB_LEFT t g = Inr l \<and> (ptr P = l \<longleftrightarrow> d = Lft)"
proof -
  have foc: "focus t fs (mk d P g k u)" using assms(1) by (simp add: focus_step)
  show ?thesis
    using focus_reads(2,3) [OF foc] focus_siblings [OF foc] assms(2) by (cases d) (auto simp: get_child_def)
qed

lemma insert_step_up:
  assumes foc: "focus t fs (mk d (mk d' s p Red sp) g Black u)" and u: "u \<noteq> Leaf" "color_of u = Red"
    and s: "no_red_red s" "balanced s" "color_of s = Red" and top: "top_black fs"
    and acc: "accepts ((d', p, Red, sp) # (d, g, Black, u) # fs) (blacks s) Black"
    and xs: "seq (plug fs (mk d (mk d' s p Red sp) g Black u)) = xs" and keys: "rb_keys t = rb_keys t0"
  shows "\<exists>t'. insert_fix d t g p x = Inr (t', g) \<and> insert_inv t0 xs (length fs) (t', g)"
proof -
  from insert_fix_red_uncle [OF foc u] obtain t' where
    t': "insert_fix d t g p x = Inr (t', g)" "focus t' fs (mk d (mk d' s p Black sp) g Red (blacken u))" "rb_keys t' = rb_keys t"
    by blast
  from u obtain ul q ur where uq: "u = mk d ul q Red ur" using mk_exhaust [of u d] by auto
  let ?S = "mk d (mk d' s p Black sp) g Red (blacken u)"
  have bal: "balanced ?S" and red: "no_red_red ?S" and b: "blacks ?S = Suc (blacks s)"
    using acc s by (auto simp: uq blacks_mk)
  have "seq (plug fs ?S) = xs" using xs by (cases d; cases d') (auto simp: seq_plug)
  with t' bal red b acc top keys show ?thesis unfolding insert_inv_def prod.case by (intro exI [of _ t'] conjI exI [of _ fs] exI [of _ ?S]) auto
qed

lemma insert_step_last:
  assumes foc: "focus t fs (mk d (mk d' (mk d a x Red b) p Red sp) g Black u)" and u: "\<not> (u \<noteq> Leaf \<and> color_of u = Red)"
    and s: "no_red_red (mk d a x Red b)" "balanced (mk d a x Red b)" and top: "top_black fs"
    and acc: "accepts ((d', p, Red, sp) # (d, g, Black, u) # fs) (blacks a) Black"
    and xs: "seq (plug fs (mk d (mk d' (mk d a x Red b) p Red sp) g Black u)) = xs" and keys: "rb_keys t = rb_keys t0"
  shows "\<exists>t' y. insert_fix d t g p x = Inr (t', y) \<and> insert_inv t0 xs (Suc (length fs)) (t', y)"
proof -
  from insert_fix_black_uncle [OF foc u] obtain t' A y B q where
    t': "insert_fix d t g p x = Inr (t', y)" "rb_keys t' = rb_keys t"
      "focus t' fs (mk d (mk d A y Red B) q Black (mk d (if d' = d then sp else b) g Red u))"
    and shape: "if d' = d then A = a \<and> y = x \<and> B = b \<and> q = p else A = sp \<and> y = p \<and> B = a \<and> q = x" by blast
  let ?C = "if d' = d then sp else b"
  have foc': "focus t' ((d, q, Black, mk d ?C g Red u) # fs) (mk d A y Red B)" using t'(3) by (simp add: focus_step)
  have uc: "color_of u = Black" using u by (cases "u = Leaf") auto
  have "blacks A = blacks a \<and> blacks B = blacks a \<and> blacks ?C = blacks a"
    "no_red_red A \<and> no_red_red B \<and> no_red_red ?C \<and> balanced A \<and> balanced B \<and> balanced ?C"
    "color_of A = Black \<and> color_of B = Black \<and> color_of ?C = Black"
    using s acc shape by (auto simp: blacks_mk split: if_splits)
  moreover have "accepts ((d, q, Black, mk d ?C g Red u) # fs) (blacks (mk d A y Red B)) Black"
    using calculation acc uc by (auto simp: blacks_mk)
  moreover have "top_black ((d, q, Black, mk d ?C g Red u) # fs)" using top by (simp add: top_black_step)
  moreover have "seq (plug ((d, q, Black, mk d ?C g Red u) # fs) (mk d A y Red B)) = xs"
    using xs shape by (cases d; cases d') (auto simp: seq_plug split: if_splits)
  ultimately show ?thesis
    using t'(1,2) foc' keys unfolding insert_inv_def prod.case
    by (intro exI [of _ t'] exI [of _ y] conjI exI [of _ "(d, q, Black, mk d ?C g Red u) # fs"] exI [of _ "mk d A y Red B"]) auto
qed

lemma insert_color_step:
  assumes inv: "insert_inv t0 xs n s"
  shows "\<exists>s' leave. insert_color_body s = Inr (s', leave) \<and>
    (if leave then insert_post t0 xs s' else \<exists>n'<n. insert_inv t0 xs n' s')"
proof -
  obtain t x where s: "s = (t, x)" by force
  with inv obtain fs S where foc: "focus t fs S" and S: "S \<noteq> Leaf" "ptr S = x" "color_of S = Red" "no_red_red S" "balanced S"
    and acc: "accepts fs (blacks S) Black" "top_black fs" and xs: "seq (plug fs S) = xs" and keys: "rb_keys t = rb_keys t0"
    and n: "length fs = n" by (auto simp: insert_inv_def)
  have par: "RB_PARENT t x = Inr (par_of fs)"
    using S(1,2) focus_reads(4) [of t fs Lft _ x] foc mk_exhaust [of S Lft] by auto
  note finish = insert_done [OF foc S(1,4,5) acc(1) xs keys, of x]
  show ?thesis
  proof (cases fs)
    case Nil
    with par finish s show ?thesis by (auto simp: insert_color_body_def is_red_def)
  next
    case (Cons f gs)
    obtain d' p c sp where f: "f = (d', p, c, sp)" by (cases f) auto
    have foc_p: "focus t gs (mk d' S p c sp)" using foc Cons f by (simp add: focus_step)
    have red: "is_red t p = Inr (c = Red)" using focus_color_of(1) [OF foc_p] by simp
    show ?thesis
    proof (cases c)
      case Black
      with Cons f par red finish s show ?thesis by (auto simp: insert_color_body_def)
    next
      case Red
      with acc(2) Cons f have "gs \<noteq> []" by (auto simp: top_black_step)
      then obtain d g k u hs where gs: "gs = (d, g, k, u) # hs" by (cases gs) auto
      have k: "k = Black" using acc(1) Cons f Red gs by auto
      have foc_g: "focus t hs (mk d (mk d' S p Red sp) g Black u)" using foc_p gs k Red by (simp add: focus_step)
      have top: "top_black hs" using acc(2) Cons f gs by (auto simp: top_black_step split: if_splits)
      obtain l where l: "RB_LEFT t g = Inr l" "p = l \<longleftrightarrow> d = Lft"
        using focus_left_child [of t d g k u hs "mk d' S p c sp"] foc_p gs by auto
      have start: "insert_color_body s = bindE (insert_fix d t g p x) (\<lambda>s. Inr (s, False))"
        using s par Cons f red Red focus_reads(4) [OF foc_p] gs l
        by (cases d) (simp_all add: insert_color_body_def insert_fix_sides)
      have acc': "accepts ((d', p, Red, sp) # (d, g, Black, u) # hs) (blacks S) Black" using acc(1) Cons f gs k Red by simp
      have xs': "seq (plug hs (mk d (mk d' S p Red sp) g Black u)) = xs" using xs Cons f gs k Red by simp
      show ?thesis
      proof (cases "u \<noteq> Leaf \<and> color_of u = Red")
        case True
        with insert_step_up [OF foc_g _ _ S(4,5,3) top acc' xs' keys] obtain t' where
          t': "insert_fix d t g p x = Inr (t', g)" "insert_inv t0 xs (length hs) (t', g)" by blast
        have "length hs < n" using n Cons gs by auto
        with start t' show ?thesis by (intro exI [of _ "(t', g)"] exI [of _ False]) auto
      next
        case False
        from S(1,2,3) obtain a b where ab: "S = mk d a x Red b" using mk_exhaust [of S d] by auto
        have "accepts ((d', p, Red, sp) # (d, g, Black, u) # hs) (blacks a) Black" using acc' S(5) by (simp add: ab blacks_mk)
        from insert_step_last [OF foc_g [unfolded ab] False S(4,5) [unfolded ab] top this xs' [unfolded ab] keys]
        obtain t' y where t': "insert_fix d t g p x = Inr (t', y)" "insert_inv t0 xs (Suc (length hs)) (t', y)" by blast
        have "Suc (length hs) < n" using n Cons gs by auto
        with start t' show ?thesis by (intro exI [of _ "(t', y)"] exI [of _ False]) auto
      qed
    qed
  qed
qed

lemma RB_INSERT_COLOR_ok:
  assumes inv: "insert_inv t0 xs n (t, x)"
  shows "\<exists>t' T. RB_INSERT_COLOR x t = Some (Inr t') \<and> focus t' [] T \<and> rb_tree T \<and> seq T = xs \<and> rb_keys t' = rb_keys t0"
proof -
  have step: "\<exists>s' leave. Some (insert_color_body s) = Some (Inr (s', leave)) \<and>
      (if leave then insert_post t0 xs s' else \<exists>n'<n. insert_inv t0 xs n' s')" if "insert_inv t0 xs n s" for n s
    using insert_color_step [OF that] by (simp only: option.inject)
  from c_loop_rule [where I = "insert_inv t0 xs" and body = "\<lambda>s. Some (insert_color_body s)"
      and Q = "insert_post t0 xs", OF step inv] obtain t1 y where
    t1: "c_loop (\<lambda>s. Some (insert_color_body s)) (t, x) = Some (Inr (t1, y))" "insert_post t0 xs (t1, y)" by fastforce
  then obtain T where T: "focus t1 [] T" "T \<noteq> Leaf" "no_red_red T" "balanced T" "seq T = xs" "rb_keys t1 = rb_keys t0"
    by (auto simp: insert_post_def)
  from T(2) obtain l a c r where mk: "T = mk Lft l a c r" using mk_exhaust by blast
  have "rbh_root t1 = a" using focus_root [OF T(1)] mk by simp
  moreover from focus_black [OF T(1) [unfolded mk]] obtain t2 where
    "put_color t1 a RB_BLACK = Inr t2" "focus t2 [] (mk Lft l a Black r)" "rb_keys t2 = rb_keys t1" by blast
  moreover have "rb_tree (mk Lft l a Black r)" using T(3,4) mk by (auto simp: rb_tree_def)
  moreover have "seq (mk Lft l a Black r) = xs" using T(5) mk by simp
  ultimately show ?thesis using t1(1) T(6) by (auto simp: RB_INSERT_COLOR_def)
qed

section \<open>Descending to a place\<close>

abbreviation rbkey :: "'k rb \<Rightarrow> nat \<Rightarrow> 'k" where
  "rbkey t a \<equiv> the (rb_keys t a)"

lemma rb_cmp_ok: "rb_keys t p = Some a \<Longrightarrow> rb_keys t q = Some b \<Longrightarrow> rb_cmp cmp t p q = Inr (cmp a b)"
  by (auto simp: rb_cmp_def rb_keys_def)

lemma focus_keys: "focus t fs s \<Longrightarrow> a \<in> set (seq s) \<Longrightarrow> rb_keys t a = Some (rbkey t a)"
  by (auto simp: focus_def rb_keys_def dest: rtree_dom)

text \<open>The path leads to a place between smaller and greater elements.\<close>

definition between :: "('k \<Rightarrow> 'k \<Rightarrow> int) \<Rightarrow> (nat \<Rightarrow> 'k) \<Rightarrow> 'k \<Rightarrow> frame list \<Rightarrow> bool" where
  "between cmp key k fs \<longleftrightarrow> (\<forall>y\<in>set (lpart fs). cmp (key y) k < 0) \<and> (\<forall>y\<in>set (rpart fs). cmp k (key y) < 0)"

lemma between_Nil [simp]: "between cmp key k []"
  by (simp add: between_def)

text \<open>One comparison at a node: which way the path goes on.\<close>

lemma between_step:
  assumes asc: "ascending cmp key (seq (plug fs (Node l (a, c) r)))" and b: "between cmp key k fs"
  shows "cmp k (key a) < 0 \<Longrightarrow> between cmp key k ((Lft, a, c, r) # fs)"
    "0 < cmp k (key a) \<Longrightarrow> between cmp key k ((Rgt, a, c, l) # fs)"
proof -
  have ok: "cmp_ok cmp" using asc by auto
  have l: "cmp (key y) (key a) < 0" if "y \<in> set (seq l)" for y
    using asc that by (auto simp: seq_plug ascending_simps)
  have r: "cmp (key a) (key y) < 0" if "y \<in> set (seq r)" for y
    using asc that by (auto simp: seq_plug ascending_simps)
  show "between cmp key k ((Lft, a, c, r) # fs)" if "cmp k (key a) < 0"
    using b r cmp_less_trans [OF ok that] that by (auto simp: between_def)
  show "between cmp key k ((Rgt, a, c, l) # fs)" if "0 < cmp k (key a)"
  proof -
    have a: "cmp (key a) k < 0" using that cmp_flip [OF ok] by blast
    show ?thesis using b l a cmp_less_trans [OF ok _ a] by (auto simp: between_def)
  qed
qed

definition descend_inv ::
  "('k \<Rightarrow> 'k \<Rightarrow> int) \<Rightarrow> 'k rb \<Rightarrow> 'k \<Rightarrow> rbt \<Rightarrow> nat \<Rightarrow> nat \<times> nat \<times> int \<Rightarrow> bool" where
  "descend_inv cmp t k T n = (\<lambda>(tmp, parent, comp). \<exists>fs s. focus t fs s \<and> plug fs s = T \<and> tmp = ptr s \<and>
     parent = par_of fs \<and> (\<forall>d a c sib gs. fs = (d, a, c, sib) # gs \<longrightarrow> (comp < 0 \<longleftrightarrow> d = Lft)) \<and>
     between cmp (rbkey t) k fs \<and> size s = n)"

definition descend_post ::
  "('k \<Rightarrow> 'k \<Rightarrow> int) \<Rightarrow> 'k rb \<Rightarrow> 'k \<Rightarrow> rbt \<Rightarrow> nat \<times> nat \<times> int \<Rightarrow> bool" where
  "descend_post cmp t k T = (\<lambda>(tmp, parent, comp).
     if tmp \<noteq> 0 then tmp \<in> set (seq T) \<and> cmp k (rbkey t tmp) = 0
     else \<exists>fs. focus t fs Leaf \<and> plug fs Leaf = T \<and> parent = par_of fs \<and>
       (\<forall>d a c sib gs. fs = (d, a, c, sib) # gs \<longrightarrow> (comp < 0 \<longleftrightarrow> d = Lft)) \<and> between cmp (rbkey t) k fs)"

lemma descend_step:
  assumes inv: "descend_inv cmp t k T n s" and asc: "ascending cmp (rbkey t) (seq T)" and x: "rb_keys t x = Some k"
  shows "\<exists>s' leave. descend_body cmp t x s = Inr (s', leave) \<and>
    (if leave then descend_post cmp t k T s' else \<exists>n'<n. descend_inv cmp t k T n' s')"
proof -
  obtain tmp parent comp where s: "s = (tmp, parent, comp)" by (cases s) auto
  with inv obtain fs S where foc: "focus t fs S" and T: "plug fs S = T" and tmp: "tmp = ptr S" and par: "parent = par_of fs"
    and comp: "\<forall>d a c sib gs. fs = (d, a, c, sib) # gs \<longrightarrow> (comp < 0 \<longleftrightarrow> d = Lft)"
    and bet: "between cmp (rbkey t) k fs" and n: "size S = n" by (auto simp: descend_inv_def)
  show ?thesis
  proof (cases S)
    case Leaf
    with foc T tmp par comp bet s show ?thesis by (auto simp: descend_body_def descend_post_def)
  next
    case (Node l ac r)
    obtain a c where ac: "ac = (a, c)" by force
    have foc': "focus t fs (mk Lft l a c r)" using foc Node ac by simp
    have a: "a \<noteq> 0" "tmp = a" using focus_reads(1) [OF foc'] tmp Node ac by auto
    have k: "rb_cmp cmp t x a = Inr (cmp k (rbkey t a))"
      using rb_cmp_ok [OF x] focus_keys [OF foc', of a] by simp
    have ascS: "ascending cmp (rbkey t) (seq (plug fs (Node l (a, c) r)))" using asc T Node ac by simp
    note go = between_step [OF ascS bet]
    note rd = focus_reads(2,3) [OF foc']
    note sub = focus_sub [OF foc']
    consider "cmp k (rbkey t a) = 0" | "cmp k (rbkey t a) < 0" | "0 < cmp k (rbkey t a)" by linarith
    then show ?thesis
    proof cases
      case 1
      have "a \<in> set (seq T)" using T Node ac by (auto simp: set_plug)
      with 1 a k s show ?thesis by (auto simp: descend_body_def descend_post_def)
    next
      case 2
      have "descend_inv cmp t k T (size l) (ptr l, a, cmp k (rbkey t a))"
        unfolding descend_inv_def prod.case
        using 2 go(1) sub(1) T Node ac by (intro exI [of _ "(Lft, a, c, r) # fs"] exI [of _ l]) auto
      moreover have "size l < n" using n Node by simp
      ultimately show ?thesis using 2 a k s rd
        by (intro exI [of _ "(ptr l, a, cmp k (rbkey t a))"] exI [of _ False]) (auto simp: descend_body_def get_child_def)
    next
      case 3
      have "descend_inv cmp t k T (size r) (ptr r, a, cmp k (rbkey t a))"
        unfolding descend_inv_def prod.case
        using 3 go(2) sub(2) T Node ac by (intro exI [of _ "(Rgt, a, c, l) # fs"] exI [of _ r]) auto
      moreover have "size r < n" using n Node by simp
      ultimately show ?thesis using 3 a k s rd
        by (intro exI [of _ "(ptr r, a, cmp k (rbkey t a))"] exI [of _ False]) (auto simp: descend_body_def get_child_def)
    qed
  qed
qed

section \<open>Insertion\<close>

lemma attach_ok:
  fixes comp :: int
  assumes foc: "focus t fs Leaf" and x: "rb_cells t x = Some e" "x \<noteq> 0" "x \<notin> fset fs"
    and comp: "\<forall>d a c sib gs. fs = (d, a, c, sib) # gs \<longrightarrow> (comp < 0 \<longleftrightarrow> d = Lft)"
  shows "\<exists>t'. bindE (RB_SET t x (par_of fs)) (\<lambda>t. if par_of fs \<noteq> 0 then
      (if comp < 0 then put_left t (par_of fs) x else put_right t (par_of fs) x) else Inr (t\<lparr>rbh_root := x\<rparr>)) = Inr t' \<and>
    focus t' fs (Node Leaf (x, Red) Leaf) \<and> rb_keys t' = rb_keys t"
proof -
  let ?e = "e\<lparr>rbe_parent := par_of fs, rbe_right := 0, rbe_left := 0, rbe_color := RB_RED\<rparr>"
  let ?t = "t\<lparr>rb_cells := (rb_cells t)(x \<mapsto> ?e)\<rparr>"
  have set: "RB_SET t x (par_of fs) = Inr ?t"
    using x by (simp add: RB_SET_def put_parent_def put_left_def put_right_def put_color_def)
  show ?thesis
  proof (cases fs)
    case Nil
    with set foc x show ?thesis by (auto simp: focus_def rb_keys_def fun_eq_iff)
  next
    case (Cons f gs)
    obtain d a c sib where f: "f = (d, a, c, sib)" by (cases f) auto
    from foc Cons f obtain ea where ea: "rb_cells t a = Some ea" "a \<noteq> 0" by (auto simp: focus_def)
    have ax: "a \<noteq> x" "x \<noteq> a" using x(3) Cons f by auto
    have "(if comp < 0 then put_left ?t a x else put_right ?t a x) = Inr (?t\<lparr>rb_cells := (rb_cells ?t)(a \<mapsto> upd_child d x ea)\<rparr>)"
      using comp Cons f ea ax by (cases d) (auto simp: put_left_def put_right_def)
    moreover have "focus (?t\<lparr>rb_cells := (rb_cells ?t)(a \<mapsto> upd_child d x ea)\<rparr>) fs (Node Leaf (x, Red) Leaf)"
      using foc x Cons f ea ax by (auto simp: focus_def)
    ultimately show ?thesis using set Cons f ea ax x by (auto simp: rb_keys_def fun_eq_iff)
  qed
qed

definition rb_rel :: "('k \<Rightarrow> 'k \<Rightarrow> int) \<Rightarrow> 'k rb \<Rightarrow> nat list \<Rightarrow> bool" where
  "rb_rel cmp t xs \<longleftrightarrow> ascending cmp (rbkey t) xs \<and> (\<exists>T. focus t [] T \<and> rb_tree T \<and> seq T = xs)"

lemma RB_INSERT_ok:
  assumes rel: "rb_rel cmp t xs" and x: "rb_keys t x = Some k" "x \<noteq> 0" "x \<notin> set xs"
  shows "\<exists>t'. RB_INSERT cmp x t = Some (Inr (find_asc cmp (rbkey t) x xs, t')) \<and>
    rb_rel cmp t' (insert_asc cmp (rbkey t) x xs) \<and> rb_keys t' = rb_keys t"
proof -
  from rel obtain T where T: "focus t [] T" "rb_tree T" "seq T = xs" and asc: "ascending cmp (rbkey t) xs"
    by (auto simp: rb_rel_def)
  have ok: "cmp_ok cmp" using asc by auto
  have k: "k = rbkey t x" using x by simp
  have root: "RB_ROOT t = ptr T" using focus_root [OF T(1)] by (simp add: RB_ROOT_def)
  have init: "descend_inv cmp t k T (size T) (RB_ROOT t, 0, 0)"
    unfolding descend_inv_def prod.case using T(1) root by (intro exI [of _ "[]"] exI [of _ T]) auto
  have step: "\<exists>s' leave. Some (descend_body cmp t x s) = Some (Inr (s', leave)) \<and>
      (if leave then descend_post cmp t k T s' else \<exists>n'<n. descend_inv cmp t k T n' s')" if "descend_inv cmp t k T n s" for n s
    using descend_step [OF that _ x(1)] asc T(3) by (simp only: option.inject)
  from c_loop_rule [where I = "descend_inv cmp t k T" and body = "\<lambda>s. Some (descend_body cmp t x s)"
      and Q = "descend_post cmp t k T", OF step init] obtain tmp parent comp where
    loop: "c_loop (\<lambda>s. Some (descend_body cmp t x s)) (RB_ROOT t, 0, 0) = Some (Inr (tmp, parent, comp))"
      "descend_post cmp t k T (tmp, parent, comp)" by fastforce
  show ?thesis
  proof (cases "tmp = 0")
    case False
    with loop(2) T(3) have tmp: "tmp \<in> set xs" "cmp k (rbkey t tmp) = 0" by (auto simp: descend_post_def)
    then obtain us vs where xs: "xs = us @ tmp # vs" by (auto simp: in_set_conv_decomp)
    have "find_asc cmp (rbkey t) x xs = tmp" using find_asc_present [OF asc [unfolded xs]] tmp(2) k xs by simp
    moreover have "insert_asc cmp (rbkey t) x xs = xs" using insert_asc_present [OF tmp(1), of cmp "rbkey t" x] tmp(2) k by simp
    ultimately show ?thesis using loop(1) False rel by (simp add: RB_INSERT_def)
  next
    case True
    with loop(2) obtain fs where fs: "focus t fs Leaf" "plug fs Leaf = T" "parent = par_of fs"
        "\<forall>d a c sib gs. fs = (d, a, c, sib) # gs \<longrightarrow> (comp < 0 \<longleftrightarrow> d = Lft)" "between cmp (rbkey t) k fs"
      by (auto simp: descend_post_def)
    have xs: "xs = lpart fs @ rpart fs" using fs(2) T(3) seq_plug [of fs Leaf] by simp
    have xn: "x \<notin> fset fs" using x(3) T(3) fs(2) set_plug [of fs Leaf] by simp
    from x(1) obtain e where e: "rb_cells t x = Some e" by (auto simp: rb_keys_def)
    from attach_ok [OF fs(1) e x(2) xn fs(4)] fs(3) obtain t1 where
      t1: "bindE (RB_SET t x parent) (\<lambda>t. if parent \<noteq> 0 then
          (if comp < 0 then put_left t parent x else put_right t parent x) else Inr (t\<lparr>rbh_root := x\<rparr>)) = Inr t1"
        "focus t1 fs (Node Leaf (x, Red) Leaf)" "rb_keys t1 = rb_keys t" by auto
    have ins: "insert_asc cmp (rbkey t) x xs = lpart fs @ x # rpart fs"
      unfolding xs by (rule insert_asc_between [OF ok]) (use fs(5) k in \<open>auto simp: between_def\<close>)
    have acc: "no_red_red (plug fs Leaf)" "balanced (plug fs Leaf)" "color_of (plug fs Leaf) = Black"
      using T(2) fs(2) by (auto simp: rb_tree_def)
    then have "accepts fs 0 Black" using accepts_plug [of fs Leaf] by simp
    then have "insert_inv t1 (lpart fs @ x # rpart fs) (length fs) (t1, x)"
      unfolding insert_inv_def prod.case using t1(2) acc(3)
      by (intro exI [of _ fs] exI [of _ "Node Leaf (x, Red) Leaf"]) (auto simp: top_black_def seq_plug)
    from RB_INSERT_COLOR_ok [OF this] obtain t2 T2 where
      t2: "RB_INSERT_COLOR x t1 = Some (Inr t2)" "focus t2 [] T2" "rb_tree T2" "seq T2 = lpart fs @ x # rpart fs"
        "rb_keys t2 = rb_keys t1" by blast
    have "\<not> (\<exists>y\<in>set xs. cmp (rbkey t x) (rbkey t y) = 0)"
      using fs(5) k xs cmp_flip [OF ok, of k] by (force simp: between_def)
    then have "find_asc cmp (rbkey t) x xs = 0" by (rule find_asc_absent)
    moreover have "rb_rel cmp t2 (insert_asc cmp (rbkey t) x xs)"
      using ascending_insert_asc [OF asc, of x] ins t1(3) t2(2-5) by (auto simp: rb_rel_def)
    ultimately show ?thesis using loop(1) True t1(1,3) t2(1,5) by (simp add: RB_INSERT_def)
  qed
qed

end
