(* ===== verification/Rb_Remove.thy ===== *)
theory Rb_Remove
  imports Rb_Insert
begin

text \<open>
  Removal from the red-black trees of \<open>utils/tree.h\<close>: the loop of
  \<open>RB_REMOVE_COLOR\<close>, the unlinking of \<open>RB_REMOVE\<close> with one child and with two, and
  the contract of the trees as an interpretation of \<open>ordered_index\<close>.
\<close>

section \<open>Repairing the colours after a removal\<close>

definition remove_sibling :: "side \<Rightarrow> 'k rb \<Rightarrow> nat \<Rightarrow> ('k rb \<times> nat) exec" where
  "remove_sibling d t parent =
     bindE (get_child (flip d) t parent) (\<lambda>tmp.
     bindE (RB_COLOR t tmp) (\<lambda>c.
     if c = RB_RED then
       bindE (RB_SET_BLACKRED t tmp parent) (\<lambda>t.
       bindE (rotate_to d t parent) (\<lambda>(t, tmp).
       bindE (get_child (flip d) t parent) (\<lambda>tmp. Inr (t, tmp))))
     else Inr (t, tmp)))"

definition remove_inner :: "side \<Rightarrow> 'k rb \<Rightarrow> nat \<Rightarrow> nat \<Rightarrow> ('k rb \<times> nat) exec" where
  "remove_inner d t parent tmp =
     bindE (get_child d t tmp) (\<lambda>near.
     bindE (if near \<noteq> 0 then put_color t near RB_BLACK else Inr t) (\<lambda>t.
     bindE (put_color t tmp RB_RED) (\<lambda>t.
     bindE (rotate_to (flip d) t tmp) (\<lambda>(t, near).
     bindE (get_child (flip d) t parent) (\<lambda>tmp. Inr (t, tmp))))))"

definition remove_outer :: "side \<Rightarrow> 'k rb \<Rightarrow> nat \<Rightarrow> nat \<Rightarrow> (('k rb \<times> nat \<times> nat) \<times> bool) exec" where
  "remove_outer d t parent tmp =
     bindE (RB_COLOR t parent) (\<lambda>c.
     bindE (put_color t tmp c) (\<lambda>t.
     bindE (put_color t parent RB_BLACK) (\<lambda>t.
     bindE (get_child (flip d) t tmp) (\<lambda>far.
     bindE (if far \<noteq> 0 then put_color t far RB_BLACK else Inr t) (\<lambda>t.
     bindE (rotate_to d t parent) (\<lambda>(t, tmp).
     Inr ((t, parent, RB_ROOT t), True)))))))"

definition remove_rest :: "side \<Rightarrow> 'k rb \<Rightarrow> nat \<Rightarrow> nat \<Rightarrow> (('k rb \<times> nat \<times> nat) \<times> bool) exec" where
  "remove_rest d t parent tmp =
     bindE (RB_LEFT t tmp) (\<lambda>l. bindE (null_or_black t l) (\<lambda>lb.
     bindE (RB_RIGHT t tmp) (\<lambda>r. bindE (null_or_black t r) (\<lambda>rb.
     if lb \<and> rb then
       bindE (put_color t tmp RB_RED) (\<lambda>t.
       bindE (RB_PARENT t parent) (\<lambda>grand.
       Inr ((t, grand, parent), False)))
     else
       bindE (if (if d = Lft then rb else lb) then remove_inner d t parent tmp else Inr (t, tmp)) (\<lambda>(t, tmp).
       remove_outer d t parent tmp)))))"

lemma remove_fix_sides:
  "remove_fix_left t parent elm = bindE (remove_sibling Lft t parent) (\<lambda>(t, tmp). remove_rest Lft t parent tmp)"
  "remove_fix_right t parent elm = bindE (remove_sibling Rgt t parent) (\<lambda>(t, tmp). remove_rest Rgt t parent tmp)"
  by (simp_all add: remove_fix_left_def remove_fix_right_def remove_sibling_def remove_rest_def remove_inner_def
      remove_outer_def get_child_def rotate_to_def bindE_assoc cong: if_cong)

text \<open>A red sibling is rotated away: the new sibling is black.\<close>

lemma remove_sibling_ok:
  assumes foc: "focus t fs (mk d s p pc (mk d a q c b))" and pc: "c = Red \<longrightarrow> pc = Black"
  shows "\<exists>t'. remove_sibling d t p = Inr (t', if c = Red then ptr a else q) \<and> rb_keys t' = rb_keys t \<and>
    (if c = Red then focus t' ((d, q, Black, b) # fs) (mk d s p Red a) else t' = t)"
proof -
  note foc_q = focus_sub(2) [OF foc]
  have rd: "get_child (flip d) t p = Inr q" "RB_COLOR t q = Inr (code c)"
    using focus_reads(3) [OF foc] focus_reads(5) [OF foc_q] by simp_all
  show ?thesis
  proof (cases c)
    case Red
    have "focus t fs (mk (flip d) (mk d a q c b) p pc s)" using foc by (simp add: mk_flip)
    from focus_blackred [OF this] obtain t1 where
      t1: "RB_SET_BLACKRED t q p = Inr t1" "focus t1 fs (mk d s p Red (mk d a q Black b))" "rb_keys t1 = rb_keys t"
      by (auto simp: mk_flip)
    from focus_rotate [OF t1(2)] obtain t2 where
      t2: "rotate_to d t1 p = Inr (t2, q)" "focus t2 fs (mk d (mk d s p Red a) q Black b)" "rb_keys t2 = rb_keys t1" by blast
    then have foc2: "focus t2 ((d, q, Black, b) # fs) (mk d s p Red a)" by (simp add: focus_step)
    with focus_reads(3) [OF foc2] rd t1 t2 Red show ?thesis by (simp add: remove_sibling_def RB_BLACK_def RB_RED_def)
  next
    case Black
    with rd show ?thesis by (simp add: remove_sibling_def RB_BLACK_def RB_RED_def)
  qed
qed

lemma focus_adopt_color:
  assumes foc: "focus t fs s"
  shows "\<exists>t'. (if ptr s \<noteq> 0 then put_color t (ptr s) RB_BLACK else Inr t) = Inr t' \<and> focus t' fs (blacken s) \<and> rb_keys t' = rb_keys t"
proof (cases "s = Leaf")
  case False
  then obtain l a c r where s: "s = mk Lft l a c r" using mk_exhaust by blast
  from focus_black [OF foc [unfolded s]] focus_reads(1) [OF foc [unfolded s]] s show ?thesis by auto
qed (use foc in simp)

text \<open>A red child on the near side of the sibling is rotated to the far side.\<close>

lemma remove_inner_ok:
  assumes foc: "focus t fs (mk d s p pc (mk d (mk d a n Red b') q Black b))"
  shows "\<exists>t'. remove_inner d t p q = Inr (t', n) \<and> rb_keys t' = rb_keys t \<and>
    focus t' fs (mk d s p pc (mk d a n Black (mk d b' q Red b)))"
proof -
  note foc_q = focus_sub(2) [OF foc]
  note foc_n = focus_sub(1) [OF foc_q]
  have rd: "get_child d t q = Inr n" "n \<noteq> 0" using focus_reads(2) [OF foc_q] focus_reads(1) [OF foc_n] by simp_all
  from focus_black [OF foc_n] obtain t1 where
    t1: "put_color t n RB_BLACK = Inr t1" "focus t1 ((d, q, Black, b) # (flip d, p, pc, s) # fs) (mk d a n Black b')"
      "rb_keys t1 = rb_keys t" by blast
  from focus_red [OF t1(2) [unfolded focus_step [of _ d q]]] obtain t2 where
    t2: "put_color t1 q RB_RED = Inr t2" "focus t2 ((flip d, p, pc, s) # fs) (mk d (mk d a n Black b') q Red b)"
      "rb_keys t2 = rb_keys t1" by blast
  then have "focus t2 ((flip d, p, pc, s) # fs) (mk (flip d) b q Red (mk (flip d) b' n Black a))" by (simp add: mk_flip)
  from focus_rotate [OF this] obtain t3 where
    t3: "rotate_to (flip d) t2 q = Inr (t3, n)" "focus t3 ((flip d, p, pc, s) # fs) (mk d a n Black (mk d b' q Red b))"
      "rb_keys t3 = rb_keys t2" by (auto simp: mk_flip)
  from t3(2) have foc3: "focus t3 fs (mk d s p pc (mk d a n Black (mk d b' q Red b)))" by (simp add: focus_step mk_flip)
  then have "get_child (flip d) t3 p = Inr n" using focus_reads(3) [OF foc3] by simp
  with rd t1 t2 t3 foc3 show ?thesis by (simp add: remove_inner_def)
qed

text \<open>With a red child on the far side the last rotation ends the repair.\<close>

lemma remove_outer_ok:
  assumes foc: "focus t fs (mk d s p pc (mk d a q c b))"
  shows "\<exists>t'. remove_outer d t p q = Inr ((t', p, RB_ROOT t'), True) \<and> rb_keys t' = rb_keys t \<and>
    focus t' fs (mk d (mk d s p Black a) q pc (blacken b))"
proof -
  note foc_q = focus_sub(2) [OF foc]
  have rd: "RB_COLOR t p = Inr (code pc)" using focus_reads(5) [OF foc] .
  from focus_color [OF foc_q, of pc] obtain t1 where
    t1: "put_color t q (code pc) = Inr t1" "focus t1 fs (mk d s p pc (mk d a q pc b))" "rb_keys t1 = rb_keys t"
    by (auto simp: focus_step mk_flip)
  from focus_black [OF t1(2)] obtain t2 where
    t2: "put_color t1 p RB_BLACK = Inr t2" "focus t2 fs (mk d s p Black (mk d a q pc b))" "rb_keys t2 = rb_keys t1" by blast
  note foc_q2 = focus_sub(2) [OF t2(2)]
  have far: "get_child (flip d) t2 q = Inr (ptr b)" using focus_reads(3) [OF foc_q2] .
  from focus_adopt_color [OF focus_sub(2) [OF foc_q2]] obtain t3 where
    t3: "(if ptr b \<noteq> 0 then put_color t2 (ptr b) RB_BLACK else Inr t2) = Inr t3"
      "focus t3 fs (mk d s p Black (mk d a q pc (blacken b)))" "rb_keys t3 = rb_keys t2"
    by (auto simp: focus_step mk_flip)
  from focus_rotate [OF t3(2)] obtain t4 where
    "rotate_to d t3 p = Inr (t4, q)" "focus t4 fs (mk d (mk d s p Black a) q pc (blacken b))" "rb_keys t4 = rb_keys t3" by blast
  with rd t1 t2 t3 far show ?thesis by (simp add: remove_outer_def)
qed

section \<open>The loop of \<open>RB_REMOVE_COLOR\<close>\<close>

text \<open>
  The paths through the part in focus have one black node less than their
  context expects.
\<close>

definition remove_inv :: "'k rb \<Rightarrow> nat list \<Rightarrow> nat \<Rightarrow> 'k rb \<times> nat \<times> nat \<Rightarrow> bool" where
  "remove_inv t0 xs n = (\<lambda>(t, parent, x). \<exists>fs s. focus t fs s \<and> parent = par_of fs \<and> x = ptr s \<and>
     no_red_red (blacken s) \<and> balanced s \<and> accepts fs (Suc (blacks s)) Black \<and> top_black fs \<and>
     seq (plug fs s) = xs \<and> rb_keys t = rb_keys t0 \<and> n = (if color_of s = Red then 0 else Suc (length fs)))"

definition remove_post :: "'k rb \<Rightarrow> nat list \<Rightarrow> 'k rb \<times> nat \<times> nat \<Rightarrow> bool" where
  "remove_post t0 xs = (\<lambda>(t, parent, x). \<exists>fs s. focus t fs s \<and> x = ptr s \<and> rb_tree (plug fs (blacken s)) \<and>
     seq (plug fs s) = xs \<and> rb_keys t = rb_keys t0)"

lemma blacks_blacken: "balanced s \<Longrightarrow> color_of s = Red \<Longrightarrow> blacks (blacken s) = Suc (blacks s)"
  by (cases s) auto

lemma remove_rest_recolor:
  assumes foc: "focus t fs (mk d s p pc (mk d a q Black b))" and col: "color_of a = Black" "color_of b = Black"
  shows "\<exists>t'. remove_rest d t p q = Inr ((t', par_of fs, p), False) \<and> rb_keys t' = rb_keys t \<and>
    focus t' fs (mk d s p pc (mk d a q Red b))"
proof -
  note foc_q = focus_sub(2) [OF foc]
  have nb: "null_or_black t (ptr a) = Inr True" "null_or_black t (ptr b) = Inr True"
    using focus_color_of(2) [OF focus_sub(1) [OF foc_q]] focus_color_of(2) [OF focus_sub(2) [OF foc_q]] col by simp_all
  have rd: "get_child d t q = Inr (ptr a)" "get_child (flip d) t q = Inr (ptr b)"
    using focus_reads(2,3) [OF foc_q] by simp_all
  from focus_red [OF foc_q] obtain t' where
    t': "put_color t q RB_RED = Inr t'" "focus t' fs (mk d s p pc (mk d a q Red b))" "rb_keys t' = rb_keys t"
    by (auto simp: focus_step mk_flip)
  have "RB_PARENT t' p = Inr (par_of fs)" using focus_reads(4) [OF t'(2)] .
  with t' nb rd show ?thesis by (cases d) (simp_all add: remove_rest_def get_child_def)
qed

lemma remove_rest_rotate:
  assumes foc: "focus t fs (mk d s p pc (mk d a q Black b))" and col: "\<not> (color_of a = Black \<and> color_of b = Black)"
  shows "\<exists>t' a' q' b'. remove_rest d t p q = Inr ((t', p, RB_ROOT t'), True) \<and> rb_keys t' = rb_keys t \<and>
    focus t' fs (mk d (mk d s p Black a') q' pc b') \<and>
    (if color_of b = Black then \<exists>n m. a = mk d a' n Red m \<and> q' = n \<and> b' = mk d m q Black b else a' = a \<and> q' = q \<and> b' = blacken b)"
proof -
  note foc_q = focus_sub(2) [OF foc]
  have nb: "null_or_black t (ptr a) = Inr (color_of a = Black)" "null_or_black t (ptr b) = Inr (color_of b = Black)"
    using focus_color_of(2) [OF focus_sub(1) [OF foc_q]] focus_color_of(2) [OF focus_sub(2) [OF foc_q]] by simp_all
  have rd: "get_child d t q = Inr (ptr a)" "get_child (flip d) t q = Inr (ptr b)"
    using focus_reads(2,3) [OF foc_q] by simp_all
  have start: "remove_rest d t p q =
      bindE (if color_of b = Black then remove_inner d t p q else Inr (t, q)) (\<lambda>(t, tmp). remove_outer d t p tmp)"
    using nb rd col by (cases d) (auto simp: remove_rest_def get_child_def)
  show ?thesis
  proof (cases "color_of b = Black")
    case True
    with col have red: "color_of a = Red" by simp
    then have "a \<noteq> Leaf" by auto
    with red obtain a1 n m where a: "a = mk d a1 n Red m" using mk_exhaust [of a d] by auto
    from remove_inner_ok [OF foc [unfolded a]] obtain t1 where
      t1: "remove_inner d t p q = Inr (t1, n)" "rb_keys t1 = rb_keys t"
        "focus t1 fs (mk d s p pc (mk d a1 n Black (mk d m q Red b)))" by blast
    from remove_outer_ok [OF t1(3)] obtain t2 where
      "remove_outer d t1 p n = Inr ((t2, p, RB_ROOT t2), True)" "rb_keys t2 = rb_keys t1"
      "focus t2 fs (mk d (mk d s p Black a1) n pc (mk d m q Black b))" by auto
    with start t1 True a show ?thesis by auto
  next
    case False
    from remove_outer_ok [OF foc] start False show ?thesis by auto
  qed
qed

lemma focus_at_root:
  assumes foc: "focus t fs s"
  shows "ptr s = RB_ROOT t \<longleftrightarrow> fs = []"
proof (cases fs)
  case Nil
  then show ?thesis using focus_root [OF foc] by (simp add: RB_ROOT_def)
next
  case (Cons f gs)
  obtain d a c sib where f: "f = (d, a, c, sib)" by (cases f) auto
  have "rbh_root t \<in> fset fs"
    using foc unfolding Cons f
  proof (induction gs arbitrary: d a c sib s)
    case Nil
    then show ?case by (auto simp: focus_def)
  next
    case (Cons g gs)
    obtain d' a' c' sib' where g: "g = (d', a', c', sib')" by (cases g) auto
    from Cons.prems have "focus t (g # gs) (mk d s a c sib)" by (simp add: focus_step)
    then have "rbh_root t \<in> fset (g # gs)" unfolding g by (rule Cons.IH)
    then show ?case by simp
  qed
  moreover have "rbh_root t \<noteq> 0" using focus_root [OF foc] ptr_zero Cons focus_nonnull focus_plug [of t fs "[]" s] foc f
    by (metis append_Nil2 plug_Leaf list.distinct(1))
  ultimately show ?thesis using foc Cons ptr_in [of s] by (cases "s = Leaf") (auto simp: RB_ROOT_def focus_def)
qed

text \<open>What is known of the node above the focus and its black sibling \<open>q\<close>.\<close>

definition sibling_inv :: "'k rb \<Rightarrow> nat list \<Rightarrow> 'k rb \<Rightarrow> frame list \<Rightarrow> rbt \<Rightarrow> rb_color \<Rightarrow> rbt \<Rightarrow> rbt \<Rightarrow> rbt \<Rightarrow> bool" where
  "sibling_inv t0 xs t fs s pc a b T \<longleftrightarrow> no_red_red s \<and> color_of s = Black \<and> balanced s \<and>
     no_red_red a \<and> balanced a \<and> blacks a = blacks s \<and> no_red_red b \<and> balanced b \<and> blacks b = blacks s \<and>
     accepts fs (if pc = Black then Suc (Suc (blacks s)) else Suc (blacks s)) pc \<and> top_black fs \<and> (fs = [] \<longrightarrow> pc = Black) \<and>
     seq (plug fs T) = xs \<and> rb_keys t = rb_keys t0"

lemma remove_rest_step:
  assumes foc: "focus t fs (mk d s p pc (mk d a q Black b))"
    and inv: "sibling_inv t0 xs t fs s pc a b (mk d s p pc (mk d a q Black b))"
  shows "\<exists>s' leave. remove_rest d t p q = Inr (s', leave) \<and>
    (if leave then remove_post t0 xs s' else remove_inv t0 xs (if pc = Red then 0 else Suc (length fs)) s')"
proof (cases "color_of a = Black \<and> color_of b = Black")
  case True
  from remove_rest_recolor [OF foc] True obtain t' where
    t': "remove_rest d t p q = Inr ((t', par_of fs, p), False)" "rb_keys t' = rb_keys t"
      "focus t' fs (mk d s p pc (mk d a q Red b))" by blast
  let ?S = "mk d s p pc (mk d a q Red b)"
  have bal: "balanced ?S" "no_red_red (blacken ?S)" "blacks ?S = (if pc = Black then Suc (blacks s) else blacks s)"
    using inv True by (auto simp: sibling_inv_def blacks_mk)
  have "accepts fs (Suc (blacks ?S)) Black" using inv bal(3) accepts_black by (auto simp: sibling_inv_def split: if_splits)
  moreover have "seq (plug fs ?S) = xs" using inv by (cases d) (auto simp: sibling_inv_def seq_plug)
  ultimately have "remove_inv t0 xs (if pc = Red then 0 else Suc (length fs)) (t', par_of fs, p)"
    unfolding remove_inv_def prod.case using t' bal inv
    by (intro exI [of _ fs] exI [of _ ?S]) (auto simp: sibling_inv_def)
  with t'(1) show ?thesis by (intro exI [of _ "(t', par_of fs, p)"] exI [of _ False]) simp
next
  case False
  from remove_rest_rotate [OF foc False] obtain t' a' q' b' where
    t': "remove_rest d t p q = Inr ((t', p, RB_ROOT t'), True)" "rb_keys t' = rb_keys t"
      "focus t' fs (mk d (mk d s p Black a') q' pc b')"
    and shape: "if color_of b = Black then \<exists>n m. a = mk d a' n Red m \<and> q' = n \<and> b' = mk d m q Black b
      else a' = a \<and> q' = q \<and> b' = blacken b" by blast
  let ?S = "mk d (mk d s p Black a') q' pc b'"
  have ab: "no_red_red a' \<and> balanced a' \<and> blacks a' = blacks s" "no_red_red b' \<and> balanced b' \<and> blacks b' = Suc (blacks s)"
    "color_of b' = Black"
    using shape inv no_red_red_blacken [of b]
    by (auto simp: sibling_inv_def blacks_mk blacks_blacken split: if_splits)
  then have S: "no_red_red ?S" "balanced ?S" "blacks ?S = (if pc = Black then Suc (Suc (blacks s)) else Suc (blacks s))"
    using inv by (auto simp: sibling_inv_def blacks_mk)
  have "no_red_red (plug fs ?S) \<and> balanced (plug fs ?S)"
    using S inv by (subst accepts_plug) (auto simp: sibling_inv_def)
  moreover have "seq (plug fs ?S) = xs"
    using inv shape by (cases d) (auto simp: sibling_inv_def seq_plug split: if_splits)
  moreover have "focus t' [] (plug fs ?S)" using t'(3) focus_plug [of t' fs "[]" ?S] by simp
  moreover have "RB_ROOT t' = ptr (plug fs ?S)" using focus_root [OF t'(3)] by (simp add: RB_ROOT_def)
  ultimately have "remove_post t0 xs (t', p, RB_ROOT t')"
    unfolding remove_post_def prod.case using t'(2) inv
    by (intro exI [of _ "[]"] exI [of _ "plug fs ?S"]) (auto simp: sibling_inv_def rb_tree_def no_red_red_blacken)
  with t'(1) show ?thesis by (intro exI [of _ "(t', p, RB_ROOT t')"] exI [of _ True]) simp
qed

lemma remove_fix_step:
  assumes foc: "focus t fs (mk d s p pc w)" and s: "no_red_red s" "color_of s = Black" "balanced s"
    and acc: "accepts ((d, p, pc, w) # fs) (Suc (blacks s)) Black" and top: "top_black ((d, p, pc, w) # fs)"
    and xs: "seq (plug fs (mk d s p pc w)) = xs" and keys: "rb_keys t = rb_keys t0"
  shows "\<exists>s' leave. bindE (remove_sibling d t p) (\<lambda>(t, tmp). remove_rest d t p tmp) = Inr (s', leave) \<and>
    (if leave then remove_post t0 xs s' else \<exists>n'\<le>Suc (length fs). remove_inv t0 xs n' s')"
proof -
  have w: "no_red_red w" "balanced w" "blacks w = Suc (blacks s)" "pc = Red \<longrightarrow> color_of w = Black"
    "accepts fs (if pc = Black then Suc (Suc (blacks s)) else Suc (blacks s)) pc"
    using acc by auto
  have root: "top_black fs" "fs = [] \<longrightarrow> pc = Black" using top by (auto simp: top_black_step split: if_splits)
  have "w \<noteq> Leaf" using w(3) by auto
  then obtain a q c b where wq: "w = mk d a q c b" using mk_exhaust [of w d] by auto
  from remove_sibling_ok [OF foc [unfolded wq]] w(4) wq obtain t1 where
    t1: "remove_sibling d t p = Inr (t1, if c = Red then ptr a else q)" "rb_keys t1 = rb_keys t"
      "if c = Red then focus t1 ((d, q, Black, b) # fs) (mk d s p Red a) else t1 = t" by auto
  show ?thesis
  proof (cases c)
    case Black
    with t1 have "t1 = t" by simp
    moreover have "sibling_inv t0 xs t fs s pc a b (mk d s p pc (mk d a q Black b))"
      using s w root xs keys wq Black by (auto simp: sibling_inv_def blacks_mk)
    ultimately obtain s' leave where s': "remove_rest d t p q = Inr (s', leave)"
      "if leave then remove_post t0 xs s' else remove_inv t0 xs (if pc = Red then 0 else Suc (length fs)) s'"
      using remove_rest_step [of t fs d s p pc a q b t0 xs] foc wq Black by blast
    then have "if leave then remove_post t0 xs s' else \<exists>n'\<le>Suc (length fs). remove_inv t0 xs n' s'"
      by (cases leave) (simp_all split: if_splits, blast+)
    with s'(1) t1(1) Black \<open>t1 = t\<close> show ?thesis by (intro exI [of _ s'] exI [of _ leave]) simp
  next
    case Red
    with t1 have foc1: "focus t1 ((d, q, Black, b) # fs) (mk d s p Red a)" by simp
    have pc: "pc = Black" using w(4) wq Red by auto
    have ab: "color_of a = Black" "color_of b = Black" "no_red_red a" "no_red_red b" "balanced a" "balanced b"
      "blacks a = Suc (blacks s)" "blacks b = Suc (blacks s)"
      using w wq Red by (auto simp: blacks_mk)
    have "a \<noteq> Leaf" using ab(7) by auto
    then obtain a1 q1 b1 where a: "a = mk d a1 q1 Black b1" using mk_exhaust [of a d] ab(1) by auto
    have "sibling_inv t0 xs t1 ((d, q, Black, b) # fs) s Red a1 b1 (mk d s p Red (mk d a1 q1 Black b1))"
      using s ab a w(5) pc root xs keys t1(2) wq Red
      by (cases d) (auto simp: sibling_inv_def blacks_mk top_black_step seq_plug)
    from remove_rest_step [OF foc1 [unfolded a] this] obtain s' leave where
      s': "remove_rest d t1 p q1 = Inr (s', leave)" "if leave then remove_post t0 xs s' else remove_inv t0 xs 0 s'"
      unfolding if_P [OF refl] by blast
    then have "if leave then remove_post t0 xs s' else \<exists>n'\<le>Suc (length fs). remove_inv t0 xs n' s'"
      by (cases leave) auto
    with s'(1) t1(1) Red a show ?thesis by (intro exI [of _ s'] exI [of _ leave]) simp
  qed
qed

lemma remove_done:
  assumes foc: "focus t fs s" and inv: "no_red_red (blacken s)" "balanced s" "accepts fs (Suc (blacks s)) Black" "top_black fs"
    and xs: "seq (plug fs s) = xs" and keys: "rb_keys t = rb_keys t0" and stop: "color_of s = Red \<or> fs = []"
  shows "remove_post t0 xs (t, p, ptr s)"
proof -
  have "no_red_red (plug fs (blacken s)) \<and> balanced (plug fs (blacken s))"
    using inv stop by (subst accepts_plug) (auto simp: blacks_blacken)
  moreover have "color_of (plug fs (blacken s)) = Black"
    using inv(4) color_of_plug [of fs "blacken s" Leaf] by (cases "fs = []") (auto simp: top_black_def)
  ultimately show ?thesis
    unfolding remove_post_def prod.case using foc xs keys by (intro exI [of _ fs] exI [of _ s]) (auto simp: rb_tree_def)
qed

lemma remove_color_step:
  assumes inv: "remove_inv t0 xs n st"
  shows "\<exists>s' leave. remove_color_body st = Inr (s', leave) \<and>
    (if leave then remove_post t0 xs s' else \<exists>n'<n. remove_inv t0 xs n' s')"
proof -
  obtain t parent x where st: "st = (t, parent, x)" by (cases st) auto
  with inv obtain fs s where foc: "focus t fs s" and px: "parent = par_of fs" "x = ptr s"
    and s: "no_red_red (blacken s)" "balanced s" and acc: "accepts fs (Suc (blacks s)) Black" "top_black fs"
    and xs: "seq (plug fs s) = xs" and keys: "rb_keys t = rb_keys t0" and n: "n = (if color_of s = Red then 0 else Suc (length fs))"
    by (auto simp: remove_inv_def)
  have black: "null_or_black t x = Inr (color_of s = Black)" using focus_color_of(2) [OF foc] px by simp
  show ?thesis
  proof (cases "color_of s = Red \<or> fs = []")
    case True
    with remove_done [OF foc s acc xs keys True, of parent] black focus_at_root [OF foc] st px show ?thesis
      by (auto simp: remove_color_body_def)
  next
    case False
    then obtain d p pc w gs where fs: "fs = (d, p, pc, w) # gs" by (cases fs) auto
    have w: "w \<noteq> Leaf" using acc(1) fs by auto
    have col: "color_of s = Black" "no_red_red s" using False s(1) by (auto simp: blacken_black)
    have foc': "focus t gs (mk d s p pc w)" using foc fs by (simp add: focus_step)
    obtain l where l: "RB_LEFT t p = Inr l" "x = l \<longleftrightarrow> d = Lft"
      using focus_left_child [of t d p pc w gs s] foc fs w px by auto
    have start: "remove_color_body st = bindE (remove_sibling d t p) (\<lambda>(t, tmp). remove_rest d t p tmp)"
      using st black col focus_at_root [OF foc] fs px l
      by (cases d) (simp_all add: remove_color_body_def remove_fix_sides)
    from remove_fix_step [OF foc' col(2,1) s(2) acc [unfolded fs] _ keys, of xs] xs fs obtain s' leave where
      s': "remove_color_body st = Inr (s', leave)"
        "if leave then remove_post t0 xs s' else \<exists>n'\<le>Suc (length gs). remove_inv t0 xs n' s'"
      unfolding start by auto
    have less: "Suc (length gs) < n" using n col fs by simp
    have "if leave then remove_post t0 xs s' else \<exists>n'<n. remove_inv t0 xs n' s'"
      using s'(2) le_less_trans [OF _ less] by (cases leave) auto
    with s'(1) show ?thesis by blast
  qed
qed

lemma RB_REMOVE_COLOR_ok:
  assumes inv: "remove_inv t0 xs n (t, parent, x)"
  shows "\<exists>t' T. RB_REMOVE_COLOR parent x t = Some (Inr t') \<and> focus t' [] T \<and> rb_tree T \<and> seq T = xs \<and> rb_keys t' = rb_keys t0"
proof -
  have step: "\<exists>s' leave. Some (remove_color_body s) = Some (Inr (s', leave)) \<and>
      (if leave then remove_post t0 xs s' else \<exists>n'<n. remove_inv t0 xs n' s')" if "remove_inv t0 xs n s" for n s
    using remove_color_step [OF that] by (simp only: option.inject)
  from c_loop_rule [where I = "remove_inv t0 xs" and body = "\<lambda>s. Some (remove_color_body s)"
      and Q = "remove_post t0 xs", OF step inv] obtain t1 q y where
    t1: "c_loop (\<lambda>s. Some (remove_color_body s)) (t, parent, x) = Some (Inr (t1, q, y))" "remove_post t0 xs (t1, q, y)"
    by fastforce
  then obtain fs s where s: "focus t1 fs s" "y = ptr s" "rb_tree (plug fs (blacken s))" "seq (plug fs s) = xs"
    "rb_keys t1 = rb_keys t0" by (auto simp: remove_post_def)
  from focus_adopt_color [OF s(1)] obtain t2 where
    "(if ptr s \<noteq> 0 then put_color t1 (ptr s) RB_BLACK else Inr t1) = Inr t2" "focus t2 fs (blacken s)" "rb_keys t2 = rb_keys t1"
    by blast
  moreover have "focus t2 [] (plug fs (blacken s))" using calculation(2) focus_plug [of t2 fs "[]" "blacken s"] by simp
  moreover have "seq (plug fs (blacken s)) = xs" using s(4) by (simp add: seq_plug)
  ultimately show ?thesis using t1(1) s(2,3,5) by (auto simp: RB_REMOVE_COLOR_def)
qed

section \<open>Unlinking an element\<close>

text \<open>An element with at most one child: the child moves up, and the element is no longer in the tree.\<close>

lemma splice_out_ok:
  assumes foc: "focus t fs T" and T: "T = mk d m x c Leaf"
  shows "\<exists>t'. splice_out t (par_of fs) x (ptr m) = Inr t' \<and> focus t' fs m \<and> rb_cells t' x = rb_cells t x \<and>
    rb_keys t' = rb_keys t"
proof -
  from foc T have m: "rtree (rb_cells t) x m" "distinct (seq m)" "x \<notin> set (seq m)" "x \<notin> fset fs" "x \<noteq> 0" "fdistinct fs"
    "fset fs \<inter> set (seq m) = {}" "rctx (rb_cells t) (rbh_root t) fs x" by (auto simp: focus_def rtree_mk)
  from adopt_ok [OF m(1,2), of "par_of fs"] obtain t1 where
    t1: "(if ptr m \<noteq> 0 then put_parent t (ptr m) (par_of fs) else Inr t) = Inr t1" "rtree (rb_cells t1) (par_of fs) m"
      "rbh_root t1 = rbh_root t" "\<forall>a. a \<notin> set (seq m) \<longrightarrow> rb_cells t1 a = rb_cells t a" "rb_keys t1 = rb_keys t" by blast
  have "rctx (rb_cells t1) (rbh_root t1) fs x"
    using m(7,8) t1(3,4) by (subst rctx_cong [of fs _ "rb_cells t"]) (auto simp: disjoint_iff)
  from rb_replace_ok [OF this m(6,5,4), of "ptr m"] obtain t2 where
    t2: "rb_replace t1 (par_of fs) x (ptr m) = Inr t2" "rctx (rb_cells t2) (rbh_root t2) fs (ptr m)"
      "\<forall>a. a \<notin> fset fs \<longrightarrow> rb_cells t2 a = rb_cells t1 a" "rb_keys t2 = rb_keys t1" by blast
  have "rtree (rb_cells t2) (par_of fs) m"
    using t1(2) t2(3) m(7) by (subst rtree_cong [of _ _ "rb_cells t1"]) (auto simp: disjoint_iff)
  then show ?thesis using t1 t2 m by (auto simp: splice_out_def focus_def)
qed

text \<open>The successor takes the place of the element removed.\<close>

lemma take_place_ok:
  assumes foc: "focus t fs (Node l (old, c) r)" and l: "l \<noteq> Leaf"
    and x: "rb_cells t x = Some d" "x \<noteq> 0" "x \<noteq> old" "x \<notin> fset fs" "x \<notin> set (seq l)" "x \<notin> set (seq r)"
  shows "\<exists>t'. take_place t old x = Inr t' \<and> focus t' fs (Node l (x, c) r) \<and> rb_keys t' = rb_keys t"
proof -
  from foc obtain e where e: "rb_cells t old = Some e" "rbe_left e = ptr l" "rbe_right e = ptr r" "rbe_parent e = par_of fs"
    "rbe_color e = code c" "old \<noteq> 0" by (auto simp: focus_def)
  from foc have ctx: "rctx (rb_cells t) (rbh_root t) fs old" "fdistinct fs" "old \<notin> fset fs"
    and lr: "rtree (rb_cells t) old l" "rtree (rb_cells t) old r" "distinct (seq l)" "distinct (seq r)"
    and out: "old \<notin> set (seq l)" "old \<notin> set (seq r)" "set (seq l) \<inter> set (seq r) = {}"
      "fset fs \<inter> set (seq l) = {}" "fset fs \<inter> set (seq r) = {}"
    by (auto simp: focus_def)
  let ?d = "d\<lparr>rbe_left := rbe_left e, rbe_right := rbe_right e, rbe_parent := rbe_parent e, rbe_color := rbe_color e\<rparr>"
  let ?t1 = "t\<lparr>rb_cells := (rb_cells t)(x \<mapsto> ?d)\<rparr>"
  have upd: "rb_upd t x (\<lambda>d. d\<lparr>rbe_left := rbe_left e, rbe_right := rbe_right e, rbe_parent := rbe_parent e,
      rbe_color := rbe_color e\<rparr>) = Inr ?t1" using x(1) by simp
  have "rctx (rb_cells ?t1) (rbh_root ?t1) fs old" using ctx(1) x(4) by simp
  from rb_replace_ok [OF this ctx(2) e(6) ctx(3), of x] obtain t2 where
    t2: "rb_replace ?t1 (par_of fs) old x = Inr t2" "rctx (rb_cells t2) (rbh_root t2) fs x"
      "\<forall>a. a \<notin> fset fs \<longrightarrow> rb_cells t2 a = rb_cells ?t1 a" "rb_keys t2 = rb_keys ?t1" by blast
  have "rtree (rb_cells t2) old l"
    using lr(1) t2(3) x(5) out(4) by (subst rtree_cong [of _ _ "rb_cells t"]) (auto simp: disjoint_iff)
  from adopt_ok [OF this lr(3), of x] focus_nonnull [OF focus_sub(1), of t fs Lft l old c r] foc l obtain t3 where
    t3: "put_parent t2 (ptr l) x = Inr t3" "rtree (rb_cells t3) x l" "rbh_root t3 = rbh_root t2"
      "\<forall>a. a \<notin> set (seq l) \<longrightarrow> rb_cells t3 a = rb_cells t2 a" "rb_keys t3 = rb_keys t2" by auto
  have "rb_cells t3 a = rb_cells t a" if "a \<in> set (seq r)" for a
  proof -
    have "a \<notin> set (seq l)" "a \<notin> fset fs" "a \<noteq> x" using that out(3,5) x(6) by auto
    then show ?thesis using t2(3) t3(4) by simp
  qed
  then have "rtree (rb_cells t3) old r" using lr(2) rtree_cong [of r "rb_cells t3" "rb_cells t"] by blast
  from adopt_ok [OF this lr(4), of x] obtain t4 where
    t4: "(if ptr r \<noteq> 0 then put_parent t3 (ptr r) x else Inr t3) = Inr t4" "rtree (rb_cells t4) x r"
      "rbh_root t4 = rbh_root t3" "\<forall>a. a \<notin> set (seq r) \<longrightarrow> rb_cells t4 a = rb_cells t3 a" "rb_keys t4 = rb_keys t3" by blast
  have old: "rb_cells ?t1 old = Some e" "rb_cells t2 old = Some e" "rb_cells t3 old = Some e"
    using e(1) x(3) t2(3) ctx(3) t3(4) out(1) by auto
  have cell: "rb_cells t4 x = Some ?d" using t4(4) t3(4) t2(3) x by simp
  have l4: "rtree (rb_cells t4) x l"
    using t3(2) t4(4) out(3) by (subst rtree_cong [of _ _ "rb_cells t3"]) (auto simp: disjoint_iff)
  have "rctx (rb_cells t4) (rbh_root t4) fs x"
    using t2(2) t3(3,4) t4(3,4) out(4,5) by (subst rctx_cong [of fs _ "rb_cells t2"]) (auto simp: disjoint_iff)
  then have "focus t4 fs (Node l (x, c) r)"
    using cell l4 t4(2) e x out lr ctx by (auto simp: focus_def)
  moreover have "take_place t old x = Inr t4"
    using e(1-4) old upd t2(1) t3(1) t4(1) by (simp add: take_place_def RB_LEFT_def RB_RIGHT_def)
  moreover have "rb_keys t4 = rb_keys t" using t2(4) t3(5) t4(5) x(1) by simp
  ultimately show ?thesis by blast
qed

text \<open>The way to the leftmost element of a subtree.\<close>

lemma rb_leftmost_ok:
  "rtree (rb_cells t) p T \<Longrightarrow> T \<noteq> Leaf \<Longrightarrow>
   \<exists>gs x c m. c_loop (\<lambda>x. Some (rb_leftmost_body t x)) (ptr T) = Some (Inr x) \<and> T = plug gs (mk Rgt m x c Leaf) \<and>
     lpart gs = [] \<and> (gs = [] \<or> par_of gs \<in> set (seq T))"
proof (induction T arbitrary: p)
  case (Node l ac r)
  obtain a c where ac: "ac = (a, c)" by force
  with Node.prems obtain e where e: "rb_cells t a = Some e" "rbe_left e = ptr l" "rtree (rb_cells t) a l" by auto
  show ?case
  proof (cases "l = Leaf")
    case True
    with e ac show ?thesis
      by (intro exI [of _ "[]"] exI [of _ a] exI [of _ c] exI [of _ r])
        (simp add: c_loop.simps [of _ a] rb_leftmost_body_def RB_LEFT_def)
  next
    case False
    from Node.IH(1) [OF e(3) False] obtain gs x k m where
      gs: "c_loop (\<lambda>x. Some (rb_leftmost_body t x)) (ptr l) = Some (Inr x)" "l = plug gs (mk Rgt m x k Leaf)"
        "lpart gs = []" "gs = [] \<or> par_of gs \<in> set (seq l)" by blast
    have "ptr l \<noteq> 0" using ptr_zero [OF e(3)] False by simp
    then have "c_loop (\<lambda>x. Some (rb_leftmost_body t x)) a = Some (Inr x)"
      using e gs(1) by (simp add: c_loop.simps [of _ a] rb_leftmost_body_def RB_LEFT_def)
    moreover have "lpart (gs @ [(Lft, a, c, r)]) = []" using gs(3)
      by (induction gs rule: lpart.induct) auto
    moreover have "par_of (gs @ [(Lft, a, c, r)]) \<in> set (seq (Node l (a, c) r))"
      using gs(4) by (cases gs) auto
    ultimately show ?thesis using ac gs(2)
      by (intro exI [of _ "gs @ [(Lft, a, c, r)]"] exI [of _ x] exI [of _ k] exI [of _ m]) simp
  qed
qed simp

lemma augment_walk:
  assumes "focus t fs s" "fs \<noteq> []"
  shows "c_loop (\<lambda>x. Some (augment_body t x)) (par_of fs) = Some (Inr 0)"
  using assms
proof (induction fs arbitrary: s)
  case (Cons f gs)
  obtain d a c sib where f: "f = (d, a, c, sib)" by (cases f) auto
  with Cons.prems have foc: "focus t gs (mk d s a c sib)" by (simp add: focus_step)
  have par: "RB_PARENT t a = Inr (par_of gs)" by (rule focus_reads(4) [OF foc])
  show ?case
  proof (cases "gs = []")
    case True
    with par f show ?thesis by (simp add: c_loop.simps [of _ a] augment_body_def)
  next
    case False
    with Cons.IH [OF foc] par f focus_par [OF foc] show ?thesis by (simp add: c_loop.simps [of _ a] augment_body_def)
  qed
qed simp

lemma remove_double_ok:
  assumes foc: "focus t fs (Node l (old, c) r)" and l: "l \<noteq> Leaf" and r: "r \<noteq> Leaf"
  shows "\<exists>t' gs x k m. remove_double t old = Some (Inr (t', par_of (gs @ (Rgt, x, c, l) # fs), ptr m, code k)) \<and>
    focus t' (gs @ (Rgt, x, c, l) # fs) m \<and> r = plug gs (mk Rgt m x k Leaf) \<and> lpart gs = [] \<and> rb_keys t' = rb_keys t"
proof -
  have foc_mk: "focus t fs (mk Lft l old c r)" using foc by simp
  note foc_r = focus_sub(2) [OF foc_mk, unfolded flip.simps]
  have rr: "RB_RIGHT t old = Inr (ptr r)" using focus_reads(3) [OF foc_mk] by (simp add: get_child_def)
  have "rtree (rb_cells t) old r" using foc by (auto simp: focus_def)
  from rb_leftmost_ok [OF this r] obtain gs x k m where
    lm: "c_loop (\<lambda>x. Some (rb_leftmost_body t x)) (ptr r) = Some (Inr x)" and rp: "r = plug gs (mk Rgt m x k Leaf)"
    and gs: "lpart gs = []" "gs = [] \<or> par_of gs \<in> set (seq r)" by blast
  let ?hs = "gs @ (Rgt, old, c, l) # fs"
  have foc_x: "focus t ?hs (mk Rgt m x k Leaf)" using foc_r rp focus_plug by metis
  have rd: "RB_RIGHT t x = Inr (ptr m)" "RB_PARENT t x = Inr (par_of ?hs)" "RB_COLOR t x = Inr (code k)"
    using focus_reads [OF foc_x] by (simp_all add: get_child_def)
  from splice_out_ok [OF foc_x refl] obtain t1 where
    t1: "splice_out t (par_of ?hs) x (ptr m) = Inr t1" "focus t1 ?hs m" "rb_cells t1 x = rb_cells t x" "rb_keys t1 = rb_keys t"
    by blast
  have par1: "RB_PARENT t1 x = Inr (par_of ?hs)" using rd(2) t1(3) by (simp add: RB_PARENT_def fetch_def)
  have foc1: "focus t1 fs (Node l (old, c) (plug gs m))" using t1(2) by (simp add: focus_plug focus_step)
  have dist: "distinct (seq (Node l (old, c) r))" "fset fs \<inter> set (seq (Node l (old, c) r)) = {}" using foc by (auto simp: focus_def)
  have xr: "x \<in> set (seq r)" "x \<noteq> 0" using rp focus_reads(1) [OF foc_x] by (simp_all add: set_plug)
  have xm: "x \<notin> set (seq (plug gs m))"
    using dist(1) rp distinct_plug [of gs "mk Rgt m x k Leaf"] by (auto simp: set_plug)
  obtain dx where dx: "rb_cells t1 x = Some dx" using foc_x t1(3) by (auto simp: focus_def)
  from take_place_ok [OF foc1 l dx xr(2)] dist xr xm obtain t2 where
    t2: "take_place t1 old x = Inr t2" "focus t2 fs (Node l (x, c) (plug gs m))" "rb_keys t2 = rb_keys t1" by auto
  let ?fs = "gs @ (Rgt, x, c, l) # fs"
  have foc2: "focus t2 ?fs m" using t2(2) by (simp add: focus_plug focus_step)
  have par: "(if par_of ?hs = old then x else par_of ?hs) = par_of ?fs"
    using gs(2) dist(1) by (cases gs) auto
  have "par_of ?fs \<noteq> 0" using focus_par [OF foc2] by simp
  then have "remove_double t old = Some (Inr (t2, par_of ?fs, ptr m, code k))"
    using rr lm rd t1(1) par1 t2(1) augment_walk [OF foc2] unfolding remove_double_def Let_def
    by (simp add: par cong: if_cong)
  with foc2 rp gs(1) t1(4) t2(3) show ?thesis by metis
qed

section \<open>Removal\<close>

lemma seq_decomp: "x \<in> set (seq T) \<Longrightarrow> \<exists>fs l c r. T = plug fs (Node l (x, c) r)"
proof (induction T)
  case (Node l ac r)
  obtain a c where ac: "ac = (a, c)" by force
  from Node.prems ac consider "x = a" | "x \<in> set (seq l)" | "x \<in> set (seq r)" by auto
  then show ?case
  proof cases
    case 1
    then show ?thesis using ac by (intro exI [of _ "[]"]) auto
  next
    case 2
    with Node.IH(1) obtain fs l' c' r' where "l = plug fs (Node l' (x, c') r')" by blast
    then show ?thesis using ac by (intro exI [of _ "fs @ [(Lft, a, c, r)]"]) auto
  next
    case 3
    with Node.IH(2) obtain fs l' c' r' where "r = plug fs (Node l' (x, c') r')" by blast
    then show ?thesis using ac by (intro exI [of _ "fs @ [(Rgt, a, c, l)]"]) auto
  qed
qed simp

text \<open>The invariants do not depend on the addresses.\<close>

lemma accepts_rename: "accepts (gs @ (d, a, k, s) # fs) n c \<longleftrightarrow> accepts (gs @ (d, b, k, s) # fs) n c"
  by (induction gs arbitrary: n c) auto

lemma top_black_append: "top_black (gs @ fs) \<longleftrightarrow> (if fs = [] then top_black gs else top_black fs)"
proof (induction gs)
  case (Cons g gs)
  obtain d a c sib where "g = (d, a, c, sib)" by (cases g) auto
  with Cons show ?case by (auto simp: top_black_step)
qed simp

lemma top_black_rename: "top_black (gs @ (d, a, k, s) # fs) \<longleftrightarrow> top_black (gs @ (d, b, k, s) # fs)"
  by (simp add: top_black_append top_black_step)

text \<open>
  What is left when a node with one child \<open>m\<close> has been unlinked from a red-black
  tree: a red-black tree if the node was red, else the state that
  \<open>RB_REMOVE_COLOR\<close> repairs.
\<close>

lemma unlinked:
  assumes T: "no_red_red (plug fs (mk d m x k Leaf))" "balanced (plug fs (mk d m x k Leaf))"
      "color_of (plug fs (mk d m x k Leaf)) = Black"
    and foc: "focus t fs' m" and fs': "\<And>n c. accepts fs n c \<Longrightarrow> accepts fs' n c" "top_black fs \<Longrightarrow> top_black fs'" "fs' = [] \<Longrightarrow> fs = []"
    and xs: "seq (plug fs' m) = xs" and keys: "rb_keys t = rb_keys t0"
  shows "if k = Black then \<exists>n. remove_inv t0 xs n (t, par_of fs', ptr m) else rb_tree (plug fs' m)"
proof -
  have "no_red_red (mk d m x k Leaf) \<and> balanced (mk d m x k Leaf) \<and> accepts fs (blacks (mk d m x k Leaf)) k"
    using T(1,2) accepts_plug [of fs "mk d m x k Leaf"] by simp
  then have m: "no_red_red m" "balanced m" "blacks m = 0" "k = Red \<longrightarrow> color_of m = Black"
    and acc: "accepts fs' (if k = Black then Suc (blacks m) else blacks m) k"
    using fs'(1) by (auto simp: blacks_mk)
  have top: "top_black fs" using T(3) color_of_plug [of fs Leaf "mk d m x k Leaf"] by (cases "fs = []") (auto simp: top_black_def)
  show ?thesis
  proof (cases k)
    case Black
    have "remove_inv t0 xs (if color_of m = Red then 0 else Suc (length fs')) (t, par_of fs', ptr m)"
      unfolding remove_inv_def prod.case
      using m acc foc fs'(2) [OF top] xs keys no_red_red_blacken [of m] Black
      by (intro exI [of _ fs'] exI [of _ m]) auto
    with Black show ?thesis by auto
  next
    case Red
    have "fs' \<noteq> []" using T(3) Red fs'(3) by auto
    then have "color_of (plug fs' m) = Black" using fs'(2) [OF top] color_of_plug [of fs' m Leaf] by (auto simp: top_black_def)
    moreover have "no_red_red (plug fs' m) \<and> balanced (plug fs' m)"
      using m acc Red accepts_black by (subst accepts_plug) auto
    ultimately show ?thesis using Red by (simp add: rb_tree_def)
  qed
qed

lemma RB_REMOVE_finish:
  assumes run: "bindR (Some (RB_LEFT t x)) (\<lambda>l. bindR (Some (RB_RIGHT t x)) (\<lambda>r.
      if l = 0 then Some (remove_simple t x r) else if r = 0 then Some (remove_simple t x l) else remove_double t x))
      = Some (Inr (t1, par_of fs', ptr m, code k))"
    and foc: "focus t1 fs' m" and xs: "seq (plug fs' m) = xs" and keys: "rb_keys t1 = rb_keys t"
    and inv: "if k = Black then \<exists>n. remove_inv t xs n (t1, par_of fs', ptr m) else rb_tree (plug fs' m)"
  shows "\<exists>t' T. RB_REMOVE x t = Some (Inr t') \<and> focus t' [] T \<and> rb_tree T \<and> seq T = xs \<and> rb_keys t' = rb_keys t"
proof (cases k)
  case Black
  with inv RB_REMOVE_COLOR_ok obtain t' T where
    "RB_REMOVE_COLOR (par_of fs') (ptr m) t1 = Some (Inr t')" "focus t' [] T" "rb_tree T" "seq T = xs" "rb_keys t' = rb_keys t"
    by (metis (full_types))
  with run Black show ?thesis by (auto simp: RB_REMOVE_def)
next
  case Red
  have "focus t1 [] (plug fs' m)" using foc focus_plug [of t1 fs' "[]" m] by simp
  with run Red inv xs keys show ?thesis by (auto simp: RB_REMOVE_def RB_RED_def RB_BLACK_def)
qed

lemma remove_simple_ok:
  assumes foc: "focus t fs (mk d m x k Leaf)"
  shows "\<exists>t'. remove_simple t x (ptr m) = Inr (t', par_of fs, ptr m, code k) \<and> focus t' fs m \<and> rb_keys t' = rb_keys t"
proof -
  from splice_out_ok [OF foc refl] obtain t' where
    "splice_out t (par_of fs) x (ptr m) = Inr t'" "focus t' fs m" "rb_keys t' = rb_keys t" by blast
  with focus_reads(4,5) [OF foc] show ?thesis by (simp add: remove_simple_def)
qed

lemma RB_REMOVE_tree:
  assumes foc: "focus t [] T" and T: "rb_tree T" and x: "x \<in> set (seq T)"
  shows "\<exists>t' T'. RB_REMOVE x t = Some (Inr t') \<and> focus t' [] T' \<and> rb_tree T' \<and> seq T' = remove1 x (seq T) \<and>
    rb_keys t' = rb_keys t"
proof -
  from seq_decomp [OF x] obtain fs l c r where dec: "T = plug fs (Node l (x, c) r)" by blast
  have foc_x: "focus t fs (mk Lft l x c r)" using foc focus_plug [of t fs "[]"] dec by simp
  have rd: "RB_LEFT t x = Inr (ptr l)" "RB_RIGHT t x = Inr (ptr r)" using focus_reads(2,3) [OF foc_x] by (simp_all add: get_child_def)
  have nn: "ptr l = 0 \<longleftrightarrow> l = Leaf" "ptr r = 0 \<longleftrightarrow> r = Leaf"
    using focus_nonnull [OF focus_sub(1) [OF foc_x]] focus_nonnull [OF focus_sub(2) [OF foc_x]] by auto
  have dist: "distinct (seq T)" using foc by (simp add: focus_def)
  have rem: "remove1 x (seq T) = lpart fs @ seq l @ seq r @ rpart fs"
    using dist dec by (auto simp: seq_plug remove1_append)
  have inv: "no_red_red T" "balanced T" "color_of T = Black" using T by (auto simp: rb_tree_def)
  show ?thesis
  proof (cases "l = Leaf \<or> r = Leaf")
    case True
    define m where "m = (if l = Leaf then r else l)"
    define d where "d = (if l = Leaf then Rgt else Lft)"
    have mk: "mk Lft l x c r = mk d m x c Leaf" using True by (auto simp: m_def d_def)
    from remove_simple_ok [OF foc_x [unfolded mk]] obtain t1 where
      t1: "remove_simple t x (ptr m) = Inr (t1, par_of fs, ptr m, code c)" "focus t1 fs m" "rb_keys t1 = rb_keys t" by blast
    have xs: "seq (plug fs m) = remove1 x (seq T)" using rem True by (auto simp: seq_plug m_def)
    have run: "bindR (Some (RB_LEFT t x)) (\<lambda>l. bindR (Some (RB_RIGHT t x)) (\<lambda>r.
      if l = 0 then Some (remove_simple t x r) else if r = 0 then Some (remove_simple t x l) else remove_double t x))
      = Some (Inr (t1, par_of fs, ptr m, code c))"
      using rd nn True t1(1) by (auto simp: m_def)
    have Tm: "T = plug fs (mk d m x c Leaf)" using dec mk by simp
    show ?thesis
      by (rule RB_REMOVE_finish [OF run t1(2) xs t1(3)],
          rule unlinked [OF inv [unfolded Tm] t1(2) _ _ _ xs t1(3)])
  next
    case False
    from remove_double_ok [OF foc_x [unfolded mk.simps]] False obtain t1 gs y k m where
      t1: "remove_double t x = Some (Inr (t1, par_of (gs @ (Rgt, y, c, l) # fs), ptr m, code k))"
        "focus t1 (gs @ (Rgt, y, c, l) # fs) m" "r = plug gs (mk Rgt m y k Leaf)" "lpart gs = []" "rb_keys t1 = rb_keys t"
      by auto
    have run: "bindR (Some (RB_LEFT t x)) (\<lambda>l. bindR (Some (RB_RIGHT t x)) (\<lambda>r.
      if l = 0 then Some (remove_simple t x r) else if r = 0 then Some (remove_simple t x l) else remove_double t x))
      = Some (Inr (t1, par_of (gs @ (Rgt, y, c, l) # fs), ptr m, code k))"
      using rd nn False t1(1) by auto
    have xs: "seq (plug (gs @ (Rgt, y, c, l) # fs) m) = remove1 x (seq T)"
      using rem t1(3,4) by (simp add: seq_plug)
    have Tm: "T = plug (gs @ (Rgt, x, c, l) # fs) (mk Rgt m y k Leaf)" using dec t1(3) by simp
    show ?thesis
      by (rule RB_REMOVE_finish [OF run t1(2) xs t1(5)],
          rule unlinked [OF inv [unfolded Tm] t1(2) accepts_rename [THEN iffD1] top_black_rename [THEN iffD1] _ xs t1(5)])
        simp_all
  qed
qed

end
