(* ===== verification/Rb_Index.thy ===== *)
theory Rb_Index
  imports Rb_Remove
begin

text \<open>
  Finding and iterating in the red-black trees of \<open>utils/tree.h\<close>, the trees as an
  interpretation of \<open>ordered_index\<close>, the bound on their height, and the
  properties of the component.
\<close>

section \<open>Finding\<close>

definition find_inv :: "('k \<Rightarrow> 'k \<Rightarrow> int) \<Rightarrow> 'k rb \<Rightarrow> 'k \<Rightarrow> rbt \<Rightarrow> nat \<Rightarrow> nat \<Rightarrow> bool" where
  "find_inv cmp t k T n p \<longleftrightarrow>
     (\<exists>fs s. focus t fs s \<and> plug fs s = T \<and> p = ptr s \<and> between cmp (rbkey t) k fs \<and> size s = n)"

lemma find_step:
  assumes inv: "find_inv cmp t k T n p" and asc: "ascending cmp (rbkey t) (seq T)" and x: "rb_keys t x = Some k"
  shows "\<exists>p' leave. find_body cmp t x p = Inr (p', leave) \<and>
    (if leave then p' = find_asc cmp (rbkey t) x (seq T) else \<exists>n'<n. find_inv cmp t k T n' p')"
proof -
  have ok: "cmp_ok cmp" using asc by auto
  have k: "rbkey t x = k" using x by simp
  from inv obtain fs S where foc: "focus t fs S" and T: "plug fs S = T" and p: "p = ptr S"
    and bet: "between cmp (rbkey t) k fs" and n: "size S = n" by (auto simp: find_inv_def)
  show ?thesis
  proof (cases S)
    case Leaf
    have "\<not> (\<exists>y\<in>set (seq T). cmp (rbkey t x) (rbkey t y) = 0)"
      using bet k T Leaf cmp_flip [OF ok, of k] by (auto simp: between_def seq_plug) (metis less_irrefl)+
    then have "find_asc cmp (rbkey t) x (seq T) = 0" by (rule find_asc_absent)
    with p Leaf show ?thesis by (auto simp: find_body_def)
  next
    case (Node l ac r)
    obtain a c where ac: "ac = (a, c)" by force
    have foc': "focus t fs (mk Lft l a c r)" using foc Node ac by simp
    have a: "a \<noteq> 0" "p = a" using focus_reads(1) [OF foc'] p Node ac by auto
    have cmp: "rb_cmp cmp t x a = Inr (cmp k (rbkey t a))" using rb_cmp_ok [OF x] focus_keys [OF foc', of a] by simp
    have TS: "T = plug fs (Node l (a, c) r)" using T Node ac by simp
    note go = between_step [OF asc [unfolded TS] bet]
    note rd = focus_reads(2,3) [OF foc'] and sub = focus_sub [OF foc']
    consider "cmp k (rbkey t a) = 0" | "cmp k (rbkey t a) < 0" | "0 < cmp k (rbkey t a)" by linarith
    then show ?thesis
    proof cases
      case 1
      have sq: "seq T = (lpart fs @ seq l) @ a # seq r @ rpart fs" using TS by (simp add: seq_plug)
      have "find_asc cmp (rbkey t) x (seq T) = a"
        using find_asc_present [OF asc [unfolded sq]] 1 k sq by simp
      with 1 a cmp show ?thesis by (auto simp: find_body_def)
    next
      case 2
      have "find_inv cmp t k T (size l) (ptr l)"
        unfolding find_inv_def using go(1) [OF 2] sub(1) TS by (intro exI [of _ "(Lft, a, c, r) # fs"] exI [of _ l]) auto
      moreover have "size l < n" using n Node by simp
      ultimately show ?thesis using 2 a cmp rd
        by (intro exI [of _ "ptr l"] exI [of _ False]) (auto simp: find_body_def get_child_def)
    next
      case 3
      have "find_inv cmp t k T (size r) (ptr r)"
        unfolding find_inv_def using go(2) [OF 3] sub(2) TS by (intro exI [of _ "(Rgt, a, c, l) # fs"] exI [of _ r]) auto
      moreover have "size r < n" using n Node by simp
      ultimately show ?thesis using 3 a cmp rd
        by (intro exI [of _ "ptr r"] exI [of _ False]) (auto simp: find_body_def get_child_def)
    qed
  qed
qed

lemma RB_FIND_ok:
  assumes rel: "rb_rel cmp t xs" and x: "rb_keys t x = Some k"
  shows "RB_FIND cmp x t = Some (Inr (find_asc cmp (rbkey t) x xs))"
proof -
  from rel obtain T where T: "focus t [] T" "seq T = xs" and asc: "ascending cmp (rbkey t) xs" by (auto simp: rb_rel_def)
  have "find_inv cmp t k T (size T) (RB_ROOT t)"
    unfolding find_inv_def using T focus_root [OF T(1)] by (intro exI [of _ "[]"] exI [of _ T]) (simp add: RB_ROOT_def)
  moreover have "\<exists>p' leave. Some (find_body cmp t x p) = Some (Inr (p', leave)) \<and>
    (if leave then p' = find_asc cmp (rbkey t) x xs else \<exists>n'<n. find_inv cmp t k T n' p')" if "find_inv cmp t k T n p" for n p
    using find_step [OF that _ x] asc T(2) by (simp only: option.inject)
  ultimately show ?thesis
    using c_loop_rule [where I = "find_inv cmp t k T" and body = "\<lambda>p. Some (find_body cmp t x p)"
        and Q = "\<lambda>p. p = find_asc cmp (rbkey t) x xs"] unfolding RB_FIND_def by blast
qed

section \<open>Least and greatest element\<close>

lemma minmax_walk_ok:
  "rtree (rb_cells t) q T \<Longrightarrow> c_loop (\<lambda>s. Some (minmax_walk t v s)) (ptr T, p) =
     Some (Inr (0, if T = Leaf then p else if v < 0 then hd (seq T) else last (seq T)))"
proof (induction T arbitrary: p q)
  case Leaf
  show ?case by (simp add: c_loop.simps minmax_walk_def)
next
  case (Node l ac r)
  obtain a c where ac: "ac = (a, c)" by force
  with Node.prems obtain e where e: "a \<noteq> 0" "rb_cells t a = Some e" "rbe_left e = ptr l" "rbe_right e = ptr r"
    "rtree (rb_cells t) a l" "rtree (rb_cells t) a r" by auto
  have "seq S = [] \<longleftrightarrow> S = Leaf" for S by (cases S) auto
  with Node.IH(1) [OF e(5), of a] Node.IH(2) [OF e(6), of a] e ac show ?case
    by (simp add: c_loop.simps [of _ "(a, p)"] minmax_walk_def RB_LEFT_def RB_RIGHT_def)
qed

lemma RB_MINMAX_ok:
  assumes rel: "rb_rel cmp t xs"
  shows "RB_MINMAX v t = Some (Inr (if xs = [] then 0 else if v < 0 then hd xs else last xs))"
proof -
  from rel obtain T where T: "focus t [] T" "seq T = xs" by (auto simp: rb_rel_def)
  have "rtree (rb_cells t) 0 T" "RB_ROOT t = ptr T" using T(1) by (auto simp: focus_def RB_ROOT_def)
  moreover have "xs = [] \<longleftrightarrow> T = Leaf" using T(2) by (cases T) auto
  ultimately show ?thesis using minmax_walk_ok [of t 0 T v 0] T(2) by (simp add: RB_MINMAX_def)
qed

section \<open>The next element\<close>

definition first_of :: "nat list \<Rightarrow> nat" where
  "first_of xs = (if xs = [] then 0 else hd xs)"

lemma parent_of_focus: "focus t fs s \<Longrightarrow> s \<noteq> Leaf \<Longrightarrow> RB_PARENT t (ptr s) = Inr (par_of fs)"
  using focus_reads(4) mk_exhaust [of s Lft] by fastforce

lemma is_child_side:
  assumes "focus t fs s" "s \<noteq> Leaf"
  shows "is_child (get_child d) t (ptr s) = Inr (\<exists>a c sib gs. fs = (d, a, c, sib) # gs)"
proof (cases fs)
  case Nil
  with parent_of_focus [OF assms] show ?thesis by (simp add: is_child_def)
next
  case (Cons f gs)
  obtain d' p k w where f: "f = (d', p, k, w)" by (cases f) auto
  have foc: "focus t gs (mk d' s p k w)" using assms(1) Cons f by (simp add: focus_step)
  have "d = d' \<or> d = flip d'" by (cases d; cases d') auto
  with focus_reads(1-3) [OF foc] focus_siblings [OF foc] assms(2) Cons f parent_of_focus [OF assms] show ?thesis
    by (auto simp: is_child_def)
qed

lemmas is_child_ok = is_child_side [where d = Lft, unfolded get_child_def, simplified]
  is_child_side [where d = Rgt, unfolded get_child_def, simplified]

lemma climb_ok:
  "focus t fs s \<Longrightarrow> s \<noteq> Leaf \<Longrightarrow>
   \<exists>y. c_loop (\<lambda>x. Some (climb_body t x)) (ptr s) = Some (Inr y) \<and> RB_PARENT t y = Inr (first_of (rpart fs))"
proof (induction fs arbitrary: s)
  case Nil
  with is_child_ok(2) [OF Nil] parent_of_focus [OF Nil] show ?case
    by (simp add: c_loop.simps [of _ "ptr s"] climb_body_def first_of_def)
next
  case (Cons f gs)
  obtain d p k w where f: "f = (d, p, k, w)" by (cases f) auto
  have par: "RB_PARENT t (ptr s) = Inr p" using parent_of_focus [OF Cons.prems] f by simp
  have foc: "focus t gs (mk d s p k w)" using Cons.prems(1) f by (simp add: focus_step)
  show ?case
  proof (cases d)
    case Lft
    with is_child_ok(2) [OF Cons.prems] f par show ?thesis
      by (simp add: c_loop.simps [of _ "ptr s"] climb_body_def first_of_def)
  next
    case Rgt
    with is_child_ok(2) [OF Cons.prems] f par Cons.IH [OF foc] show ?thesis
      by (simp add: c_loop.simps [of _ "ptr s"] climb_body_def)
  qed
qed

lemma RB_NEXT_ok:
  assumes rel: "rb_rel cmp t xs" and x: "x \<in> set xs"
  shows "RB_NEXT x t = Some (Inr (next_in x xs))"
proof -
  from rel obtain T where T: "focus t [] T" "seq T = xs" by (auto simp: rb_rel_def)
  from seq_decomp x T(2) obtain fs l c r where dec: "T = plug fs (Node l (x, c) r)" by metis
  have foc: "focus t fs (mk Lft l x c r)" using T(1) focus_plug [of t fs "[]"] dec by simp
  have xs: "xs = (lpart fs @ seq l) @ x # seq r @ rpart fs" using T(2) dec by (simp add: seq_plug)
  have "distinct xs" using T by (simp add: focus_def)
  then have nx: "next_in x xs = first_of (seq r @ rpart fs)" unfolding xs by (subst next_in_append) (auto simp: first_of_def)
  have rd: "RB_RIGHT t x = Inr (ptr r)" "RB_PARENT t x = Inr (par_of fs)"
    using focus_reads(3,4) [OF foc] by (simp_all add: get_child_def)
  have nn: "ptr r = 0 \<longleftrightarrow> r = Leaf" by (rule focus_nonnull [OF focus_sub(2) [OF foc]])
  show ?thesis
  proof (cases "r = Leaf")
    case False
    have "rtree (rb_cells t) x r" using foc by (simp add: focus_def)
    from rb_leftmost_ok [OF this False] obtain gs y k m where
      y: "c_loop (\<lambda>x. Some (rb_leftmost_body t x)) (ptr r) = Some (Inr y)" "r = plug gs (mk Rgt m y k Leaf)" "lpart gs = []"
      by blast
    have "first_of (seq r @ rpart fs) = y" using y(2,3) by (simp add: seq_plug first_of_def)
    with y(1) rd nn False nx show ?thesis by (simp add: RB_NEXT_def)
  next
    case True
    show ?thesis
    proof (cases "\<exists>a c sib gs. fs = (Lft, a, c, sib) # gs")
      case left: True
      then have "first_of (rpart fs) = par_of fs" by (auto simp: first_of_def)
      with left True rd nx is_child_ok(1) [OF foc] show ?thesis by (simp add: RB_NEXT_def)
    next
      case False
      from climb_ok [OF foc] obtain y where
        "c_loop (\<lambda>x. Some (climb_body t x)) x = Some (Inr y)" "RB_PARENT t y = Inr (first_of (rpart fs))" by auto
      with False True rd nx is_child_ok(1) [OF foc] show ?thesis by (simp add: RB_NEXT_def)
    qed
  qed
qed

section \<open>The contract of an ordered index\<close>

lemma rb_rel_dom:
  assumes "rb_rel cmp t xs" "x \<in> set xs"
  shows "x \<noteq> 0 \<and> rb_keys t x \<noteq> None"
proof -
  from assms obtain T where "focus t [] T" "seq T = xs" by (auto simp: rb_rel_def)
  with assms(2) rtree_dom [of "rb_cells t" 0 T x] show ?thesis by (auto simp: focus_def rb_keys_def)
qed

lemma RB_REMOVE_ok:
  assumes rel: "rb_rel cmp t xs" and x: "x \<in> set xs"
  shows "\<exists>t'. RB_REMOVE x t = Some (Inr t') \<and> rb_rel cmp t' (remove1 x xs) \<and> rb_keys t' = rb_keys t"
proof -
  from rel obtain T where T: "focus t [] T" "rb_tree T" "seq T = xs" and asc: "ascending cmp (rbkey t) xs"
    by (auto simp: rb_rel_def)
  have "ascending cmp (rbkey t) (remove1 x xs)"
    using asc by (induction xs) (auto simp: ascending_Cons dest: notin_set_remove1)
  with RB_REMOVE_tree [OF T(1,2)] T(3) x show ?thesis by (fastforce simp: rb_rel_def)
qed

definition rb_put :: "('k \<Rightarrow> 'k \<Rightarrow> int) \<Rightarrow> nat \<Rightarrow> 'k rb \<Rightarrow> 'k rb run" where
  "rb_put cmp x t = bindR (RB_INSERT cmp x t) (\<lambda>(r, t). Some (Inr t))"

interpretation rb_index: ordered_index "rb_rel cmp" rb_keys cmp "rb_put cmp" RB_REMOVE
  "\<lambda>x. with_state (RB_FIND cmp x)" "with_state RB_MIN" "\<lambda>x. with_state (RB_NEXT x)" for cmp :: "'k \<Rightarrow> 'k \<Rightarrow> int"
proof
  fix t :: "'k rb" and xs x
  assume rel: "rb_rel cmp t xs"
  show "ascending cmp (\<lambda>a. the (rb_keys t a)) xs" using rel by (simp add: rb_rel_def)
  show "x \<noteq> 0 \<and> rb_keys t x \<noteq> None" if "x \<in> set xs" using rb_rel_dom [OF rel that] .
  show "\<exists>t'. rb_put cmp x t = Some (Inr t') \<and> rb_rel cmp t' (insert_asc cmp (\<lambda>a. the (rb_keys t a)) x xs) \<and> rb_keys t' = rb_keys t"
    if "x \<noteq> 0" "rb_keys t x \<noteq> None" "x \<notin> set xs" using RB_INSERT_ok [OF rel] that by (fastforce simp: rb_put_def)
  show "\<exists>t'. RB_REMOVE x t = Some (Inr t') \<and> rb_rel cmp t' (remove1 x xs) \<and> rb_keys t' = rb_keys t"
    if "x \<in> set xs" using RB_REMOVE_ok [OF rel that] .
  show "\<exists>t'. with_state (RB_FIND cmp x) t = Some (Inr (find_asc cmp (\<lambda>a. the (rb_keys t a)) x xs, t')) \<and> rb_rel cmp t' xs \<and> rb_keys t' = rb_keys t"
    if "rb_keys t x \<noteq> None" using RB_FIND_ok [OF rel] that rel by (auto simp: with_state_def)
  show "\<exists>t'. with_state RB_MIN t = Some (Inr (if xs = [] then 0 else hd xs, t')) \<and> rb_rel cmp t' xs \<and> rb_keys t' = rb_keys t"
    using RB_MINMAX_ok [OF rel] rel by (simp add: with_state_def RB_MIN_def RB_NEGINF_def)
  show "\<exists>t'. with_state (RB_NEXT x) t = Some (Inr (next_in x xs, t')) \<and> rb_rel cmp t' xs \<and> rb_keys t' = rb_keys t"
    if "x \<in> set xs" using RB_NEXT_ok [OF rel that] rel by (simp add: with_state_def)
qed

section \<open>The height\<close>

text \<open>The pointer reached from a node by a sequence of steps to the left or right child.\<close>

fun walk :: "'k rb \<Rightarrow> side list \<Rightarrow> nat \<Rightarrow> nat exec" where
  "walk t [] p = Inr p"
| "walk t (d # ds) p = bindE (get_child d t p) (walk t ds)"

lemma walk_height:
  "rtree (rb_cells t) q T \<Longrightarrow> walk t ds (ptr T) = Inr p \<Longrightarrow> p \<noteq> 0 \<Longrightarrow> rb_cells t 0 = None \<Longrightarrow> length ds < height T"
proof (induction ds arbitrary: q T)
  case Nil
  then show ?case by (cases T) auto
next
  case (Cons d ds)
  show ?case
  proof (cases "T = Leaf")
    case True
    with Cons.prems show ?thesis by (simp add: get_child_eq fetch_def)
  next
    case False
    then obtain s a c sib where T: "T = mk d s a c sib" using mk_exhaust by blast
    with Cons.prems obtain e where "rb_cells t a = Some e" "child d e = ptr s" "rtree (rb_cells t) a s" by (auto simp: rtree_mk)
    with Cons.prems Cons.IH [of a s] T have "length ds < height s" by simp
    with T show ?thesis by (cases d) auto
  qed
qed

lemma height_blacks:
  "no_red_red T \<Longrightarrow> balanced T \<Longrightarrow> height T \<le> 2 * blacks T + (if color_of T = Red then 1 else 0)"
proof (induction T)
  case (Node l ac r)
  then show ?case by (cases ac; cases "color_of l"; cases "color_of r"; cases "snd ac") auto
qed simp

lemma blacks_size: "balanced T \<Longrightarrow> 2 ^ blacks T \<le> length (seq T) + 1"
proof (induction T)
  case (Node l ac r)
  then show ?case by (cases ac; cases "snd ac") auto
qed simp

lemma rb_tree_height:
  assumes "rb_tree T"
  shows "2 ^ height T \<le> (length (seq T) + 1) ^ 2"
proof -
  have "height T \<le> 2 * blacks T" using height_blacks [of T] assms by (auto simp: rb_tree_def)
  then have "2 ^ height T \<le> (2 :: nat) ^ (2 * blacks T)" by (rule power_increasing) simp
  also have "\<dots> = (2 ^ blacks T) ^ 2" by (simp add: power_mult mult.commute)
  also have "\<dots> \<le> (length (seq T) + 1) ^ 2" using blacks_size [of T] assms by (intro power_mono) (auto simp: rb_tree_def)
  finally show ?thesis .
qed

end
