(* ===== verification/Rb_History.thy ===== *)
theory Rb_History
  imports Rb_Index "HOL-Library.Multiset"
begin

text \<open>
  The trees a client of \<open>utils/tree.h\<close> can reach with \<open>RB_INIT\<close>, \<open>RB_INSERT\<close> and
  \<open>RB_REMOVE\<close> while it allocates, changes and frees elements that are in no tree,
  and the properties of the red-black trees.
\<close>

section \<open>Histories\<close>

text \<open>
  A tree and the elements its client has put in and not taken out, in no
  particular order.  \<open>RB_INSERT\<close> returns the element that was already there with
  an equal key, so the new one is in the tree only if it returns \<open>NULL\<close>.
\<close>

inductive rb_run :: "('k \<Rightarrow> 'k \<Rightarrow> int) \<Rightarrow> 'k rb \<Rightarrow> nat list \<Rightarrow> bool" for cmp where
  init: "rb_cells t 0 = None \<Longrightarrow> rb_run cmp (RB_INIT t) []"
| store: "rb_run cmp t xs \<Longrightarrow> a \<notin> set xs \<Longrightarrow> a \<noteq> 0 \<Longrightarrow> rb_run cmp (t\<lparr>rb_cells := (rb_cells t)(a := e)\<rparr>) xs"
| insert: "rb_run cmp t xs \<Longrightarrow> x \<notin> set xs \<Longrightarrow> x \<noteq> 0 \<Longrightarrow> rb_cells t x \<noteq> None \<Longrightarrow>
    RB_INSERT cmp x t = Some (Inr (r, t')) \<Longrightarrow>
    rb_run cmp t' (if r = 0 then x # xs else xs)"
| remove: "rb_run cmp t xs \<Longrightarrow> x \<in> set xs \<Longrightarrow> RB_REMOVE x t = Some (Inr t') \<Longrightarrow> rb_run cmp t' (remove1 x xs)"

lemma rb_rel_store:
  assumes "rb_rel cmp t xs" "a \<notin> set xs"
  shows "rb_rel cmp (t\<lparr>rb_cells := (rb_cells t)(a := e)\<rparr>) xs"
proof -
  from assms obtain T where "focus t [] T" "rb_tree T" "seq T = xs" "ascending cmp (rbkey t) xs" by (auto simp: rb_rel_def)
  moreover have "ascending cmp (rbkey (t\<lparr>rb_cells := (rb_cells t)(a := e)\<rparr>)) xs \<longleftrightarrow> ascending cmp (rbkey t) xs"
    using assms(2) by (intro ascending_cong) (auto simp: rb_keys_def)
  ultimately show ?thesis using assms(2) by (auto simp: rb_rel_def focus_def)
qed

lemma find_asc_zero:
  assumes "0 \<notin> set xs"
  shows "find_asc cmp key x xs = 0 \<longleftrightarrow> \<not> (\<exists>y\<in>set xs. cmp (key x) (key y) = 0)"
proof (cases "find (\<lambda>y. cmp (key x) (key y) = 0) xs")
  case None
  from None find_None_iff [THEN iffD1, OF None] show ?thesis by (simp add: find_asc_def)
next
  case (Some y)
  then have "y \<in> set xs" "cmp (key x) (key y) = 0" using find_Some_iff [THEN iffD1, OF Some] by auto
  with Some assms show ?thesis by (auto simp: find_asc_def)
qed

lemma find_asc_member:
  "find_asc cmp key x xs \<noteq> 0 \<Longrightarrow> find_asc cmp key x xs \<in> set xs \<and> cmp (key x) (key (find_asc cmp key x xs)) = 0"
  by (auto simp: find_asc_def split: option.splits dest!: find_Some_iff [THEN iffD1])

lemma RB_INSERT_same: "RB_INSERT cmp x t = Some (Inr (r, t')) \<Longrightarrow> r \<noteq> 0 \<Longrightarrow> t' = t"
  by (auto simp: RB_INSERT_def bindR_eq_ok split: if_splits prod.splits)

lemma mset_insert_asc:
  assumes "0 \<notin> set xs"
  shows "mset (insert_asc cmp key x xs) = mset (if find_asc cmp key x xs = 0 then x # xs else xs)"
proof -
  let ?P = "\<lambda>y. cmp (key y) (key x) < 0"
  have "mset (takeWhile ?P xs) + mset (dropWhile ?P xs) = mset xs" by (metis mset_append takeWhile_dropWhile_id)
  then show ?thesis by (simp add: find_asc_zero [OF assms] insert_asc_def)
qed

lemma rb_run_rel:
  "rb_run cmp t xs \<Longrightarrow> cmp_ok cmp \<Longrightarrow> rb_cells t 0 = None \<and> (\<exists>ys. rb_rel cmp t ys \<and> mset ys = mset xs)"
proof (induction rule: rb_run.induct)
  case (init t)
  have "focus (RB_INIT t) [] Leaf" by (simp add: focus_def RB_INIT_def)
  moreover have "rb_tree Leaf" by (simp add: rb_tree_def)
  ultimately show ?case using init by (force simp: rb_rel_def RB_INIT_def)
next
  case (store t xs a e)
  then obtain ys where "rb_cells t 0 = None" "rb_rel cmp t ys" "mset ys = mset xs" by blast
  with store rb_rel_store [of cmp t ys a e] show ?case by (auto dest: mset_eq_setD)
next
  case (insert t xs x r t')
  then obtain ys where ys: "rb_cells t 0 = None" "rb_rel cmp t ys" "mset ys = mset xs" by blast
  have set: "set ys = set xs" by (rule mset_eq_setD [OF ys(3)])
  obtain k where k: "rb_keys t x = Some k" using insert.hyps by (auto simp: rb_keys_def)
  have "x \<notin> set ys" "0 \<notin> set ys" using set insert.hyps rb_rel_dom [OF ys(2), of 0] by auto
  with RB_INSERT_ok [OF ys(2) k insert.hyps(3)] insert.hyps have
    t': "r = find_asc cmp (rbkey t) x ys" "rb_rel cmp t' (insert_asc cmp (rbkey t) x ys)" "rb_keys t' = rb_keys t" by auto
  have "mset (insert_asc cmp (rbkey t) x ys) = mset (if r = 0 then x # xs else xs)"
    using t'(1) \<open>0 \<notin> set ys\<close> ys(3) mset_insert_asc [of ys cmp "rbkey t" x] by simp
  moreover have "rb_cells t' 0 = None" using fun_cong [OF t'(3), of 0] ys(1) by (simp add: rb_keys_def)
  ultimately show ?case using t'(2) by blast
next
  case (remove t xs x t')
  then obtain ys where ys: "rb_cells t 0 = None" "rb_rel cmp t ys" "mset ys = mset xs" by blast
  have "x \<in> set ys" using remove.hyps mset_eq_setD [OF ys(3)] by simp
  from RB_REMOVE_ok [OF ys(2) this] remove.hyps have t': "rb_rel cmp t' (remove1 x ys)" "rb_keys t' = rb_keys t" by auto
  have "rb_cells t' 0 = None" using fun_cong [OF t'(2), of 0] ys(1) by (simp add: rb_keys_def)
  with t'(1) ys(3) show ?case by fastforce
qed

section \<open>Properties\<close>

text \<open>A tree of three elements with the keys 10, 20 and 30, and a fourth element with the key 25 outside it.\<close>

definition sample_cells :: "int rb" where
  "sample_cells = \<lparr>rb_cells =
     [1 \<mapsto> \<lparr>rb_key = 10, rbe_left = 0, rbe_right = 0, rbe_parent = 2, rbe_color = 1\<rparr>,
      2 \<mapsto> \<lparr>rb_key = 20, rbe_left = 1, rbe_right = 3, rbe_parent = 0, rbe_color = 0\<rparr>,
      3 \<mapsto> \<lparr>rb_key = 30, rbe_left = 0, rbe_right = 0, rbe_parent = 2, rbe_color = 1\<rparr>,
      4 \<mapsto> \<lparr>rb_key = 25, rbe_left = 0, rbe_right = 0, rbe_parent = 0, rbe_color = 0\<rparr>], rbh_root = 2\<rparr>"

text \<open>
  C26. Whatever a client does with inserts and removals, the pointers of the heap form
  a red-black tree: parent pointers and colours included, no red node has a red
  child, the root is black and all paths down have the same number of black nodes.
  Its elements are those the client put in and did not take out, in the order of
  the comparison.
\<close>

theorem rb_run_red_black:
  assumes "rb_run cmp t xs" "cmp_ok cmp"
  shows "\<exists>T. RB_ROOT t = ptr T \<and> rtree (rb_cells t) 0 T \<and> no_red_red T \<and> balanced T \<and> color_of T = Black \<and>
    mset (seq T) = mset xs \<and> ascending cmp (rbkey t) (seq T)"
  using rb_run_rel [OF assms] by (auto simp: rb_rel_def focus_def rb_tree_def RB_ROOT_def)

lemma sample_cells_run: "rb_run (\<lambda>a b. a - b) (RB_INIT sample_cells) []"
  by (rule rb_run.init) (simp add: sample_cells_def)

lemma sample_int_ok: "cmp_ok (\<lambda>a b. a - b :: int)"
  by (auto simp: cmp_ok_def)

lemma sample_insert: "\<exists>t'. RB_INSERT (\<lambda>a b. a - b) x (RB_INIT sample_cells) = Some (Inr (0, t')) \<and> rb_run (\<lambda>a b. a - b) t' [x]"
  if x: "x \<in> {1, 2, 3, 4}"
proof -
  let ?t = "RB_INIT sample_cells"
  have "rb_rel (\<lambda>a b. a - b) ?t []" using rb_run_rel [OF sample_cells_run sample_int_ok] by simp
  moreover have "rb_keys ?t x \<noteq> None" using x by (auto simp: rb_keys_def RB_INIT_def sample_cells_def)
  moreover from this obtain k where "rb_keys ?t x = Some k" by blast
  ultimately obtain t' where t': "RB_INSERT (\<lambda>a b. a - b) x ?t = Some (Inr (0, t'))"
    using RB_INSERT_ok [of "\<lambda>a b. a - b" ?t "[]" x k] x by (fastforce simp: find_asc_def)
  moreover have "rb_run (\<lambda>a b. a - b) t' (if 0 = (0 :: nat) then [x] else [])"
    by (rule rb_run.insert [OF sample_cells_run _ _ _ t']) (use x in \<open>auto simp: RB_INIT_def sample_cells_def\<close>)
  ultimately show ?thesis by auto
qed

theorem rb_run_red_black_witness:
  "\<exists>t' T. RB_INSERT (\<lambda>a b. a - b) 4 (RB_INIT sample_cells) = Some (Inr (0, t')) \<and> RB_ROOT t' = ptr T \<and> seq T = [4] \<and>
     color_of T = Black"
proof -
  obtain t' where t': "RB_INSERT (\<lambda>a b. a - b) 4 (RB_INIT sample_cells) = Some (Inr (0, t'))" "rb_run (\<lambda>a b. a - b) t' [4]"
    using sample_insert [of 4] by auto
  from rb_run_red_black [OF t'(2) sample_int_ok] t'(1) show ?thesis by auto
qed

text \<open>
  C27. The height is at most \<open>2 lg (n + 1)\<close>, as the header promises: if following \<open>d\<close>
  child pointers down from the root leads to an element, then \<open>2 ^ (d + 1)\<close> is at
  most \<open>(n + 1)\<close> squared, for the number \<open>n\<close> of elements the client put in.
\<close>

theorem rb_run_height:
  assumes "rb_run cmp t xs" "cmp_ok cmp" "walk t ds (RB_ROOT t) = Inr p" "p \<noteq> 0"
  shows "2 ^ (length ds + 1) \<le> (length xs + 1) ^ 2"
proof -
  from rb_run_rel [OF assms(1,2)] obtain ys T where
    T: "rb_cells t 0 = None" "mset ys = mset xs" "focus t [] T" "rb_tree T" "seq T = ys" by (auto simp: rb_rel_def)
  then have "rtree (rb_cells t) 0 T" "RB_ROOT t = ptr T" by (auto simp: focus_def RB_ROOT_def)
  with walk_height [of t 0 T ds p] assms(3,4) T(1) have "2 ^ (length ds + 1) \<le> (2 :: nat) ^ height T"
    by (intro power_increasing) auto
  also have "\<dots> \<le> (length xs + 1) ^ 2" using rb_tree_height [OF T(4)] T(5) mset_eq_length [OF T(2)] by simp
  finally show ?thesis .
qed

theorem rb_run_height_witness:
  "\<exists>t'. rb_run (\<lambda>a b. a - b :: int) t' [4] \<and> walk t' [] (RB_ROOT t') = Inr 4 \<and>
     (2 :: nat) ^ (length ([] :: side list) + 1) \<le> (length [4 :: nat] + 1) ^ 2"
proof -
  obtain t' :: "int rb" where t': "rb_run (\<lambda>a b. a - b) t' [4]" using sample_insert [of 4] by auto
  from rb_run_rel [OF t' sample_int_ok] obtain T where T: "focus t' [] T" "seq T = [4]" by (auto simp: rb_rel_def)
  then have "ptr T = 4" by (cases T) (auto simp: append_eq_Cons_conv)
  then have w: "walk t' [] (RB_ROOT t') = Inr 4" using focus_root [OF T(1)] by (simp add: RB_ROOT_def)
  from rb_run_height [OF t' sample_int_ok this] t' w show ?thesis by auto
qed

text \<open>
  C28. Every operation on a tree reached by the client ends with a result: inserting
  an allocated element outside the tree either puts it in or returns the element
  that has its key and leaves the heap alone, \<open>RB_FIND\<close> returns the element with
  the key or \<open>NULL\<close>, and removing any element of the tree succeeds.
\<close>

theorem rb_run_progress:
  assumes "rb_run cmp t xs" "cmp_ok cmp" "rb_cells t x \<noteq> None"
  shows "(x \<in> set xs \<longrightarrow> (\<exists>t'. RB_REMOVE x t = Some (Inr t') \<and> rb_run cmp t' (remove1 x xs))) \<and>
    (\<exists>r. RB_FIND cmp x t = Some (Inr r) \<and>
       (if r = 0 then \<forall>y\<in>set xs. cmp (rbkey t x) (rbkey t y) \<noteq> 0 else r \<in> set xs \<and> cmp (rbkey t x) (rbkey t r) = 0) \<and>
       (x \<notin> set xs \<longrightarrow> (\<exists>t'. RB_INSERT cmp x t = Some (Inr (r, t')) \<and> (r \<noteq> 0 \<longrightarrow> t' = t) \<and> (r = 0 \<longrightarrow> rb_run cmp t' (x # xs)))))"
proof -
  from rb_run_rel [OF assms(1,2)] obtain ys where
    ys: "rb_cells t 0 = None" "rb_rel cmp t ys" "mset ys = mset xs" by blast
  have set: "set ys = set xs" by (rule mset_eq_setD [OF ys(3)])
  obtain k where k: "rb_keys t x = Some k" using assms(3) by (auto simp: rb_keys_def)
  have x0: "x \<noteq> 0" using assms(3) ys(1) by metis
  let ?r = "find_asc cmp (rbkey t) x ys"
  have find: "RB_FIND cmp x t = Some (Inr ?r)" by (rule RB_FIND_ok [OF ys(2) k])
  have "0 \<notin> set ys" using rb_rel_dom [OF ys(2), of 0] by auto
  then have r: "if ?r = 0 then \<forall>y\<in>set xs. cmp (rbkey t x) (rbkey t y) \<noteq> 0 else ?r \<in> set xs \<and> cmp (rbkey t x) (rbkey t ?r) = 0"
    using find_asc_zero [of ys cmp "rbkey t" x] find_asc_member [of cmp "rbkey t" x ys] set by auto
  have ins: "\<exists>t'. RB_INSERT cmp x t = Some (Inr (?r, t')) \<and> (?r \<noteq> 0 \<longrightarrow> t' = t) \<and> (?r = 0 \<longrightarrow> rb_run cmp t' (x # xs))"
    if new: "x \<notin> set xs"
  proof -
    from RB_INSERT_ok [OF ys(2) k x0] new set obtain t' where t': "RB_INSERT cmp x t = Some (Inr (?r, t'))" by auto
    with RB_INSERT_same [OF t'] rb_run.insert [OF assms(1) new x0 assms(3) t'] show ?thesis by auto
  qed
  have "\<exists>t'. RB_REMOVE x t = Some (Inr t') \<and> rb_run cmp t' (remove1 x xs)" if "x \<in> set xs"
    using RB_REMOVE_ok [OF ys(2), of x] rb_run.remove [OF assms(1) that] that set by auto
  with find r ins show ?thesis by (intro conjI impI exI [of _ ?r])
qed

theorem rb_run_progress_witness:
  "\<exists>t' t''. rb_run (\<lambda>a b. a - b) t' [4] \<and> RB_REMOVE 4 t' = Some (Inr t'') \<and> rb_run (\<lambda>a b. a - b :: int) t'' []"
proof -
  obtain t' :: "int rb" where t': "rb_run (\<lambda>a b. a - b) t' [4]" using sample_insert [of 4] by auto
  from rb_run_rel [OF t' sample_int_ok] obtain ys where ys: "rb_rel (\<lambda>a b. a - b) t' ys" "mset ys = mset [4]" by blast
  have "set ys = set [4]" by (rule mset_eq_setD [OF ys(2)])
  then have "rb_cells t' 4 \<noteq> None" using rb_rel_dom [OF ys(1), of 4] by (auto simp: rb_keys_def)
  from rb_run_progress [OF t' sample_int_ok this] t' show ?thesis by auto
qed

end
