(* ===== verification/Ordered_Trees.thy ===== *)
theory Ordered_Trees
  imports Splay_Tree Rb_History
begin

text \<open>
  The two kinds of trees of \<open>utils/tree.h\<close> meet the same contract, so a client that
  uses only its operations cannot tell them apart.
\<close>

section \<open>Ascending sequences are determined by their elements\<close>

lemma ascending_unique:
  "ascending cmp key xs \<Longrightarrow> ascending cmp key ys \<Longrightarrow> set xs = set ys \<Longrightarrow> xs = ys"
proof (induction xs arbitrary: ys)
  case (Cons x xs)
  then obtain y zs where ys: "ys = y # zs" by (cases ys) auto
  have ok: "cmp_ok cmp" using Cons.prems(1) by auto
  have "x = y"
  proof (rule ccontr)
    assume "x \<noteq> y"
    with Cons.prems(3) ys have "y \<in> set xs" "x \<in> set zs" by auto
    with Cons.prems ys have "cmp (key x) (key y) < 0" "cmp (key y) (key x) < 0" by (auto simp: ascending_Cons)
    with cmp_flip [OF ok, of "key x" "key y"] show False by auto
  qed
  moreover have "x \<notin> set xs" "y \<notin> set zs" using ascending_distinct Cons.prems ys by fastforce+
  with \<open>x = y\<close> have "set xs = set zs" using Cons.prems(3) ys insert_ident [of x "set xs" "set zs"] by simp
  ultimately show ?case using Cons.IH [of zs] Cons.prems ys by (auto simp: ascending_Cons)
qed simp

section \<open>Filling, looping and draining\<close>

lemma splay_session:
  assumes "cmp_ok cmp" "distinct ys" "\<And>y. y \<in> set ys \<Longrightarrow> y \<noteq> 0 \<and> keys t y \<noteq> None"
    and "\<And>y z. y \<in> set ys \<Longrightarrow> z \<in> set ys \<Longrightarrow> cmp (key_of t y) (key_of t z) = 0 \<Longrightarrow> y = z"
    and "distinct ds" "set ds \<subseteq> set ys"
  shows "\<exists>t1 t2 t3 t4 zs. run_all (SPLAY_INSERT cmp) ys (SPLAY_INIT t) = Some (Inr t1) \<and>
    SPLAY_FOREACH cmp t1 = Some (Inr (zs, t2)) \<and> set zs = set ys \<and> ascending cmp (key_of t) zs \<and>
    run_all (SPLAY_REMOVE cmp) ds t2 = Some (Inr t3) \<and>
    SPLAY_FOREACH cmp t3 = Some (Inr (filter (\<lambda>z. z \<notin> set ds) zs, t4))"
proof -
  have rel: "splay_rel cmp (SPLAY_INIT t) []"
    using assms(1) by (intro splay_relI [of _ _ _ Leaf]) (simp_all add: SPLAY_INIT_def)
  have "keys (SPLAY_INIT t) = keys t" by (simp add: SPLAY_INIT_def)
  with splay_index.session_law [OF rel, of ys ds] assms(2-6) show ?thesis unfolding SPLAY_FOREACH_def by auto
qed

lemma rb_session:
  assumes "cmp_ok cmp" "distinct ys" "\<And>y. y \<in> set ys \<Longrightarrow> y \<noteq> 0 \<and> rb_keys t y \<noteq> None"
    and "\<And>y z. y \<in> set ys \<Longrightarrow> z \<in> set ys \<Longrightarrow> cmp (rbkey t y) (rbkey t z) = 0 \<Longrightarrow> y = z"
    and "distinct ds" "set ds \<subseteq> set ys"
  shows "\<exists>t1 t2 t3 t4 zs. run_all (rb_put cmp) ys (RB_INIT t) = Some (Inr t1) \<and>
    RB_FOREACH t1 = Some (Inr (zs, t2)) \<and> set zs = set ys \<and> ascending cmp (rbkey t) zs \<and>
    run_all RB_REMOVE ds t2 = Some (Inr t3) \<and> RB_FOREACH t3 = Some (Inr (filter (\<lambda>z. z \<notin> set ds) zs, t4))"
proof -
  have "focus (RB_INIT t) [] Leaf" "rb_tree Leaf" by (simp_all add: focus_def RB_INIT_def rb_tree_def)
  then have rel: "rb_rel cmp (RB_INIT t) []" using assms(1) by (force simp: rb_rel_def)
  have "rb_keys (RB_INIT t) = rb_keys t" by (simp add: RB_INIT_def)
  with rb_index.session_law [OF rel, of ys ds] assms(2-6) show ?thesis unfolding RB_FOREACH_def by auto
qed

section \<open>Property\<close>

text \<open>
  C30. Splay trees and red-black trees are interchangeable: for the same elements with
  the same keys, filling either tree and looping over it gives the same list, the
  sorted one, and after the same removals the loops agree again.
\<close>

theorem trees_agree:
  assumes "cmp_ok cmp" "rb_keys t = keys s" "distinct ys" "\<And>y. y \<in> set ys \<Longrightarrow> y \<noteq> 0 \<and> keys s y \<noteq> None"
    and "\<And>y z. y \<in> set ys \<Longrightarrow> z \<in> set ys \<Longrightarrow> cmp (key_of s y) (key_of s z) = 0 \<Longrightarrow> y = z"
    and "distinct ds" "set ds \<subseteq> set ys"
  shows "\<exists>zs t1 t2 t3 t4 s1 s2 s3 s4. set zs = set ys \<and> ascending cmp (key_of s) zs \<and>
    run_all (rb_put cmp) ys (RB_INIT t) = Some (Inr t1) \<and> RB_FOREACH t1 = Some (Inr (zs, t2)) \<and>
    run_all RB_REMOVE ds t2 = Some (Inr t3) \<and> RB_FOREACH t3 = Some (Inr (filter (\<lambda>z. z \<notin> set ds) zs, t4)) \<and>
    run_all (SPLAY_INSERT cmp) ys (SPLAY_INIT s) = Some (Inr s1) \<and> SPLAY_FOREACH cmp s1 = Some (Inr (zs, s2)) \<and>
    run_all (SPLAY_REMOVE cmp) ds s2 = Some (Inr s3) \<and> SPLAY_FOREACH cmp s3 = Some (Inr (filter (\<lambda>z. z \<notin> set ds) zs, s4))"
proof -
  from splay_session [OF assms(1,3-7)] obtain s1 s2 s3 s4 zs where
    s: "run_all (SPLAY_INSERT cmp) ys (SPLAY_INIT s) = Some (Inr s1)" "SPLAY_FOREACH cmp s1 = Some (Inr (zs, s2))"
      "set zs = set ys" "ascending cmp (key_of s) zs" "run_all (SPLAY_REMOVE cmp) ds s2 = Some (Inr s3)"
      "SPLAY_FOREACH cmp s3 = Some (Inr (filter (\<lambda>z. z \<notin> set ds) zs, s4))" by blast
  from rb_session [of cmp ys t ds] assms obtain t1 t2 t3 t4 us where
    t: "run_all (rb_put cmp) ys (RB_INIT t) = Some (Inr t1)" "RB_FOREACH t1 = Some (Inr (us, t2))"
      "set us = set ys" "ascending cmp (key_of s) us" "run_all RB_REMOVE ds t2 = Some (Inr t3)"
      "RB_FOREACH t3 = Some (Inr (filter (\<lambda>z. z \<notin> set ds) us, t4))" by auto
  have "us = zs" by (rule ascending_unique [OF t(4) s(4)]) (use t(3) s(3) in simp)
  with s t show ?thesis by blast
qed

text \<open>The elements of \<open>sample_splay\<close> as elements of a red-black tree.\<close>

definition sample_rb :: "int rb" where
  "sample_rb = \<lparr>rb_cells = map_option (\<lambda>e. \<lparr>rb_key = spl_key e, rbe_left = 0, rbe_right = 0, rbe_parent = 0, rbe_color = 0\<rparr>) \<circ>
     spl_cells sample_splay, rbh_root = 0\<rparr>"

theorem trees_agree_witness:
  "\<exists>zs t1 t2 s1 s2. run_all (rb_put (\<lambda>a b. a - b)) [2, 3, 1] (RB_INIT sample_rb) = Some (Inr t1) \<and>
     RB_FOREACH t1 = Some (Inr (zs, t2)) \<and>
     run_all (SPLAY_INSERT (\<lambda>a b. a - b)) [2, 3, 1] (SPLAY_INIT sample_splay) = Some (Inr s1) \<and>
     SPLAY_FOREACH (\<lambda>a b. a - b) s1 = Some (Inr (zs, s2))"
proof -
  have "rb_keys sample_rb = keys sample_splay"
    by (auto simp: sample_rb_def rb_keys_def keys_def fun_eq_iff option.map_comp comp_def)
  moreover have "y = z" if "y \<in> set [2, 3, 1]" "z \<in> set [2, 3, 1]"
    "key_of sample_splay y - key_of sample_splay z = 0" for y z
    using that by (auto simp: sample_splay_def keys_def)
  moreover have "y \<noteq> 0 \<and> keys sample_splay y \<noteq> None" if "y \<in> set [2, 3, 1]" for y
    using that by (auto simp: sample_splay_def keys_def)
  moreover have "distinct [2, 3, 1 :: nat]" "distinct [2 :: nat]" "set [2] \<subseteq> set [2, 3, 1 :: nat]" by simp_all
  ultimately show ?thesis
    using trees_agree [OF cmp_ok_int, of sample_rb sample_splay "[2, 3, 1]" "[2]"] by blast
qed

end
