(* ===== verification/Linked_Spec.thy ===== *)
theory Linked_Spec
  imports Http_Prelude
begin

text \<open>
  What the intrusive lists and queues of \<open>inc/list.h\<close> have in common: pointers to
  a pointer field, chains of linked elements, loops over them, the operations as
  functions on lists of addresses, and the contract that the kinds of lists share.
\<close>

section \<open>Pointers to the next pointer\<close>

text \<open>
  A pointer of type \<open>struct type **\<close> is the address of the first pointer of the
  head or of the next pointer of an element, an unset value, or the value \<open>(void *)1\<close>
  that a debugging kernel leaves in a removed element.
\<close>

datatype loc = NoLoc | HeadLoc | NextLoc nat | PoisonLoc

section \<open>Chains\<close>

text \<open>
  From the pointer \<open>p\<close>, held in a place known as \<open>b\<close>, the chain visits the
  addresses of the list and ends with the pointer \<open>q\<close> held in \<open>b'\<close>.  The kinds of
  lists differ in the next field, in what the back field of an element says, and in
  how the place of its next pointer is written.
\<close>

fun chain ::
  "('e \<Rightarrow> nat) \<Rightarrow> ('e \<Rightarrow> 'b) \<Rightarrow> (nat \<Rightarrow> 'b) \<Rightarrow> (nat \<rightharpoonup> 'e) \<Rightarrow> 'b \<Rightarrow> nat \<Rightarrow> nat list \<Rightarrow> 'b \<Rightarrow> nat \<Rightarrow> bool" where
  "chain nxt back at h b p [] b' q = (b = b' \<and> p = q)"
| "chain nxt back at h b p (a # as) b' q =
     (p = a \<and> a \<noteq> 0 \<and> (\<exists>e. h a = Some e \<and> back e = b \<and> chain nxt back at h (at a) (nxt e) as b' q))"

lemma chain_append [simp]:
  "chain nxt back at h b p (as @ cs) b' q \<longleftrightarrow>
     (\<exists>c r. chain nxt back at h b p as c r \<and> chain nxt back at h c r cs b' q)"
  by (induction as arbitrary: b p) auto

lemma chain_upd [simp]:
  "a \<notin> set as \<Longrightarrow> chain nxt back at (h(a := e)) b p as b' q = chain nxt back at h b p as b' q"
  by (induction as arbitrary: b p) auto

lemma chain_dom: "chain nxt back at h b p as b' q \<Longrightarrow> a \<in> set as \<Longrightarrow> a \<noteq> 0 \<and> h a \<noteq> None"
  by (induction as arbitrary: b p) auto

lemma chain_last: "chain nxt back at h b p as b' q \<Longrightarrow> b' = (if as = [] then b else at (last as))"
  by (induction as arbitrary: b p) auto

lemma chain_first: "chain nxt back at h b p as b' q \<Longrightarrow> p = (if as = [] then q else hd as)"
  by (cases as) auto

section \<open>Loops over a chain\<close>

text \<open>
  \<open>for (x = p; x != stop; x = next(x))\<close>, with the list of the elements visited as
  the result.
\<close>

definition link_body :: "nat \<Rightarrow> (nat \<Rightarrow> nat exec) \<Rightarrow> nat \<times> nat list \<Rightarrow> ((nat \<times> nat list) \<times> bool) run" where
  "link_body stop nxt = (\<lambda>(x, seen).
     if x = stop then Some (Inr ((x, seen), True))
     else bindR (Some (nxt x)) (\<lambda>y. Some (Inr ((y, seen @ [x]), False))))"

definition visit :: "nat \<Rightarrow> (nat \<Rightarrow> nat exec) \<Rightarrow> nat \<Rightarrow> nat list run" where
  "visit stop nxt p = bindR (c_loop (link_body stop nxt) (p, [])) (\<lambda>(x, seen). Some (Inr seen))"

fun links :: "(nat \<Rightarrow> nat exec) \<Rightarrow> nat \<Rightarrow> nat list \<Rightarrow> nat \<Rightarrow> bool" where
  "links nxt q [] p = (p = q)"
| "links nxt q (a # as) p = (p = a \<and> (\<exists>r. nxt a = Inr r \<and> links nxt q as r))"

lemma links_append: "links nxt q (as @ bs) p \<longleftrightarrow> (\<exists>r. links nxt r as p \<and> links nxt q bs r)"
  by (induction as arbitrary: p) auto

lemma visit_links: "links nxt stop as p \<Longrightarrow> stop \<notin> set as \<Longrightarrow> visit stop nxt p = Some (Inr as)"
proof -
  have "links nxt stop as p \<Longrightarrow> stop \<notin> set as \<Longrightarrow>
    c_loop (link_body stop nxt) (p, seen) = Some (Inr (stop, seen @ as))" for seen
  proof (induction as arbitrary: p seen)
    case Nil
    then show ?case by (simp add: c_loop.simps link_body_def)
  next
    case (Cons a as)
    then obtain r where "p = a" "nxt a = Inr r" "links nxt stop as r" by auto
    with Cons show ?case by (simp add: c_loop.simps [of _ "(a, seen)"] link_body_def)
  qed
  then show "links nxt stop as p \<Longrightarrow> stop \<notin> set as \<Longrightarrow> visit stop nxt p = Some (Inr as)"
    by (simp add: visit_def)
qed

lemma chain_links:
  assumes "chain nxt back at h b p as b' q" "\<And>a e. h a = Some e \<Longrightarrow> f a = Inr (nxt e)"
  shows "links f q as p"
  using assms(1) by (induction as arbitrary: b p) (auto simp: assms(2))

text \<open>A chain read backwards, when the back field is the previous element.\<close>

lemma chain_links_back:
  assumes "chain nxt back at h b p as b' q" "\<And>a e. h a = Some e \<Longrightarrow> f a = Inr (val (back e))"
    and "\<And>a. val (at a) = a"
  shows "links f (val b) (rev as) (val b')"
  using assms(1)
proof (induction as arbitrary: b p)
  case (Cons a as)
  then obtain e where e: "h a = Some e" "back e = b" "chain nxt back at h (at a) (nxt e) as b' q" by auto
  from Cons.IH [OF e(3)] e(1,2) show ?case by (auto simp: assms(2,3) links_append)
qed simp

section \<open>Operations on lists of addresses\<close>

datatype list_op = InsHead nat | InsTail nat | InsAfter nat nat | InsBefore nat nat | Remove nat

fun after_elm :: "nat \<Rightarrow> nat \<Rightarrow> nat list \<Rightarrow> nat list" where
  "after_elm l x [] = []"
| "after_elm l x (y # ys) = (if y = l then y # x # ys else y # after_elm l x ys)"

fun before_elm :: "nat \<Rightarrow> nat \<Rightarrow> nat list \<Rightarrow> nat list" where
  "before_elm l x [] = []"
| "before_elm l x (y # ys) = (if y = l then x # y # ys else y # before_elm l x ys)"

fun apply_op :: "list_op \<Rightarrow> nat list \<Rightarrow> nat list" where
  "apply_op (InsHead x) xs = x # xs"
| "apply_op (InsTail x) xs = xs @ [x]"
| "apply_op (InsAfter l x) xs = after_elm l x xs"
| "apply_op (InsBefore l x) xs = before_elm l x xs"
| "apply_op (Remove x) xs = remove1 x xs"

text \<open>
  What the caller of an operation has to see to: an element that goes in is
  allocated and not in the list, the element it is put next to and one that is
  removed are in it.
\<close>

fun op_ok :: "(nat \<Rightarrow> bool) \<Rightarrow> list_op \<Rightarrow> nat list \<Rightarrow> bool" where
  "op_ok allocated (InsHead x) xs = (allocated x \<and> x \<notin> set xs)"
| "op_ok allocated (InsTail x) xs = (allocated x \<and> x \<notin> set xs)"
| "op_ok allocated (InsAfter l x) xs = (allocated x \<and> x \<notin> set xs \<and> l \<in> set xs)"
| "op_ok allocated (InsBefore l x) xs = (allocated x \<and> x \<notin> set xs \<and> l \<in> set xs)"
| "op_ok allocated (Remove x) xs = (x \<in> set xs)"

fun apply_ops :: "list_op list \<Rightarrow> nat list \<Rightarrow> nat list" where
  "apply_ops [] xs = xs"
| "apply_ops (c # cs) xs = apply_ops cs (apply_op c xs)"

fun ops_ok :: "(list_op \<Rightarrow> nat list \<Rightarrow> bool) \<Rightarrow> list_op list \<Rightarrow> nat list \<Rightarrow> bool" where
  "ops_ok ok [] xs = True"
| "ops_ok ok (c # cs) xs = (ok c xs \<and> ops_ok ok cs (apply_op c xs))"

fun run_ops :: "(list_op \<Rightarrow> 's \<Rightarrow> 's exec) \<Rightarrow> list_op list \<Rightarrow> 's \<Rightarrow> 's exec" where
  "run_ops f [] s = Inr s"
| "run_ops f (c # cs) s = bindE (f c s) (run_ops f cs)"

lemma after_elm_split: "l \<notin> set us \<Longrightarrow> after_elm l x (us @ l # vs) = us @ l # x # vs"
  by (induction us) auto

lemma before_elm_split: "l \<notin> set us \<Longrightarrow> before_elm l x (us @ l # vs) = us @ x # l # vs"
  by (induction us) auto

lemma remove1_split: "x \<notin> set us \<Longrightarrow> remove1 x (us @ x # vs) = us @ vs"
  by (simp add: remove1_append)

lemmas op_splits = after_elm_split before_elm_split remove1_split

text \<open>To prove something of the result of an operation, with the list split at the element it is about.\<close>

lemma op_by_splits [consumes 1, case_names Head Tail After Before Rem]:
  assumes "op_ok allocated c xs"
    and "\<And>x. c = InsHead x \<Longrightarrow> allocated x \<Longrightarrow> x \<notin> set xs \<Longrightarrow> P (x # xs)"
    and "\<And>x. c = InsTail x \<Longrightarrow> allocated x \<Longrightarrow> x \<notin> set xs \<Longrightarrow> P (xs @ [x])"
    and "\<And>us l vs x. c = InsAfter l x \<Longrightarrow> xs = us @ l # vs \<Longrightarrow> allocated x \<Longrightarrow> x \<notin> set xs \<Longrightarrow> P (us @ l # x # vs)"
    and "\<And>us l vs x. c = InsBefore l x \<Longrightarrow> xs = us @ l # vs \<Longrightarrow> allocated x \<Longrightarrow> x \<notin> set xs \<Longrightarrow> P (us @ x # l # vs)"
    and "\<And>us x vs. c = Remove x \<Longrightarrow> xs = us @ x # vs \<Longrightarrow> x \<notin> set us \<Longrightarrow> P (us @ vs)"
  shows "P (apply_op c xs)"
proof (cases c)
  case (InsAfter l x)
  with assms(1) obtain us vs where "xs = us @ l # vs" "l \<notin> set us" by (auto dest: split_list_first)
  with assms(1,4) InsAfter show ?thesis by (simp add: op_splits)
next
  case (InsBefore l x)
  with assms(1) obtain us vs where "xs = us @ l # vs" "l \<notin> set us" by (auto dest: split_list_first)
  with assms(1,5) InsBefore show ?thesis by (simp add: op_splits)
next
  case (Remove x)
  with assms(1) obtain us vs where "xs = us @ x # vs" "x \<notin> set us" by (auto dest: split_list_first)
  with assms(6) Remove show ?thesis by (simp add: op_splits)
qed (use assms in auto)

section \<open>The contracts\<close>

text \<open>
  A list holds elements at distinct addresses; an operation that it has and that
  is used as it should be does what the function on lists says and leaves the
  data of all elements alone; a loop visits the elements in order.
\<close>

locale linked =
  fixes rel :: "'s \<Rightarrow> nat list \<Rightarrow> bool"
    and data :: "'s \<Rightarrow> nat \<Rightarrow> 'v option"
    and has :: "list_op \<Rightarrow> nat list \<Rightarrow> bool"
    and exec_op :: "list_op \<Rightarrow> 's \<Rightarrow> 's exec"
    and forward :: "'s \<Rightarrow> nat list run"
  assumes op_law: "rel s xs \<Longrightarrow> has c xs \<Longrightarrow> op_ok (\<lambda>a. a \<noteq> 0 \<and> data s a \<noteq> None) c xs \<Longrightarrow>
      \<exists>s'. exec_op c s = Inr s' \<and> rel s' (apply_op c xs) \<and> data s' = data s"
    and forward_law: "rel s xs \<Longrightarrow> forward s = Some (Inr xs)"
begin

abbreviation legal :: "'s \<Rightarrow> list_op \<Rightarrow> nat list \<Rightarrow> bool" where
  "legal s c xs \<equiv> has c xs \<and> op_ok (\<lambda>a. a \<noteq> 0 \<and> data s a \<noteq> None) c xs"

lemma run_law:
  "rel s xs \<Longrightarrow> ops_ok (legal s) cs xs \<Longrightarrow>
   \<exists>s'. run_ops exec_op cs s = Inr s' \<and> rel s' (apply_ops cs xs) \<and> data s' = data s \<and>
     forward s' = Some (Inr (apply_ops cs xs))"
proof (induction cs arbitrary: s xs)
  case Nil
  then show ?case by (simp add: forward_law)
next
  case (Cons c cs)
  then obtain s1 where s1: "exec_op c s = Inr s1" "rel s1 (apply_op c xs)" "data s1 = data s"
    using op_law [of s xs c] by auto
  with Cons.IH [OF s1(2)] Cons.prems(2) show ?case by auto
qed

end

locale two_way = linked rel data has exec_op forward
  for rel and data and has and exec_op and forward :: "'s \<Rightarrow> nat list run" +
  fixes backward :: "'s \<Rightarrow> nat list run"
  assumes backward_law: "rel s xs \<Longrightarrow> backward s = Some (Inr (rev xs))"
begin

lemma run_two_way:
  assumes "rel s xs" "ops_ok (legal s) cs xs"
  shows "\<exists>s'. run_ops exec_op cs s = Inr s' \<and> rel s' (apply_ops cs xs) \<and> data s' = data s \<and>
    forward s' = Some (Inr (apply_ops cs xs)) \<and> backward s' = Some (Inr (rev (apply_ops cs xs)))"
  using run_law [OF assms] backward_law by blast

end

end
