(* ===== verification/Tail_Queue.thy ===== *)
theory Tail_Queue
  imports Linked_Spec
begin

text \<open>
  The tail queues of \<open>inc/list.h\<close>: the elements and the head live in one state, and
  a pointer to a next pointer is either that of the head or that of an element.
  \<open>TAILQ_LAST\<close> and \<open>TAILQ_PREV\<close> read such a pointer as the address of a head, whose
  second field is at the same offset as the back pointer of an element.
\<close>

section \<open>Data\<close>

record 'a tailq_elm =
  tq_data :: 'a
  tqe_next :: nat
  tqe_prev :: loc

record 'a tailq =
  tq_cells :: "nat \<rightharpoonup> 'a tailq_elm"
  tqh_first :: nat
  tqh_last :: loc

section \<open>Reading and writing\<close>

definition TAILQ_EMPTY :: "'a tailq \<Rightarrow> bool" where
  "TAILQ_EMPTY t \<longleftrightarrow> tqh_first t = 0"

definition TAILQ_FIRST :: "'a tailq \<Rightarrow> nat" where
  "TAILQ_FIRST t = tqh_first t"

definition TAILQ_NEXT :: "'a tailq \<Rightarrow> nat \<Rightarrow> nat exec" where
  "TAILQ_NEXT t p = bindE (fetch (tq_cells t) p) (\<lambda>e. Inr (tqe_next e))"

definition tqe_prev_of :: "'a tailq \<Rightarrow> nat \<Rightarrow> loc exec" where
  "tqe_prev_of t p = bindE (fetch (tq_cells t) p) (\<lambda>e. Inr (tqe_prev e))"

definition tq_upd :: "nat \<Rightarrow> ('a tailq_elm \<Rightarrow> 'a tailq_elm) \<Rightarrow> 'a tailq \<Rightarrow> 'a tailq exec" where
  "tq_upd p f t = bindE (modify (tq_cells t) p f) (\<lambda>h. Inr (t\<lparr>tq_cells := h\<rparr>))"

text \<open>\<open>*l\<close>, \<open>*l = q\<close>, and the second field of the structure that a cast finds at \<open>l\<close>.\<close>

definition tq_deref :: "'a tailq \<Rightarrow> loc \<Rightarrow> nat exec" where
  "tq_deref t l = (case l of NoLoc \<Rightarrow> Inl (Undef NullDeref) | HeadLoc \<Rightarrow> Inr (tqh_first t) | NextLoc a \<Rightarrow> TAILQ_NEXT t a
     | PoisonLoc \<Rightarrow> Inl (Undef BadPointer))"

definition tq_assign :: "loc \<Rightarrow> nat \<Rightarrow> 'a tailq \<Rightarrow> 'a tailq exec" where
  "tq_assign l q t = (case l of NoLoc \<Rightarrow> Inl (Undef NullDeref) | HeadLoc \<Rightarrow> Inr (t\<lparr>tqh_first := q\<rparr>)
     | NextLoc a \<Rightarrow> tq_upd a (\<lambda>e. e\<lparr>tqe_next := q\<rparr>) t
     | PoisonLoc \<Rightarrow> Inl (Undef BadPointer))"

definition tq_second :: "'a tailq \<Rightarrow> loc \<Rightarrow> loc exec" where
  "tq_second t l = (case l of NoLoc \<Rightarrow> Inl (Undef NullDeref) | HeadLoc \<Rightarrow> Inr (tqh_last t) | NextLoc a \<Rightarrow> tqe_prev_of t a
     | PoisonLoc \<Rightarrow> Inl (Undef BadPointer))"

definition TAILQ_LAST :: "'a tailq \<Rightarrow> nat exec" where
  "TAILQ_LAST t = bindE (tq_second t (tqh_last t)) (tq_deref t)"

definition TAILQ_PREV :: "'a tailq \<Rightarrow> nat \<Rightarrow> nat exec" where
  "TAILQ_PREV t p = bindE (tqe_prev_of t p) (\<lambda>l. bindE (tq_second t l) (tq_deref t))"

section \<open>The operations\<close>

definition TAILQ_INIT :: "'a tailq \<Rightarrow> 'a tailq" where
  "TAILQ_INIT t = t\<lparr>tqh_first := 0, tqh_last := HeadLoc\<rparr>"

definition TAILQ_HEAD_INITIALIZER :: "(nat \<rightharpoonup> 'a tailq_elm) \<Rightarrow> 'a tailq" where
  "TAILQ_HEAD_INITIALIZER h = \<lparr>tq_cells = h, tqh_first = 0, tqh_last = HeadLoc\<rparr>"

definition TAILQ_INSERT_HEAD :: "nat \<Rightarrow> 'a tailq \<Rightarrow> 'a tailq exec" where
  "TAILQ_INSERT_HEAD x t =
     bindE (tq_upd x (\<lambda>e. e\<lparr>tqe_next := tqh_first t\<rparr>) t) (\<lambda>t.
     bindE (if tqh_first t \<noteq> 0 then tq_upd (tqh_first t) (\<lambda>e. e\<lparr>tqe_prev := NextLoc x\<rparr>) t
            else Inr (t\<lparr>tqh_last := NextLoc x\<rparr>)) (\<lambda>t.
     tq_upd x (\<lambda>e. e\<lparr>tqe_prev := HeadLoc\<rparr>) (t\<lparr>tqh_first := x\<rparr>)))"

definition TAILQ_INSERT_TAIL :: "nat \<Rightarrow> 'a tailq \<Rightarrow> 'a tailq exec" where
  "TAILQ_INSERT_TAIL x t =
     bindE (tq_upd x (\<lambda>e. e\<lparr>tqe_next := 0\<rparr>) t) (\<lambda>t.
     bindE (tq_upd x (\<lambda>e. e\<lparr>tqe_prev := tqh_last t\<rparr>) t) (\<lambda>t.
     bindE (tq_assign (tqh_last t) x t) (\<lambda>t.
     Inr (t\<lparr>tqh_last := NextLoc x\<rparr>))))"

definition TAILQ_INSERT_AFTER :: "nat \<Rightarrow> nat \<Rightarrow> 'a tailq \<Rightarrow> 'a tailq exec" where
  "TAILQ_INSERT_AFTER l x t =
     bindE (TAILQ_NEXT t l) (\<lambda>n.
     bindE (tq_upd x (\<lambda>e. e\<lparr>tqe_next := n\<rparr>) t) (\<lambda>t.
     bindE (if n \<noteq> 0 then tq_upd n (\<lambda>e. e\<lparr>tqe_prev := NextLoc x\<rparr>) t
            else Inr (t\<lparr>tqh_last := NextLoc x\<rparr>)) (\<lambda>t.
     bindE (tq_upd l (\<lambda>e. e\<lparr>tqe_next := x\<rparr>) t) (\<lambda>t.
     tq_upd x (\<lambda>e. e\<lparr>tqe_prev := NextLoc l\<rparr>) t))))"

definition TAILQ_INSERT_BEFORE :: "nat \<Rightarrow> nat \<Rightarrow> 'a tailq \<Rightarrow> 'a tailq exec" where
  "TAILQ_INSERT_BEFORE l x t =
     bindE (tqe_prev_of t l) (\<lambda>pl.
     bindE (tq_upd x (\<lambda>e. e\<lparr>tqe_prev := pl\<rparr>) t) (\<lambda>t.
     bindE (tq_upd x (\<lambda>e. e\<lparr>tqe_next := l\<rparr>) t) (\<lambda>t.
     bindE (tqe_prev_of t l) (\<lambda>pl.
     bindE (tq_assign pl x t) (\<lambda>t.
     tq_upd l (\<lambda>e. e\<lparr>tqe_prev := NextLoc x\<rparr>) t)))))"

definition TAILQ_REMOVE :: "nat \<Rightarrow> 'a tailq \<Rightarrow> 'a tailq exec" where
  "TAILQ_REMOVE x t =
     bindE (TAILQ_NEXT t x) (\<lambda>n.
     bindE (tqe_prev_of t x) (\<lambda>pl.
     bindE (if n \<noteq> 0 then tq_upd n (\<lambda>e. e\<lparr>tqe_prev := pl\<rparr>) t else Inr (t\<lparr>tqh_last := pl\<rparr>)) (\<lambda>t.
     bindE (tqe_prev_of t x) (\<lambda>pl.
     bindE (TAILQ_NEXT t x) (\<lambda>n.
     tq_assign pl n t)))))"

definition TAILQ_FOREACH :: "'a tailq \<Rightarrow> nat list run" where
  "TAILQ_FOREACH t = visit 0 (TAILQ_NEXT t) (tqh_first t)"

definition TAILQ_FOREACH_REVERSE :: "'a tailq \<Rightarrow> nat list run" where
  "TAILQ_FOREACH_REVERSE t = bindR (Some (bindE (tq_second t (tqh_last t)) (tq_deref t))) (visit 0 (TAILQ_PREV t))"

text \<open>
  The checks of a kernel built with \<open>QUEUEDEBUG\<close>, which panics where these are
  true; in this program they are compiled out.
\<close>

definition QUEUEDEBUG_TAILQ_INSERT_HEAD :: "'a tailq \<Rightarrow> bool exec" where
  "QUEUEDEBUG_TAILQ_INSERT_HEAD t =
     (if tqh_first t \<noteq> 0 then bindE (tqe_prev_of t (tqh_first t)) (\<lambda>l. Inr (l \<noteq> HeadLoc)) else Inr False)"

definition QUEUEDEBUG_TAILQ_INSERT_TAIL :: "'a tailq \<Rightarrow> bool exec" where
  "QUEUEDEBUG_TAILQ_INSERT_TAIL t = bindE (tq_deref t (tqh_last t)) (\<lambda>p. Inr (p \<noteq> 0))"

definition QUEUEDEBUG_TAILQ_OP :: "nat \<Rightarrow> 'a tailq \<Rightarrow> bool exec" where
  "QUEUEDEBUG_TAILQ_OP x t =
     bindE (TAILQ_NEXT t x) (\<lambda>n.
     bindE (if n \<noteq> 0 then bindE (tqe_prev_of t n) (\<lambda>l. Inr (l \<noteq> NextLoc x)) else Inr False) (\<lambda>forw.
     if forw then Inr True
     else bindE (tqe_prev_of t x) (\<lambda>pl. bindE (tq_deref t pl) (\<lambda>p. Inr (p \<noteq> x)))))"

section \<open>The queue in the heap\<close>

abbreviation tq_chain :: "'a tailq \<Rightarrow> loc \<Rightarrow> nat \<Rightarrow> nat list \<Rightarrow> loc \<Rightarrow> nat \<Rightarrow> bool" where
  "tq_chain t \<equiv> chain tqe_next tqe_prev NextLoc (tq_cells t)"

definition tq_rel :: "'a tailq \<Rightarrow> nat list \<Rightarrow> bool" where
  "tq_rel t xs \<longleftrightarrow> distinct xs \<and> tq_chain t HeadLoc (tqh_first t) xs (tqh_last t) 0"

definition tq_values :: "'a tailq \<Rightarrow> nat \<Rightarrow> 'a option" where
  "tq_values t a = map_option tq_data (tq_cells t a)"

lemma tq_reads [simp]:
  "tq_cells t p = Some e \<Longrightarrow> TAILQ_NEXT t p = Inr (tqe_next e)"
  "tq_cells t p = Some e \<Longrightarrow> tqe_prev_of t p = Inr (tqe_prev e)"
  "tq_cells t p = Some e \<Longrightarrow> tq_upd p f t = Inr (t\<lparr>tq_cells := (tq_cells t)(p \<mapsto> f e)\<rparr>)"
  by (simp_all add: TAILQ_NEXT_def tqe_prev_of_def tq_upd_def)

lemma tq_locs [simp]:
  "tq_deref t HeadLoc = Inr (tqh_first t)" "tq_deref t (NextLoc a) = TAILQ_NEXT t a"
  "tq_assign HeadLoc q t = Inr (t\<lparr>tqh_first := q\<rparr>)"
  "tq_assign (NextLoc a) q t = tq_upd a (\<lambda>e. e\<lparr>tqe_next := q\<rparr>) t"
  "tq_second t HeadLoc = Inr (tqh_last t)" "tq_second t (NextLoc a) = tqe_prev_of t a"
  by (simp_all add: tq_deref_def tq_assign_def tq_second_def)

lemma tq_values_upd [simp]:
  "tq_cells t p = Some e \<Longrightarrow> tq_data e' = tq_data e \<Longrightarrow> tq_values (t\<lparr>tq_cells := (tq_cells t)(p \<mapsto> e')\<rparr>) = tq_values t"
  "tq_values (t\<lparr>tqh_first := q\<rparr>) = tq_values t" "tq_values (t\<lparr>tqh_last := l\<rparr>) = tq_values t"
  by (auto simp: tq_values_def fun_eq_iff)

lemma tq_last: "tq_rel t xs \<Longrightarrow> tqh_last t = (if xs = [] then HeadLoc else NextLoc (last xs))"
  by (auto simp: tq_rel_def dest: chain_last)

lemma TAILQ_INSERT_HEAD_ok:
  assumes "tq_rel t xs" "x \<noteq> 0" "tq_cells t x = Some e" "x \<notin> set xs"
  shows "\<exists>t'. TAILQ_INSERT_HEAD x t = Inr t' \<and> tq_rel t' (x # xs) \<and> tq_values t' = tq_values t"
  using assms by (cases xs) (auto simp: TAILQ_INSERT_HEAD_def tq_rel_def tq_values_def fun_eq_iff)

lemma TAILQ_INSERT_TAIL_ok:
  assumes "tq_rel t xs" "x \<noteq> 0" "tq_cells t x = Some e" "x \<notin> set xs"
  shows "\<exists>t'. TAILQ_INSERT_TAIL x t = Inr t' \<and> tq_rel t' (xs @ [x]) \<and> tq_values t' = tq_values t"
  using assms tq_last [OF assms(1)]
  by (cases xs rule: rev_cases) (auto simp: TAILQ_INSERT_TAIL_def tq_rel_def tq_values_def fun_eq_iff)

lemma TAILQ_INSERT_AFTER_ok:
  assumes "tq_rel t (us @ l # vs)" "x \<noteq> 0" "tq_cells t x = Some e" "x \<notin> set (us @ l # vs)"
  shows "\<exists>t'. TAILQ_INSERT_AFTER l x t = Inr t' \<and> tq_rel t' (us @ l # x # vs) \<and> tq_values t' = tq_values t"
  using assms by (cases vs) (auto simp: TAILQ_INSERT_AFTER_def tq_rel_def tq_values_def fun_eq_iff)

lemma TAILQ_INSERT_BEFORE_ok:
  assumes "tq_rel t (us @ l # vs)" "x \<noteq> 0" "tq_cells t x = Some e" "x \<notin> set (us @ l # vs)"
  shows "\<exists>t'. TAILQ_INSERT_BEFORE l x t = Inr t' \<and> tq_rel t' (us @ x # l # vs) \<and> tq_values t' = tq_values t"
  using assms by (cases us rule: rev_cases) (auto simp: TAILQ_INSERT_BEFORE_def tq_rel_def tq_values_def fun_eq_iff)

lemma TAILQ_REMOVE_ok:
  assumes "tq_rel t (us @ x # vs)"
  shows "\<exists>t'. TAILQ_REMOVE x t = Inr t' \<and> tq_rel t' (us @ vs) \<and> tq_values t' = tq_values t"
  using assms
  by (cases us rule: rev_cases; cases vs) (auto simp: TAILQ_REMOVE_def tq_rel_def tq_values_def fun_eq_iff)

lemma tq_second_deref:
  assumes "tq_rel t (us @ vs)" "us \<noteq> []"
  shows "bindE (tq_second t (NextLoc (last us))) (tq_deref t) = Inr (last us)"
proof -
  obtain ws y where us: "us = ws @ [y]" using assms(2) by (cases us rule: rev_cases) auto
  show ?thesis
  proof (cases ws rule: rev_cases)
    case Nil
    with us assms(1) show ?thesis by (auto simp: tq_rel_def)
  next
    case (snoc zs z)
    with us assms(1) show ?thesis by (auto simp: tq_rel_def)
  qed
qed

lemma TAILQ_LAST_ok:
  assumes "tq_rel t xs"
  shows "TAILQ_LAST t = Inr (if xs = [] then 0 else last xs)"
proof (cases "xs = []")
  case True
  with assms show ?thesis by (auto simp: TAILQ_LAST_def tq_rel_def)
next
  case False
  with tq_second_deref [of t xs "[]"] assms tq_last [OF assms] show ?thesis by (simp add: TAILQ_LAST_def)
qed

lemma TAILQ_PREV_ok:
  assumes "tq_rel t (us @ x # vs)"
  shows "TAILQ_PREV t x = Inr (if us = [] then 0 else last us)"
proof -
  from assms obtain c e where e: "tq_chain t HeadLoc (tqh_first t) us c x" "tq_cells t x = Some e" "tqe_prev e = c"
    by (auto simp: tq_rel_def)
  from chain_last [OF e(1)] e have prev: "tqe_prev_of t x = Inr (if us = [] then HeadLoc else NextLoc (last us))" by simp
  show ?thesis
  proof (cases "us = []")
    case True
    have "tq_second t HeadLoc = Inr (NextLoc (last (x # vs)))" using tq_last [OF assms] by simp
    moreover have "\<exists>f. tq_cells t (last (x # vs)) = Some f \<and> tqe_next f = 0"
      using assms by (cases "x # vs" rule: rev_cases) (auto simp: tq_rel_def)
    ultimately show ?thesis using prev True by (auto simp: TAILQ_PREV_def)
  next
    case False
    with tq_second_deref [OF assms] prev show ?thesis by (simp add: TAILQ_PREV_def)
  qed
qed

lemma TAILQ_FOREACH_ok:
  assumes "tq_rel t xs"
  shows "TAILQ_FOREACH t = Some (Inr xs)"
proof -
  have c: "tq_chain t HeadLoc (tqh_first t) xs (tqh_last t) 0" using assms by (simp add: tq_rel_def)
  have "links (TAILQ_NEXT t) 0 xs (tqh_first t)" by (rule chain_links [OF c]) simp
  moreover have "0 \<notin> set xs" using chain_dom [OF c, of 0] by auto
  ultimately show ?thesis unfolding TAILQ_FOREACH_def by (rule visit_links)
qed

lemma TAILQ_PREV_links:
  "tq_rel t (us @ vs) \<Longrightarrow> links (TAILQ_PREV t) 0 (rev us) (if us = [] then 0 else last us)"
proof (induction us arbitrary: vs rule: rev_induct)
  case (snoc x us)
  then have "tq_rel t (us @ x # vs)" by simp
  from snoc.IH [OF this] TAILQ_PREV_ok [OF this] show ?case by simp
qed simp

lemma TAILQ_FOREACH_REVERSE_ok:
  assumes "tq_rel t xs"
  shows "TAILQ_FOREACH_REVERSE t = Some (Inr (rev xs))"
proof -
  have "links (TAILQ_PREV t) 0 (rev xs) (if xs = [] then 0 else last xs)" using TAILQ_PREV_links [of t xs "[]"] assms by simp
  moreover have "0 \<notin> set (rev xs)" using assms chain_dom [of tqe_next tqe_prev NextLoc _ _ _ xs _ _ 0] by (auto simp: tq_rel_def)
  ultimately have "visit 0 (TAILQ_PREV t) (if xs = [] then 0 else last xs) = Some (Inr (rev xs))" by (rule visit_links)
  with TAILQ_LAST_ok [OF assms] show ?thesis by (simp add: TAILQ_FOREACH_REVERSE_def TAILQ_LAST_def)
qed

section \<open>The contract\<close>

fun TAILQ_OP :: "list_op \<Rightarrow> 'a tailq \<Rightarrow> 'a tailq exec" where
  "TAILQ_OP (InsHead x) = TAILQ_INSERT_HEAD x"
| "TAILQ_OP (InsTail x) = TAILQ_INSERT_TAIL x"
| "TAILQ_OP (InsAfter l x) = TAILQ_INSERT_AFTER l x"
| "TAILQ_OP (InsBefore l x) = TAILQ_INSERT_BEFORE l x"
| "TAILQ_OP (Remove x) = TAILQ_REMOVE x"

lemma TAILQ_OP_ok:
  assumes rel: "tq_rel t xs" and ok: "op_ok (\<lambda>a. a \<noteq> 0 \<and> tq_values t a \<noteq> None) c xs"
  shows "\<exists>t'. TAILQ_OP c t = Inr t' \<and> tq_rel t' (apply_op c xs) \<and> tq_values t' = tq_values t"
proof -
  have cell: "\<exists>e. tq_cells t x = Some e" if "x \<noteq> 0 \<and> tq_values t x \<noteq> None" for x using that by (auto simp: tq_values_def)
  from ok show ?thesis
  proof (induction rule: op_by_splits)
    case (Head x)
    with cell [of x] TAILQ_INSERT_HEAD_ok [OF rel] show ?case by auto
  next
    case (Tail x)
    with cell [of x] TAILQ_INSERT_TAIL_ok [OF rel] show ?case by auto
  next
    case (After us l vs x)
    with cell [of x] TAILQ_INSERT_AFTER_ok [of t us l vs x] rel show ?case by auto
  next
    case (Before us l vs x)
    with cell [of x] TAILQ_INSERT_BEFORE_ok [of t us l vs x] rel show ?case by auto
  next
    case (Rem us x vs)
    with TAILQ_REMOVE_ok [of t us x vs] rel show ?case by auto
  qed
qed

interpretation tailq: two_way tq_rel tq_values "\<lambda>c xs. True" TAILQ_OP TAILQ_FOREACH TAILQ_FOREACH_REVERSE
  by unfold_locales (simp_all add: TAILQ_OP_ok TAILQ_FOREACH_ok TAILQ_FOREACH_REVERSE_ok)

end
