(* ===== verification/Circle_Queue.thy ===== *)
theory Circle_Queue
  imports Linked_Spec
begin

text \<open>
  The circular queues of \<open>inc/list.h\<close>.  The head is at an address of its own; the
  ends of the queue are pointers to it, which the code casts to the type of an
  element and only compares.
\<close>

section \<open>Data\<close>

record 'a circleq_elm =
  cq_data :: 'a
  cqe_next :: nat
  cqe_prev :: nat

record 'a circleq =
  cq_cells :: "nat \<rightharpoonup> 'a circleq_elm"
  cq_head :: nat
  cqh_first :: nat
  cqh_last :: nat

section \<open>The operations\<close>

definition CIRCLEQ_EMPTY :: "'a circleq \<Rightarrow> bool" where
  "CIRCLEQ_EMPTY t \<longleftrightarrow> cqh_first t = cq_head t"

definition CIRCLEQ_FIRST :: "'a circleq \<Rightarrow> nat" where
  "CIRCLEQ_FIRST t = cqh_first t"

definition CIRCLEQ_LAST :: "'a circleq \<Rightarrow> nat" where
  "CIRCLEQ_LAST t = cqh_last t"

definition CIRCLEQ_NEXT :: "'a circleq \<Rightarrow> nat \<Rightarrow> nat exec" where
  "CIRCLEQ_NEXT t p = bindE (fetch (cq_cells t) p) (\<lambda>e. Inr (cqe_next e))"

definition CIRCLEQ_PREV :: "'a circleq \<Rightarrow> nat \<Rightarrow> nat exec" where
  "CIRCLEQ_PREV t p = bindE (fetch (cq_cells t) p) (\<lambda>e. Inr (cqe_prev e))"

definition cq_upd :: "nat \<Rightarrow> ('a circleq_elm \<Rightarrow> 'a circleq_elm) \<Rightarrow> 'a circleq \<Rightarrow> 'a circleq exec" where
  "cq_upd p f t = bindE (modify (cq_cells t) p f) (\<lambda>h. Inr (t\<lparr>cq_cells := h\<rparr>))"

definition CIRCLEQ_INIT :: "'a circleq \<Rightarrow> 'a circleq" where
  "CIRCLEQ_INIT t = t\<lparr>cqh_first := cq_head t, cqh_last := cq_head t\<rparr>"

definition CIRCLEQ_HEAD_INITIALIZER :: "(nat \<rightharpoonup> 'a circleq_elm) \<Rightarrow> nat \<Rightarrow> 'a circleq" where
  "CIRCLEQ_HEAD_INITIALIZER h head = \<lparr>cq_cells = h, cq_head = head, cqh_first = head, cqh_last = head\<rparr>"

definition CIRCLEQ_INSERT_AFTER :: "nat \<Rightarrow> nat \<Rightarrow> 'a circleq \<Rightarrow> 'a circleq exec" where
  "CIRCLEQ_INSERT_AFTER l x t =
     bindE (CIRCLEQ_NEXT t l) (\<lambda>n.
     bindE (cq_upd x (\<lambda>e. e\<lparr>cqe_next := n\<rparr>) t) (\<lambda>t.
     bindE (cq_upd x (\<lambda>e. e\<lparr>cqe_prev := l\<rparr>) t) (\<lambda>t.
     bindE (CIRCLEQ_NEXT t l) (\<lambda>n.
     bindE (if n = cq_head t then Inr (t\<lparr>cqh_last := x\<rparr>) else cq_upd n (\<lambda>e. e\<lparr>cqe_prev := x\<rparr>) t) (\<lambda>t.
     cq_upd l (\<lambda>e. e\<lparr>cqe_next := x\<rparr>) t)))))"

definition CIRCLEQ_INSERT_BEFORE :: "nat \<Rightarrow> nat \<Rightarrow> 'a circleq \<Rightarrow> 'a circleq exec" where
  "CIRCLEQ_INSERT_BEFORE l x t =
     bindE (cq_upd x (\<lambda>e. e\<lparr>cqe_next := l\<rparr>) t) (\<lambda>t.
     bindE (CIRCLEQ_PREV t l) (\<lambda>p.
     bindE (cq_upd x (\<lambda>e. e\<lparr>cqe_prev := p\<rparr>) t) (\<lambda>t.
     bindE (CIRCLEQ_PREV t l) (\<lambda>p.
     bindE (if p = cq_head t then Inr (t\<lparr>cqh_first := x\<rparr>) else cq_upd p (\<lambda>e. e\<lparr>cqe_next := x\<rparr>) t) (\<lambda>t.
     cq_upd l (\<lambda>e. e\<lparr>cqe_prev := x\<rparr>) t)))))"

definition CIRCLEQ_INSERT_HEAD :: "nat \<Rightarrow> 'a circleq \<Rightarrow> 'a circleq exec" where
  "CIRCLEQ_INSERT_HEAD x t =
     bindE (cq_upd x (\<lambda>e. e\<lparr>cqe_next := cqh_first t\<rparr>) t) (\<lambda>t.
     bindE (cq_upd x (\<lambda>e. e\<lparr>cqe_prev := cq_head t\<rparr>) t) (\<lambda>t.
     bindE (if cqh_last t = cq_head t then Inr (t\<lparr>cqh_last := x\<rparr>)
            else cq_upd (cqh_first t) (\<lambda>e. e\<lparr>cqe_prev := x\<rparr>) t) (\<lambda>t.
     Inr (t\<lparr>cqh_first := x\<rparr>))))"

definition CIRCLEQ_INSERT_TAIL :: "nat \<Rightarrow> 'a circleq \<Rightarrow> 'a circleq exec" where
  "CIRCLEQ_INSERT_TAIL x t =
     bindE (cq_upd x (\<lambda>e. e\<lparr>cqe_next := cq_head t\<rparr>) t) (\<lambda>t.
     bindE (cq_upd x (\<lambda>e. e\<lparr>cqe_prev := cqh_last t\<rparr>) t) (\<lambda>t.
     bindE (if cqh_first t = cq_head t then Inr (t\<lparr>cqh_first := x\<rparr>)
            else cq_upd (cqh_last t) (\<lambda>e. e\<lparr>cqe_next := x\<rparr>) t) (\<lambda>t.
     Inr (t\<lparr>cqh_last := x\<rparr>))))"

definition CIRCLEQ_REMOVE :: "nat \<Rightarrow> 'a circleq \<Rightarrow> 'a circleq exec" where
  "CIRCLEQ_REMOVE x t =
     bindE (CIRCLEQ_NEXT t x) (\<lambda>n.
     bindE (CIRCLEQ_PREV t x) (\<lambda>p.
     bindE (if n = cq_head t then Inr (t\<lparr>cqh_last := p\<rparr>) else cq_upd n (\<lambda>e. e\<lparr>cqe_prev := p\<rparr>) t) (\<lambda>t.
     bindE (CIRCLEQ_PREV t x) (\<lambda>p.
     bindE (CIRCLEQ_NEXT t x) (\<lambda>n.
     if p = cq_head t then Inr (t\<lparr>cqh_first := n\<rparr>) else cq_upd p (\<lambda>e. e\<lparr>cqe_next := n\<rparr>) t)))))"

definition CIRCLEQ_FOREACH :: "'a circleq \<Rightarrow> nat list run" where
  "CIRCLEQ_FOREACH t = visit (cq_head t) (CIRCLEQ_NEXT t) (cqh_first t)"

definition CIRCLEQ_FOREACH_REVERSE :: "'a circleq \<Rightarrow> nat list run" where
  "CIRCLEQ_FOREACH_REVERSE t = visit (cq_head t) (CIRCLEQ_PREV t) (cqh_last t)"

section \<open>The queue in the heap\<close>

abbreviation cq_chain :: "'a circleq \<Rightarrow> nat \<Rightarrow> nat \<Rightarrow> nat list \<Rightarrow> nat \<Rightarrow> nat \<Rightarrow> bool" where
  "cq_chain t \<equiv> chain cqe_next cqe_prev (\<lambda>a. a) (cq_cells t)"

definition cq_rel :: "'a circleq \<Rightarrow> nat list \<Rightarrow> bool" where
  "cq_rel t xs \<longleftrightarrow> distinct xs \<and> cq_head t \<noteq> 0 \<and> cq_cells t (cq_head t) = None \<and>
     cq_chain t (cq_head t) (cqh_first t) xs (cqh_last t) (cq_head t)"

definition cq_values :: "'a circleq \<Rightarrow> nat \<Rightarrow> 'a option" where
  "cq_values t a = map_option cq_data (cq_cells t a)"

lemma cq_reads [simp]:
  "cq_cells t p = Some e \<Longrightarrow> CIRCLEQ_NEXT t p = Inr (cqe_next e)"
  "cq_cells t p = Some e \<Longrightarrow> CIRCLEQ_PREV t p = Inr (cqe_prev e)"
  "cq_cells t p = Some e \<Longrightarrow> cq_upd p f t = Inr (t\<lparr>cq_cells := (cq_cells t)(p \<mapsto> f e)\<rparr>)"
  by (simp_all add: CIRCLEQ_NEXT_def CIRCLEQ_PREV_def cq_upd_def)

lemma cq_ends:
  "cq_rel t xs \<Longrightarrow> cqh_last t = (if xs = [] then cq_head t else last xs)"
  "cq_rel t xs \<Longrightarrow> cqh_first t = (if xs = [] then cq_head t else hd xs)"
  by (auto simp: cq_rel_def dest: chain_last chain_first)

lemma cq_member: "cq_rel t xs \<Longrightarrow> a \<in> set xs \<Longrightarrow> a \<noteq> cq_head t \<and> a \<noteq> 0 \<and> cq_cells t a \<noteq> None"
  using chain_dom [of cqe_next cqe_prev "\<lambda>a. a" "cq_cells t" "cq_head t" "cqh_first t" xs "cqh_last t" "cq_head t" a]
  by (auto simp: cq_rel_def)

lemma cq_nonempty: "cq_rel t xs \<Longrightarrow> cqh_first t = cq_head t \<longleftrightarrow> xs = []" "cq_rel t xs \<Longrightarrow> cqh_last t = cq_head t \<longleftrightarrow> xs = []"
  using cq_ends [of t xs] cq_member [of t xs "hd xs"] cq_member [of t xs "last xs"] by auto

lemma CIRCLEQ_INSERT_HEAD_ok:
  assumes "cq_rel t xs" "x \<noteq> 0" "cq_cells t x = Some e" "x \<notin> set xs"
  shows "\<exists>t'. CIRCLEQ_INSERT_HEAD x t = Inr t' \<and> cq_rel t' (x # xs) \<and> cq_values t' = cq_values t"
  using assms cq_nonempty [OF assms(1)]
  by (cases xs) (auto simp: CIRCLEQ_INSERT_HEAD_def cq_rel_def cq_values_def fun_eq_iff split: if_splits)

lemma CIRCLEQ_INSERT_TAIL_ok:
  assumes "cq_rel t xs" "x \<noteq> 0" "cq_cells t x = Some e" "x \<notin> set xs"
  shows "\<exists>t'. CIRCLEQ_INSERT_TAIL x t = Inr t' \<and> cq_rel t' (xs @ [x]) \<and> cq_values t' = cq_values t"
  using assms cq_nonempty [OF assms(1)] cq_ends(1) [OF assms(1)]
  by (cases xs rule: rev_cases) (auto simp: CIRCLEQ_INSERT_TAIL_def cq_rel_def cq_values_def fun_eq_iff split: if_splits)

lemma CIRCLEQ_INSERT_AFTER_ok:
  assumes "cq_rel t (us @ l # vs)" "x \<noteq> 0" "cq_cells t x = Some e" "x \<notin> set (us @ l # vs)"
  shows "\<exists>t'. CIRCLEQ_INSERT_AFTER l x t = Inr t' \<and> cq_rel t' (us @ l # x # vs) \<and> cq_values t' = cq_values t"
  using assms cq_member [OF assms(1)]
  by (cases vs) (auto simp: CIRCLEQ_INSERT_AFTER_def cq_rel_def cq_values_def fun_eq_iff)

lemma CIRCLEQ_INSERT_BEFORE_ok:
  assumes "cq_rel t (us @ l # vs)" "x \<noteq> 0" "cq_cells t x = Some e" "x \<notin> set (us @ l # vs)"
  shows "\<exists>t'. CIRCLEQ_INSERT_BEFORE l x t = Inr t' \<and> cq_rel t' (us @ x # l # vs) \<and> cq_values t' = cq_values t"
  using assms cq_member [OF assms(1)]
  by (cases us rule: rev_cases) (auto simp: CIRCLEQ_INSERT_BEFORE_def cq_rel_def cq_values_def fun_eq_iff)

lemma CIRCLEQ_REMOVE_ok:
  assumes "cq_rel t (us @ x # vs)"
  shows "\<exists>t'. CIRCLEQ_REMOVE x t = Inr t' \<and> cq_rel t' (us @ vs) \<and> cq_values t' = cq_values t"
  using assms cq_member [OF assms(1)]
  by (cases us rule: rev_cases; cases vs) (auto simp: CIRCLEQ_REMOVE_def cq_rel_def cq_values_def fun_eq_iff)

lemma CIRCLEQ_FOREACH_ok:
  assumes "cq_rel t xs"
  shows "CIRCLEQ_FOREACH t = Some (Inr xs)"
proof -
  have c: "cq_chain t (cq_head t) (cqh_first t) xs (cqh_last t) (cq_head t)" using assms by (simp add: cq_rel_def)
  have "links (CIRCLEQ_NEXT t) (cq_head t) xs (cqh_first t)" by (rule chain_links [OF c]) simp
  then show ?thesis unfolding CIRCLEQ_FOREACH_def using cq_member [OF assms] by (intro visit_links) auto
qed

lemma CIRCLEQ_FOREACH_REVERSE_ok:
  assumes "cq_rel t xs"
  shows "CIRCLEQ_FOREACH_REVERSE t = Some (Inr (rev xs))"
proof -
  have c: "cq_chain t (cq_head t) (cqh_first t) xs (cqh_last t) (cq_head t)" using assms by (simp add: cq_rel_def)
  have "links (CIRCLEQ_PREV t) (cq_head t) (rev xs) (cqh_last t)"
    by (rule chain_links_back [OF c, where val = "\<lambda>a. a"]) simp_all
  then show ?thesis unfolding CIRCLEQ_FOREACH_REVERSE_def using cq_member [OF assms] by (intro visit_links) auto
qed

section \<open>The contract\<close>

fun CIRCLEQ_OP :: "list_op \<Rightarrow> 'a circleq \<Rightarrow> 'a circleq exec" where
  "CIRCLEQ_OP (InsHead x) = CIRCLEQ_INSERT_HEAD x"
| "CIRCLEQ_OP (InsTail x) = CIRCLEQ_INSERT_TAIL x"
| "CIRCLEQ_OP (InsAfter l x) = CIRCLEQ_INSERT_AFTER l x"
| "CIRCLEQ_OP (InsBefore l x) = CIRCLEQ_INSERT_BEFORE l x"
| "CIRCLEQ_OP (Remove x) = CIRCLEQ_REMOVE x"

lemma CIRCLEQ_OP_ok:
  assumes rel: "cq_rel t xs" and ok: "op_ok (\<lambda>a. a \<noteq> 0 \<and> cq_values t a \<noteq> None) c xs"
  shows "\<exists>t'. CIRCLEQ_OP c t = Inr t' \<and> cq_rel t' (apply_op c xs) \<and> cq_values t' = cq_values t"
proof -
  have cell: "\<exists>e. cq_cells t x = Some e" if "x \<noteq> 0 \<and> cq_values t x \<noteq> None" for x using that by (auto simp: cq_values_def)
  from ok show ?thesis
  proof (induction rule: op_by_splits)
    case (Head x)
    with cell [of x] CIRCLEQ_INSERT_HEAD_ok [OF rel] show ?case by auto
  next
    case (Tail x)
    with cell [of x] CIRCLEQ_INSERT_TAIL_ok [OF rel] show ?case by auto
  next
    case (After us l vs x)
    with cell [of x] CIRCLEQ_INSERT_AFTER_ok [of t us l vs x] rel show ?case by auto
  next
    case (Before us l vs x)
    with cell [of x] CIRCLEQ_INSERT_BEFORE_ok [of t us l vs x] rel show ?case by auto
  next
    case (Rem us x vs)
    with CIRCLEQ_REMOVE_ok [of t us x vs] rel show ?case by auto
  qed
qed

interpretation circleq: two_way cq_rel cq_values "\<lambda>c xs. True" CIRCLEQ_OP CIRCLEQ_FOREACH CIRCLEQ_FOREACH_REVERSE
  by unfold_locales (simp_all add: CIRCLEQ_OP_ok CIRCLEQ_FOREACH_ok CIRCLEQ_FOREACH_REVERSE_ok)

end
