(* ===== verification/Plain_Lists.thy ===== *)
theory Plain_Lists
  imports Linked_Spec
begin

text \<open>
  The doubly-linked lists and the simple queues of \<open>inc/list.h\<close>.  A list has no
  pointer to its end, so nothing is inserted there; a simple queue has no back
  pointers, so only its first element is removed and nothing is put before an
  element.
\<close>

section \<open>Lists\<close>

record 'a list_elm =
  le_data :: 'a
  le_next :: nat
  le_prev :: loc

record 'a list_state =
  le_cells :: "nat \<rightharpoonup> 'a list_elm"
  lh_first :: nat

definition LIST_EMPTY :: "'a list_state \<Rightarrow> bool" where
  "LIST_EMPTY t \<longleftrightarrow> lh_first t = 0"

definition LIST_FIRST :: "'a list_state \<Rightarrow> nat" where
  "LIST_FIRST t = lh_first t"

definition LIST_NEXT :: "'a list_state \<Rightarrow> nat \<Rightarrow> nat exec" where
  "LIST_NEXT t p = bindE (fetch (le_cells t) p) (\<lambda>e. Inr (le_next e))"

definition le_prev_of :: "'a list_state \<Rightarrow> nat \<Rightarrow> loc exec" where
  "le_prev_of t p = bindE (fetch (le_cells t) p) (\<lambda>e. Inr (le_prev e))"

definition le_upd :: "nat \<Rightarrow> ('a list_elm \<Rightarrow> 'a list_elm) \<Rightarrow> 'a list_state \<Rightarrow> 'a list_state exec" where
  "le_upd p f t = bindE (modify (le_cells t) p f) (\<lambda>h. Inr (t\<lparr>le_cells := h\<rparr>))"

text \<open>\<open>*l\<close> and \<open>*l = q\<close>.\<close>

definition le_deref :: "'a list_state \<Rightarrow> loc \<Rightarrow> nat exec" where
  "le_deref t l = (case l of NoLoc \<Rightarrow> Inl (Undef NullDeref) | HeadLoc \<Rightarrow> Inr (lh_first t) | NextLoc a \<Rightarrow> LIST_NEXT t a
     | PoisonLoc \<Rightarrow> Inl (Undef BadPointer))"

definition le_assign :: "loc \<Rightarrow> nat \<Rightarrow> 'a list_state \<Rightarrow> 'a list_state exec" where
  "le_assign l q t = (case l of NoLoc \<Rightarrow> Inl (Undef NullDeref) | HeadLoc \<Rightarrow> Inr (t\<lparr>lh_first := q\<rparr>)
     | NextLoc a \<Rightarrow> le_upd a (\<lambda>e. e\<lparr>le_next := q\<rparr>) t
     | PoisonLoc \<Rightarrow> Inl (Undef BadPointer))"

definition LIST_INIT :: "'a list_state \<Rightarrow> 'a list_state" where
  "LIST_INIT t = t\<lparr>lh_first := 0\<rparr>"

definition LIST_HEAD_INITIALIZER :: "(nat \<rightharpoonup> 'a list_elm) \<Rightarrow> 'a list_state" where
  "LIST_HEAD_INITIALIZER h = \<lparr>le_cells = h, lh_first = 0\<rparr>"

definition LIST_INSERT_AFTER :: "nat \<Rightarrow> nat \<Rightarrow> 'a list_state \<Rightarrow> 'a list_state exec" where
  "LIST_INSERT_AFTER l x t =
     bindE (LIST_NEXT t l) (\<lambda>n.
     bindE (le_upd x (\<lambda>e. e\<lparr>le_next := n\<rparr>) t) (\<lambda>t.
     bindE (if n \<noteq> 0 then bindE (LIST_NEXT t l) (\<lambda>n. le_upd n (\<lambda>e. e\<lparr>le_prev := NextLoc x\<rparr>) t) else Inr t) (\<lambda>t.
     bindE (le_upd l (\<lambda>e. e\<lparr>le_next := x\<rparr>) t) (\<lambda>t.
     le_upd x (\<lambda>e. e\<lparr>le_prev := NextLoc l\<rparr>) t))))"

definition LIST_INSERT_BEFORE :: "nat \<Rightarrow> nat \<Rightarrow> 'a list_state \<Rightarrow> 'a list_state exec" where
  "LIST_INSERT_BEFORE l x t =
     bindE (le_prev_of t l) (\<lambda>pl.
     bindE (le_upd x (\<lambda>e. e\<lparr>le_prev := pl\<rparr>) t) (\<lambda>t.
     bindE (le_upd x (\<lambda>e. e\<lparr>le_next := l\<rparr>) t) (\<lambda>t.
     bindE (le_prev_of t l) (\<lambda>pl.
     bindE (le_assign pl x t) (\<lambda>t.
     le_upd l (\<lambda>e. e\<lparr>le_prev := NextLoc x\<rparr>) t)))))"

definition LIST_INSERT_HEAD :: "nat \<Rightarrow> 'a list_state \<Rightarrow> 'a list_state exec" where
  "LIST_INSERT_HEAD x t =
     bindE (le_upd x (\<lambda>e. e\<lparr>le_next := lh_first t\<rparr>) t) (\<lambda>t.
     bindE (if lh_first t \<noteq> 0 then le_upd (lh_first t) (\<lambda>e. e\<lparr>le_prev := NextLoc x\<rparr>) t else Inr t) (\<lambda>t.
     le_upd x (\<lambda>e. e\<lparr>le_prev := HeadLoc\<rparr>) (t\<lparr>lh_first := x\<rparr>)))"

definition LIST_REMOVE :: "nat \<Rightarrow> 'a list_state \<Rightarrow> 'a list_state exec" where
  "LIST_REMOVE x t =
     bindE (LIST_NEXT t x) (\<lambda>n.
     bindE (le_prev_of t x) (\<lambda>pl.
     bindE (if n \<noteq> 0 then le_upd n (\<lambda>e. e\<lparr>le_prev := pl\<rparr>) t else Inr t) (\<lambda>t.
     bindE (le_prev_of t x) (\<lambda>pl.
     bindE (LIST_NEXT t x) (\<lambda>n.
     le_assign pl n t)))))"

definition LIST_FOREACH :: "'a list_state \<Rightarrow> nat list run" where
  "LIST_FOREACH t = visit 0 (LIST_NEXT t) (lh_first t)"

text \<open>The checks of a kernel built with \<open>QUEUEDEBUG\<close>, which panics where these are true.\<close>

definition QUEUEDEBUG_LIST_INSERT_HEAD :: "'a list_state \<Rightarrow> bool exec" where
  "QUEUEDEBUG_LIST_INSERT_HEAD t =
     (if lh_first t \<noteq> 0 then bindE (le_prev_of t (lh_first t)) (\<lambda>l. Inr (l \<noteq> HeadLoc)) else Inr False)"

definition QUEUEDEBUG_LIST_OP :: "nat \<Rightarrow> 'a list_state \<Rightarrow> bool exec" where
  "QUEUEDEBUG_LIST_OP x t =
     bindE (LIST_NEXT t x) (\<lambda>n.
     bindE (if n \<noteq> 0 then bindE (le_prev_of t n) (\<lambda>l. Inr (l \<noteq> NextLoc x)) else Inr False) (\<lambda>forw.
     if forw then Inr True
     else bindE (le_prev_of t x) (\<lambda>pl. bindE (le_deref t pl) (\<lambda>p. Inr (p \<noteq> x)))))"

section \<open>Lists in the heap\<close>

definition le_rel :: "'a list_state \<Rightarrow> nat list \<Rightarrow> bool" where
  "le_rel t xs \<longleftrightarrow> distinct xs \<and>
     (\<exists>l. chain le_next le_prev NextLoc (le_cells t) HeadLoc (lh_first t) xs l 0)"

definition le_values :: "'a list_state \<Rightarrow> nat \<Rightarrow> 'a option" where
  "le_values t a = map_option le_data (le_cells t a)"

lemma le_reads [simp]:
  "le_cells t p = Some e \<Longrightarrow> LIST_NEXT t p = Inr (le_next e)"
  "le_cells t p = Some e \<Longrightarrow> le_prev_of t p = Inr (le_prev e)"
  "le_cells t p = Some e \<Longrightarrow> le_upd p f t = Inr (t\<lparr>le_cells := (le_cells t)(p \<mapsto> f e)\<rparr>)"
  by (simp_all add: LIST_NEXT_def le_prev_of_def le_upd_def)

lemma le_locs [simp]:
  "le_deref t HeadLoc = Inr (lh_first t)" "le_deref t (NextLoc a) = LIST_NEXT t a"
  "le_assign HeadLoc q t = Inr (t\<lparr>lh_first := q\<rparr>)"
  "le_assign (NextLoc a) q t = le_upd a (\<lambda>e. e\<lparr>le_next := q\<rparr>) t"
  by (simp_all add: le_deref_def le_assign_def)

lemma LIST_INSERT_HEAD_ok:
  assumes "le_rel t xs" "x \<noteq> 0" "le_cells t x = Some e" "x \<notin> set xs"
  shows "\<exists>t'. LIST_INSERT_HEAD x t = Inr t' \<and> le_rel t' (x # xs) \<and> le_values t' = le_values t"
  using assms by (cases xs) (auto simp: LIST_INSERT_HEAD_def le_rel_def le_values_def fun_eq_iff)

lemma LIST_INSERT_AFTER_ok:
  assumes "le_rel t (us @ l # vs)" "x \<noteq> 0" "le_cells t x = Some e" "x \<notin> set (us @ l # vs)"
  shows "\<exists>t'. LIST_INSERT_AFTER l x t = Inr t' \<and> le_rel t' (us @ l # x # vs) \<and> le_values t' = le_values t"
  using assms by (cases vs) (auto simp: LIST_INSERT_AFTER_def le_rel_def le_values_def fun_eq_iff)

lemma LIST_INSERT_BEFORE_ok:
  assumes "le_rel t (us @ l # vs)" "x \<noteq> 0" "le_cells t x = Some e" "x \<notin> set (us @ l # vs)"
  shows "\<exists>t'. LIST_INSERT_BEFORE l x t = Inr t' \<and> le_rel t' (us @ x # l # vs) \<and> le_values t' = le_values t"
  using assms by (cases us rule: rev_cases) (auto simp: LIST_INSERT_BEFORE_def le_rel_def le_values_def fun_eq_iff)

lemma LIST_REMOVE_ok:
  assumes "le_rel t (us @ x # vs)"
  shows "\<exists>t'. LIST_REMOVE x t = Inr t' \<and> le_rel t' (us @ vs) \<and> le_values t' = le_values t"
  using assms
  by (cases us rule: rev_cases; cases vs) (auto simp: LIST_REMOVE_def le_rel_def le_values_def fun_eq_iff)

lemma LIST_FOREACH_ok:
  assumes "le_rel t xs"
  shows "LIST_FOREACH t = Some (Inr xs)"
proof -
  from assms obtain l where c: "chain le_next le_prev NextLoc (le_cells t) HeadLoc (lh_first t) xs l 0" by (auto simp: le_rel_def)
  have "links (LIST_NEXT t) 0 xs (lh_first t)" by (rule chain_links [OF c]) simp
  moreover have "0 \<notin> set xs" using chain_dom [OF c, of 0] by auto
  ultimately show ?thesis unfolding LIST_FOREACH_def by (rule visit_links)
qed

text \<open>An operation that this kind of list does not have is excluded by \<open>list_has\<close>; what is written for it here is never used.\<close>

fun LIST_OP :: "list_op \<Rightarrow> 'a list_state \<Rightarrow> 'a list_state exec" where
  "LIST_OP (InsHead x) = LIST_INSERT_HEAD x"
| "LIST_OP (InsTail x) = (\<lambda>t. Inr t)"
| "LIST_OP (InsAfter l x) = LIST_INSERT_AFTER l x"
| "LIST_OP (InsBefore l x) = LIST_INSERT_BEFORE l x"
| "LIST_OP (Remove x) = LIST_REMOVE x"

fun list_has :: "list_op \<Rightarrow> nat list \<Rightarrow> bool" where
  "list_has (InsTail x) xs = False"
| "list_has _ xs = True"

lemma LIST_OP_ok:
  assumes rel: "le_rel t xs" and has: "list_has c xs" and ok: "op_ok (\<lambda>a. a \<noteq> 0 \<and> le_values t a \<noteq> None) c xs"
  shows "\<exists>t'. LIST_OP c t = Inr t' \<and> le_rel t' (apply_op c xs) \<and> le_values t' = le_values t"
proof -
  have cell: "\<exists>e. le_cells t x = Some e" if "x \<noteq> 0 \<and> le_values t x \<noteq> None" for x using that by (auto simp: le_values_def)
  from ok show ?thesis
  proof (induction rule: op_by_splits)
    case (Head x)
    with cell [of x] LIST_INSERT_HEAD_ok [OF rel] show ?case by auto
  next
    case (Tail x)
    with has show ?case by simp
  next
    case (After us l vs x)
    with cell [of x] LIST_INSERT_AFTER_ok [of t us l vs x] rel show ?case by auto
  next
    case (Before us l vs x)
    with cell [of x] LIST_INSERT_BEFORE_ok [of t us l vs x] rel show ?case by auto
  next
    case (Rem us x vs)
    with LIST_REMOVE_ok [of t us x vs] rel show ?case by auto
  qed
qed

interpretation dlist: linked le_rel le_values list_has LIST_OP LIST_FOREACH
  by unfold_locales (simp_all add: LIST_OP_ok LIST_FOREACH_ok)

section \<open>Simple queues\<close>

record 'a simpleq_elm =
  sq_data :: 'a
  sqe_next :: nat

record 'a simpleq =
  sq_cells :: "nat \<rightharpoonup> 'a simpleq_elm"
  sqh_first :: nat
  sqh_last :: loc

definition SIMPLEQ_EMPTY :: "'a simpleq \<Rightarrow> bool" where
  "SIMPLEQ_EMPTY t \<longleftrightarrow> sqh_first t = 0"

definition SIMPLEQ_FIRST :: "'a simpleq \<Rightarrow> nat" where
  "SIMPLEQ_FIRST t = sqh_first t"

definition SIMPLEQ_NEXT :: "'a simpleq \<Rightarrow> nat \<Rightarrow> nat exec" where
  "SIMPLEQ_NEXT t p = bindE (fetch (sq_cells t) p) (\<lambda>e. Inr (sqe_next e))"

definition sq_set_next :: "nat \<Rightarrow> nat \<Rightarrow> 'a simpleq \<Rightarrow> 'a simpleq exec" where
  "sq_set_next p q t = bindE (modify (sq_cells t) p (\<lambda>e. e\<lparr>sqe_next := q\<rparr>)) (\<lambda>h. Inr (t\<lparr>sq_cells := h\<rparr>))"

definition sq_assign :: "loc \<Rightarrow> nat \<Rightarrow> 'a simpleq \<Rightarrow> 'a simpleq exec" where
  "sq_assign l q t = (case l of NoLoc \<Rightarrow> Inl (Undef NullDeref) | HeadLoc \<Rightarrow> Inr (t\<lparr>sqh_first := q\<rparr>)
     | NextLoc a \<Rightarrow> sq_set_next a q t
     | PoisonLoc \<Rightarrow> Inl (Undef BadPointer))"

definition SIMPLEQ_INIT :: "'a simpleq \<Rightarrow> 'a simpleq" where
  "SIMPLEQ_INIT t = t\<lparr>sqh_first := 0, sqh_last := HeadLoc\<rparr>"

definition SIMPLEQ_HEAD_INITIALIZER :: "(nat \<rightharpoonup> 'a simpleq_elm) \<Rightarrow> 'a simpleq" where
  "SIMPLEQ_HEAD_INITIALIZER h = \<lparr>sq_cells = h, sqh_first = 0, sqh_last = HeadLoc\<rparr>"

definition SIMPLEQ_INSERT_HEAD :: "nat \<Rightarrow> 'a simpleq \<Rightarrow> 'a simpleq exec" where
  "SIMPLEQ_INSERT_HEAD x t =
     bindE (sq_set_next x (sqh_first t) t) (\<lambda>t.
     Inr ((if sqh_first t = 0 then t\<lparr>sqh_last := NextLoc x\<rparr> else t)\<lparr>sqh_first := x\<rparr>))"

definition SIMPLEQ_INSERT_TAIL :: "nat \<Rightarrow> 'a simpleq \<Rightarrow> 'a simpleq exec" where
  "SIMPLEQ_INSERT_TAIL x t =
     bindE (sq_set_next x 0 t) (\<lambda>t.
     bindE (sq_assign (sqh_last t) x t) (\<lambda>t.
     Inr (t\<lparr>sqh_last := NextLoc x\<rparr>)))"

definition SIMPLEQ_INSERT_AFTER :: "nat \<Rightarrow> nat \<Rightarrow> 'a simpleq \<Rightarrow> 'a simpleq exec" where
  "SIMPLEQ_INSERT_AFTER l x t =
     bindE (SIMPLEQ_NEXT t l) (\<lambda>n.
     bindE (sq_set_next x n t) (\<lambda>t.
     sq_set_next l x (if n = 0 then t\<lparr>sqh_last := NextLoc x\<rparr> else t)))"

definition SIMPLEQ_REMOVE_HEAD :: "nat \<Rightarrow> 'a simpleq \<Rightarrow> 'a simpleq exec" where
  "SIMPLEQ_REMOVE_HEAD x t =
     bindE (SIMPLEQ_NEXT t x) (\<lambda>n.
     Inr (if n = 0 then t\<lparr>sqh_first := n, sqh_last := HeadLoc\<rparr> else t\<lparr>sqh_first := n\<rparr>))"

definition SIMPLEQ_FOREACH :: "'a simpleq \<Rightarrow> nat list run" where
  "SIMPLEQ_FOREACH t = visit 0 (SIMPLEQ_NEXT t) (sqh_first t)"

section \<open>Simple queues in the heap\<close>

abbreviation sq_chain :: "'a simpleq \<Rightarrow> nat \<Rightarrow> nat list \<Rightarrow> nat \<Rightarrow> bool" where
  "sq_chain t p xs q \<equiv> chain sqe_next (\<lambda>e. ()) (\<lambda>a. ()) (sq_cells t) () p xs () q"

definition sq_rel :: "'a simpleq \<Rightarrow> nat list \<Rightarrow> bool" where
  "sq_rel t xs \<longleftrightarrow> distinct xs \<and> sq_chain t (sqh_first t) xs 0 \<and>
     sqh_last t = (if xs = [] then HeadLoc else NextLoc (last xs))"

definition sq_values :: "'a simpleq \<Rightarrow> nat \<Rightarrow> 'a option" where
  "sq_values t a = map_option sq_data (sq_cells t a)"

lemma sq_reads [simp]:
  "sq_cells t p = Some e \<Longrightarrow> SIMPLEQ_NEXT t p = Inr (sqe_next e)"
  "sq_cells t p = Some e \<Longrightarrow> sq_set_next p q t = Inr (t\<lparr>sq_cells := (sq_cells t)(p \<mapsto> e\<lparr>sqe_next := q\<rparr>)\<rparr>)"
  "sq_assign HeadLoc q t = Inr (t\<lparr>sqh_first := q\<rparr>)" "sq_assign (NextLoc a) q t = sq_set_next a q t"
  by (simp_all add: SIMPLEQ_NEXT_def sq_set_next_def sq_assign_def)

lemma SIMPLEQ_INSERT_HEAD_ok:
  assumes "sq_rel t xs" "x \<noteq> 0" "sq_cells t x = Some e" "x \<notin> set xs"
  shows "\<exists>t'. SIMPLEQ_INSERT_HEAD x t = Inr t' \<and> sq_rel t' (x # xs) \<and> sq_values t' = sq_values t"
  using assms by (cases xs) (auto simp: SIMPLEQ_INSERT_HEAD_def sq_rel_def sq_values_def fun_eq_iff)

lemma SIMPLEQ_INSERT_TAIL_ok:
  assumes "sq_rel t xs" "x \<noteq> 0" "sq_cells t x = Some e" "x \<notin> set xs"
  shows "\<exists>t'. SIMPLEQ_INSERT_TAIL x t = Inr t' \<and> sq_rel t' (xs @ [x]) \<and> sq_values t' = sq_values t"
  using assms by (cases xs rule: rev_cases) (auto simp: SIMPLEQ_INSERT_TAIL_def sq_rel_def sq_values_def fun_eq_iff)

lemma SIMPLEQ_INSERT_AFTER_ok:
  assumes "sq_rel t (us @ l # vs)" "x \<noteq> 0" "sq_cells t x = Some e" "x \<notin> set (us @ l # vs)"
  shows "\<exists>t'. SIMPLEQ_INSERT_AFTER l x t = Inr t' \<and> sq_rel t' (us @ l # x # vs) \<and> sq_values t' = sq_values t"
  using assms by (cases vs) (auto simp: SIMPLEQ_INSERT_AFTER_def sq_rel_def sq_values_def fun_eq_iff)

lemma SIMPLEQ_REMOVE_HEAD_ok:
  assumes "sq_rel t (x # vs)"
  shows "\<exists>t'. SIMPLEQ_REMOVE_HEAD x t = Inr t' \<and> sq_rel t' vs \<and> sq_values t' = sq_values t"
  using assms by (cases vs) (auto simp: SIMPLEQ_REMOVE_HEAD_def sq_rel_def sq_values_def fun_eq_iff)

lemma SIMPLEQ_FOREACH_ok:
  assumes "sq_rel t xs"
  shows "SIMPLEQ_FOREACH t = Some (Inr xs)"
proof -
  have c: "sq_chain t (sqh_first t) xs 0" using assms by (simp add: sq_rel_def)
  have "links (SIMPLEQ_NEXT t) 0 xs (sqh_first t)" by (rule chain_links [OF c]) simp
  moreover have "0 \<notin> set xs" using chain_dom [OF c, of 0] by auto
  ultimately show ?thesis unfolding SIMPLEQ_FOREACH_def by (rule visit_links)
qed

text \<open>\<open>simpleq_has\<close> excludes the operations that a simple queue does not have.\<close>

fun SIMPLEQ_OP :: "list_op \<Rightarrow> 'a simpleq \<Rightarrow> 'a simpleq exec" where
  "SIMPLEQ_OP (InsHead x) = SIMPLEQ_INSERT_HEAD x"
| "SIMPLEQ_OP (InsTail x) = SIMPLEQ_INSERT_TAIL x"
| "SIMPLEQ_OP (InsAfter l x) = SIMPLEQ_INSERT_AFTER l x"
| "SIMPLEQ_OP (InsBefore l x) = (\<lambda>t. Inr t)"
| "SIMPLEQ_OP (Remove x) = SIMPLEQ_REMOVE_HEAD x"

fun simpleq_has :: "list_op \<Rightarrow> nat list \<Rightarrow> bool" where
  "simpleq_has (InsBefore l x) xs = False"
| "simpleq_has (Remove x) xs = (xs \<noteq> [] \<and> x = hd xs)"
| "simpleq_has _ xs = True"

lemma SIMPLEQ_OP_ok:
  assumes rel: "sq_rel t xs" and has: "simpleq_has c xs" and ok: "op_ok (\<lambda>a. a \<noteq> 0 \<and> sq_values t a \<noteq> None) c xs"
  shows "\<exists>t'. SIMPLEQ_OP c t = Inr t' \<and> sq_rel t' (apply_op c xs) \<and> sq_values t' = sq_values t"
proof -
  have cell: "\<exists>e. sq_cells t x = Some e" if "x \<noteq> 0 \<and> sq_values t x \<noteq> None" for x using that by (auto simp: sq_values_def)
  from ok show ?thesis
  proof (induction rule: op_by_splits)
    case (Head x)
    with cell [of x] SIMPLEQ_INSERT_HEAD_ok [OF rel] show ?case by auto
  next
    case (Tail x)
    with cell [of x] SIMPLEQ_INSERT_TAIL_ok [OF rel] show ?case by auto
  next
    case (After us l vs x)
    with cell [of x] SIMPLEQ_INSERT_AFTER_ok [of t us l vs x] rel show ?case by auto
  next
    case (Before us l vs x)
    with has show ?case by simp
  next
    case (Rem us x vs)
    with has have "us = []" by (cases us) auto
    with SIMPLEQ_REMOVE_HEAD_ok [of t x vs] rel Rem show ?case by auto
  qed
qed

interpretation simpleq: linked sq_rel sq_values simpleq_has SIMPLEQ_OP SIMPLEQ_FOREACH
  by unfold_locales (simp_all add: SIMPLEQ_OP_ok SIMPLEQ_FOREACH_ok)

end
