(* ===== verification/Queues.thy ===== *)
theory Queues
  imports Tail_Queue Circle_Queue Plain_Lists
begin

text \<open>The properties of the lists and queues of \<open>inc/list.h\<close> that come with more than one link or end.\<close>

section \<open>Empty queues\<close>

lemma tq_rel_INIT: "tq_rel (TAILQ_INIT t) []"
  by (simp add: tq_rel_def TAILQ_INIT_def)

lemma cq_rel_INIT: "cq_head t \<noteq> 0 \<Longrightarrow> cq_cells t (cq_head t) = None \<Longrightarrow> cq_rel (CIRCLEQ_INIT t) []"
  by (simp add: cq_rel_def CIRCLEQ_INIT_def)

lemma le_rel_INIT: "le_rel (LIST_INIT t) []"
  by (simp add: le_rel_def LIST_INIT_def)

lemma sq_rel_INIT: "sq_rel (SIMPLEQ_INIT t) []"
  by (simp add: sq_rel_def SIMPLEQ_INIT_def)

lemma values_INIT:
  "tq_values (TAILQ_INIT t) a \<noteq> None \<longleftrightarrow> a \<in> dom (tq_cells t)"
  "cq_values (CIRCLEQ_INIT s) a \<noteq> None \<longleftrightarrow> a \<in> dom (cq_cells s)"
  "le_values (LIST_INIT u) a \<noteq> None \<longleftrightarrow> a \<in> dom (le_cells u)"
  "sq_values (SIMPLEQ_INIT v) a \<noteq> None \<longleftrightarrow> a \<in> dom (sq_cells v)"
  by (auto simp: tq_values_def TAILQ_INIT_def cq_values_def CIRCLEQ_INIT_def le_values_def LIST_INIT_def
      sq_values_def SIMPLEQ_INIT_def)

text \<open>A head with an initializer is one that has been initialised.\<close>

lemma initializers:
  "LIST_HEAD_INITIALIZER (le_cells u) = LIST_INIT u" "SIMPLEQ_HEAD_INITIALIZER (sq_cells v) = SIMPLEQ_INIT v"
  "TAILQ_HEAD_INITIALIZER (tq_cells t) = TAILQ_INIT t" "CIRCLEQ_HEAD_INITIALIZER (cq_cells s) (cq_head s) = CIRCLEQ_INIT s"
  by (simp_all add: LIST_HEAD_INITIALIZER_def LIST_INIT_def SIMPLEQ_HEAD_INITIALIZER_def SIMPLEQ_INIT_def
      TAILQ_HEAD_INITIALIZER_def TAILQ_INIT_def CIRCLEQ_HEAD_INITIALIZER_def CIRCLEQ_INIT_def)

section \<open>Checks of the debugging kernel\<close>

lemma QUEUEDEBUG_TAILQ_ok:
  assumes "tq_rel t xs"
  shows "QUEUEDEBUG_TAILQ_INSERT_HEAD t = Inr False" "QUEUEDEBUG_TAILQ_INSERT_TAIL t = Inr False"
    "x \<in> set xs \<Longrightarrow> QUEUEDEBUG_TAILQ_OP x t = Inr False"
proof -
  show "QUEUEDEBUG_TAILQ_INSERT_HEAD t = Inr False"
    using assms by (cases xs) (auto simp: QUEUEDEBUG_TAILQ_INSERT_HEAD_def tq_rel_def)
  show "QUEUEDEBUG_TAILQ_INSERT_TAIL t = Inr False"
    using assms tq_last [OF assms]
    by (cases xs rule: rev_cases) (auto simp: QUEUEDEBUG_TAILQ_INSERT_TAIL_def tq_rel_def)
  assume "x \<in> set xs"
  then obtain us vs where "xs = us @ x # vs" by (auto simp: in_set_conv_decomp)
  with assms show "QUEUEDEBUG_TAILQ_OP x t = Inr False"
    by (cases us rule: rev_cases; cases vs) (auto simp: QUEUEDEBUG_TAILQ_OP_def tq_rel_def)
qed

lemma QUEUEDEBUG_LIST_ok:
  assumes "le_rel t xs"
  shows "QUEUEDEBUG_LIST_INSERT_HEAD t = Inr False" "x \<in> set xs \<Longrightarrow> QUEUEDEBUG_LIST_OP x t = Inr False"
proof -
  show "QUEUEDEBUG_LIST_INSERT_HEAD t = Inr False"
    using assms by (cases xs) (auto simp: QUEUEDEBUG_LIST_INSERT_HEAD_def le_rel_def)
  assume "x \<in> set xs"
  then obtain us vs where "xs = us @ x # vs" by (auto simp: in_set_conv_decomp)
  with assms show "QUEUEDEBUG_LIST_OP x t = Inr False"
    by (cases us rule: rev_cases; cases vs) (auto simp: QUEUEDEBUG_LIST_OP_def le_rel_def)
qed

section \<open>Properties\<close>

text \<open>Elements 1 to 4, and a head at address 9.\<close>

definition sample_tailq :: "int tailq" where
  "sample_tailq = \<lparr>tq_cells = (\<lambda>a. Some \<lparr>tq_data = int a, tqe_next = 7, tqe_prev = NoLoc\<rparr>) |` {1, 2, 3, 4},
     tqh_first = 7, tqh_last = NoLoc\<rparr>"

definition sample_circleq :: "int circleq" where
  "sample_circleq = \<lparr>cq_cells = (\<lambda>a. Some \<lparr>cq_data = int a, cqe_next = 7, cqe_prev = 7\<rparr>) |` {1, 2, 3, 4},
     cq_head = 9, cqh_first = 7, cqh_last = 7\<rparr>"

definition sample_list_elm :: "int list_elm" where
  "sample_list_elm = \<lparr>le_data = 5, le_next = 7, le_prev = NoLoc\<rparr>"

definition sample_simpleq_elm :: "int simpleq_elm" where
  "sample_simpleq_elm = \<lparr>sq_data = 5, sqe_next = 7\<rparr>"

definition sample_ops :: "list_op list" where
  "sample_ops = [InsTail 1, InsHead 2, InsAfter 2 3, InsBefore 1 4, Remove 3]"

lemma sample_ops_result: "apply_ops sample_ops [] = [2, 4, 1]"
  by (simp add: sample_ops_def)

lemma sample_doms: "dom (tq_cells sample_tailq) = {1, 2, 3, 4}" "dom (cq_cells sample_circleq) = {1, 2, 3, 4}"
  "cq_head sample_circleq = 9"
  by (auto simp: sample_tailq_def sample_circleq_def dom_def restrict_map_def)

lemma sample_ops_ok: "ops_ok (op_ok (\<lambda>a. a \<noteq> 0 \<and> a \<in> {1, 2, 3, 4})) sample_ops []"
  by (simp add: sample_ops_def)

text \<open>
  C31. Tail queues and circular queues are interchangeable, and both are lists:
  any sequence of insertions at the head, at the tail, after and before an
  element and of removals, each used as it should be, succeeds on both, and the loops
  in both directions then visit the elements of the same list, forwards and backwards.
\<close>

theorem tailq_circleq_agree:
  assumes "cq_head s \<noteq> 0" "cq_cells s (cq_head s) = None" "dom (tq_cells t) = dom (cq_cells s)"
    and "ops_ok (op_ok (\<lambda>a. a \<noteq> 0 \<and> a \<in> dom (tq_cells t))) cs []"
  shows "\<exists>t' s'. run_ops TAILQ_OP cs (TAILQ_INIT t) = Inr t' \<and> run_ops CIRCLEQ_OP cs (CIRCLEQ_INIT s) = Inr s' \<and>
    TAILQ_FOREACH t' = Some (Inr (apply_ops cs [])) \<and> CIRCLEQ_FOREACH s' = Some (Inr (apply_ops cs [])) \<and>
    TAILQ_FOREACH_REVERSE t' = Some (Inr (rev (apply_ops cs []))) \<and>
    CIRCLEQ_FOREACH_REVERSE s' = Some (Inr (rev (apply_ops cs []))) \<and>
    tq_values t' = tq_values t \<and> cq_values s' = cq_values s"
proof -
  have "tq_values (TAILQ_INIT t) = tq_values t" "cq_values (CIRCLEQ_INIT s) = cq_values s"
    by (auto simp: tq_values_def TAILQ_INIT_def cq_values_def CIRCLEQ_INIT_def)
  then show ?thesis
    using tailq.run_two_way [OF tq_rel_INIT, of t cs, unfolded values_INIT simp_thms]
      circleq.run_two_way [OF cq_rel_INIT [OF assms(1,2)], of cs, unfolded values_INIT simp_thms] assms(3,4)
    by auto
qed

theorem tailq_circleq_agree_witness:
  "\<exists>t' s'. run_ops TAILQ_OP sample_ops (TAILQ_INIT sample_tailq) = Inr t' \<and>
     run_ops CIRCLEQ_OP sample_ops (CIRCLEQ_INIT sample_circleq) = Inr s' \<and>
     TAILQ_FOREACH t' = Some (Inr [2, 4, 1]) \<and> CIRCLEQ_FOREACH_REVERSE s' = Some (Inr (rev [2, 4, 1]))"
proof -
  have "cq_cells sample_circleq (cq_head sample_circleq) = None" by (simp add: sample_circleq_def)
  then show ?thesis
    using tailq_circleq_agree [of sample_circleq sample_tailq sample_ops, unfolded sample_doms sample_ops_result]
      sample_ops_ok by (auto simp: sample_doms)
qed

text \<open>
  In every tail queue reached from an empty one the checks that the debugging
  kernel makes before an operation pass for all elements, and the two casts to a head
  find what they are meant to: \<open>TAILQ_LAST\<close> the last element, \<open>TAILQ_PREV\<close> the one
  before, and \<open>NULL\<close> where there is none.
\<close>

theorem tailq_checks_pass:
  assumes "ops_ok (op_ok (\<lambda>a. a \<noteq> 0 \<and> a \<in> dom (tq_cells t))) cs []" "apply_ops cs [] = us @ x # vs"
  shows "\<exists>t'. run_ops TAILQ_OP cs (TAILQ_INIT t) = Inr t' \<and>
    QUEUEDEBUG_TAILQ_INSERT_HEAD t' = Inr False \<and> QUEUEDEBUG_TAILQ_INSERT_TAIL t' = Inr False \<and>
    QUEUEDEBUG_TAILQ_OP x t' = Inr False \<and> TAILQ_LAST t' = Inr (last (x # vs)) \<and>
    TAILQ_PREV t' x = Inr (if us = [] then 0 else last us)"
proof -
  from tailq.run_law [OF tq_rel_INIT, of t cs, unfolded values_INIT simp_thms] assms obtain t' where
    t': "run_ops TAILQ_OP cs (TAILQ_INIT t) = Inr t'" "tq_rel t' (us @ x # vs)" by auto
  from QUEUEDEBUG_TAILQ_ok [OF t'(2)] TAILQ_LAST_ok [OF t'(2)] TAILQ_PREV_ok [OF t'(2)] t'(1) show ?thesis by auto
qed

theorem tailq_checks_pass_witness:
  "\<exists>t'. run_ops TAILQ_OP sample_ops (TAILQ_INIT sample_tailq) = Inr t' \<and>
     QUEUEDEBUG_TAILQ_OP 4 t' = Inr False \<and> TAILQ_LAST t' = Inr 1 \<and> TAILQ_PREV t' 4 = Inr 2"
  using tailq_checks_pass [of sample_tailq sample_ops "[2]" 4 "[1]", unfolded sample_doms] sample_ops_ok sample_ops_result
  by auto

text \<open>
  C34. Lists: any sequence of insertions at the head, after and before an element and of
  removals of any element, from an empty list, gives the list it should; the loop visits
  it and the checks of the debugging kernel pass for its elements.
\<close>

theorem list_ops_refine:
  assumes "ops_ok (\<lambda>c xs. list_has c xs \<and> op_ok (\<lambda>a. a \<noteq> 0 \<and> a \<in> dom (le_cells t)) c xs) cs []"
  shows "\<exists>t'. run_ops LIST_OP cs (LIST_INIT t) = Inr t' \<and> LIST_FOREACH t' = Some (Inr (apply_ops cs [])) \<and>
    QUEUEDEBUG_LIST_INSERT_HEAD t' = Inr False \<and> (\<forall>x\<in>set (apply_ops cs []). QUEUEDEBUG_LIST_OP x t' = Inr False)"
proof -
  from dlist.run_law [OF le_rel_INIT, of t cs, unfolded values_INIT] assms obtain t' where
    t': "run_ops LIST_OP cs (LIST_INIT t) = Inr t'" "le_rel t' (apply_ops cs [])" by auto
  from QUEUEDEBUG_LIST_ok [OF t'(2)] LIST_FOREACH_ok [OF t'(2)] t'(1) show ?thesis by auto
qed

theorem list_ops_refine_witness:
  "\<exists>t'. run_ops LIST_OP [InsHead 1, InsBefore 1 2, InsAfter 2 3, Remove 2]
      (LIST_INIT \<lparr>le_cells = [1 \<mapsto> sample_list_elm, 2 \<mapsto> sample_list_elm, 3 \<mapsto> sample_list_elm], lh_first = 7\<rparr>) = Inr t' \<and> LIST_FOREACH t' = Some (Inr [3, 1])"
  using list_ops_refine [of "\<lparr>le_cells = [1 \<mapsto> sample_list_elm, 2 \<mapsto> sample_list_elm, 3 \<mapsto> sample_list_elm], lh_first = 7\<rparr>" "[InsHead 1, InsBefore 1 2, InsAfter 2 3, Remove 2]"]
  by auto

text \<open>
  Simple queues: any sequence of insertions at the head, at the tail and after an element
  and of removals of the first element gives the list it should, and the pointer to the
  end is right, so that the next insertion at the tail goes behind the last element.
\<close>

theorem simpleq_ops_refine:
  assumes "ops_ok (\<lambda>c xs. simpleq_has c xs \<and> op_ok (\<lambda>a. a \<noteq> 0 \<and> a \<in> dom (sq_cells t)) c xs) cs []"
  shows "\<exists>t'. run_ops SIMPLEQ_OP cs (SIMPLEQ_INIT t) = Inr t' \<and> SIMPLEQ_FOREACH t' = Some (Inr (apply_ops cs [])) \<and>
    SIMPLEQ_FIRST t' = (if apply_ops cs [] = [] then 0 else hd (apply_ops cs [])) \<and>
    sqh_last t' = (if apply_ops cs [] = [] then HeadLoc else NextLoc (last (apply_ops cs [])))"
proof -
  from simpleq.run_law [OF sq_rel_INIT, of t cs, unfolded values_INIT] assms obtain t' where
    t': "run_ops SIMPLEQ_OP cs (SIMPLEQ_INIT t) = Inr t'" "sq_rel t' (apply_ops cs [])" by auto
  from t'(2) SIMPLEQ_FOREACH_ok [OF t'(2)] t'(1) show ?thesis
    by (cases "apply_ops cs []") (auto simp: sq_rel_def SIMPLEQ_FIRST_def)
qed

theorem simpleq_ops_refine_witness:
  "\<exists>t'. run_ops SIMPLEQ_OP [InsTail 1, InsTail 2, InsHead 3, Remove 3, Remove 1]
      (SIMPLEQ_INIT \<lparr>sq_cells = [1 \<mapsto> sample_simpleq_elm, 2 \<mapsto> sample_simpleq_elm, 3 \<mapsto> sample_simpleq_elm], sqh_first = 7, sqh_last = NoLoc\<rparr>) = Inr t' \<and>
     SIMPLEQ_FOREACH t' = Some (Inr [2]) \<and> sqh_last t' = NextLoc 2"
  using simpleq_ops_refine [of "\<lparr>sq_cells = [1 \<mapsto> sample_simpleq_elm, 2 \<mapsto> sample_simpleq_elm, 3 \<mapsto> sample_simpleq_elm], sqh_first = 7, sqh_last = NoLoc\<rparr>"
      "[InsTail 1, InsTail 2, InsHead 3, Remove 3, Remove 1]"]
  by auto

end
