(* ===== verification/Debug_Queues.thy ===== *)
theory Debug_Queues
  imports Queues
begin

text \<open>
  The lists and tail queues of \<open>inc/list.h\<close> as a kernel built with \<open>QUEUEDEBUG\<close>
  has them: every operation begins with a check that panics, and a removed
  element has both its pointers overwritten.  The operations fulfil the same
  contracts as those of the plain build.
\<close>

section \<open>The operations\<close>

text \<open>\<open>panic\<close> does not return.\<close>

definition checked :: "bool exec \<Rightarrow> 'a exec \<Rightarrow> 'a exec" where
  "checked chk run = bindE chk (\<lambda>panics. if panics then Inl (Exited 1) else run)"

definition QUEUEDEBUG_LIST_POSTREMOVE :: "nat \<Rightarrow> 'a list_state \<Rightarrow> 'a list_state exec" where
  "QUEUEDEBUG_LIST_POSTREMOVE x t =
     bindE (le_upd x (\<lambda>e. e\<lparr>le_next := 1\<rparr>) t) (le_upd x (\<lambda>e. e\<lparr>le_prev := PoisonLoc\<rparr>))"

definition QUEUEDEBUG_TAILQ_POSTREMOVE :: "nat \<Rightarrow> 'a tailq \<Rightarrow> 'a tailq exec" where
  "QUEUEDEBUG_TAILQ_POSTREMOVE x t =
     bindE (tq_upd x (\<lambda>e. e\<lparr>tqe_next := 1\<rparr>) t) (tq_upd x (\<lambda>e. e\<lparr>tqe_prev := PoisonLoc\<rparr>))"

fun LIST_OP_DEBUG :: "list_op \<Rightarrow> 'a list_state \<Rightarrow> 'a list_state exec" where
  "LIST_OP_DEBUG (InsHead x) t = checked (QUEUEDEBUG_LIST_INSERT_HEAD t) (LIST_INSERT_HEAD x t)"
| "LIST_OP_DEBUG (InsTail x) t = Inr t"
| "LIST_OP_DEBUG (InsAfter l x) t = checked (QUEUEDEBUG_LIST_OP l t) (LIST_INSERT_AFTER l x t)"
| "LIST_OP_DEBUG (InsBefore l x) t = checked (QUEUEDEBUG_LIST_OP l t) (LIST_INSERT_BEFORE l x t)"
| "LIST_OP_DEBUG (Remove x) t =
     checked (QUEUEDEBUG_LIST_OP x t) (bindE (LIST_REMOVE x t) (QUEUEDEBUG_LIST_POSTREMOVE x))"

fun TAILQ_OP_DEBUG :: "list_op \<Rightarrow> 'a tailq \<Rightarrow> 'a tailq exec" where
  "TAILQ_OP_DEBUG (InsHead x) t = checked (QUEUEDEBUG_TAILQ_INSERT_HEAD t) (TAILQ_INSERT_HEAD x t)"
| "TAILQ_OP_DEBUG (InsTail x) t = checked (QUEUEDEBUG_TAILQ_INSERT_TAIL t) (TAILQ_INSERT_TAIL x t)"
| "TAILQ_OP_DEBUG (InsAfter l x) t = checked (QUEUEDEBUG_TAILQ_OP l t) (TAILQ_INSERT_AFTER l x t)"
| "TAILQ_OP_DEBUG (InsBefore l x) t = checked (QUEUEDEBUG_TAILQ_OP l t) (TAILQ_INSERT_BEFORE l x t)"
| "TAILQ_OP_DEBUG (Remove x) t =
     checked (QUEUEDEBUG_TAILQ_OP x t) (bindE (TAILQ_REMOVE x t) (QUEUEDEBUG_TAILQ_POSTREMOVE x))"

section \<open>They fulfil the contracts\<close>

lemma checked_False [simp]: "checked (Inr False) run = run"
  by (simp add: checked_def)

lemma LIST_POSTREMOVE_ok:
  assumes "le_rel t xs" "x \<notin> set xs" "le_values t x \<noteq> None"
  shows "\<exists>t' e. QUEUEDEBUG_LIST_POSTREMOVE x t = Inr t' \<and> le_rel t' xs \<and> le_values t' = le_values t \<and>
    le_cells t' x = Some e \<and> le_next e = 1 \<and> le_prev e = PoisonLoc"
  using assms by (auto simp: QUEUEDEBUG_LIST_POSTREMOVE_def le_rel_def le_values_def fun_eq_iff)

lemma TAILQ_POSTREMOVE_ok:
  assumes "tq_rel t xs" "x \<notin> set xs" "tq_values t x \<noteq> None"
  shows "\<exists>t' e. QUEUEDEBUG_TAILQ_POSTREMOVE x t = Inr t' \<and> tq_rel t' xs \<and> tq_values t' = tq_values t \<and>
    tq_cells t' x = Some e \<and> tqe_next e = 1 \<and> tqe_prev e = PoisonLoc"
  using assms by (auto simp: QUEUEDEBUG_TAILQ_POSTREMOVE_def tq_rel_def tq_values_def fun_eq_iff)

lemma LIST_REMOVE_debug_ok:
  assumes "le_rel t (us @ x # vs)"
  shows "\<exists>t' e. LIST_OP_DEBUG (Remove x) t = Inr t' \<and> le_rel t' (us @ vs) \<and> le_values t' = le_values t \<and>
    le_cells t' x = Some e \<and> le_next e = 1 \<and> le_prev e = PoisonLoc"
proof -
  from LIST_REMOVE_ok [OF assms(1)] obtain t1 where t1: "LIST_REMOVE x t = Inr t1" "le_rel t1 (us @ vs)" "le_values t1 = le_values t"
    by blast
  have "x \<notin> set (us @ vs)" "le_values t x \<noteq> None" using assms(1) by (auto simp: le_rel_def le_values_def)
  with LIST_POSTREMOVE_ok [OF t1(2)] t1 QUEUEDEBUG_LIST_ok(2) [OF assms(1), of x] show ?thesis by simp
qed

lemma TAILQ_REMOVE_debug_ok:
  assumes "tq_rel t (us @ x # vs)"
  shows "\<exists>t' e. TAILQ_OP_DEBUG (Remove x) t = Inr t' \<and> tq_rel t' (us @ vs) \<and> tq_values t' = tq_values t \<and>
    tq_cells t' x = Some e \<and> tqe_next e = 1 \<and> tqe_prev e = PoisonLoc"
proof -
  from TAILQ_REMOVE_ok [OF assms(1)] obtain t1 where t1: "TAILQ_REMOVE x t = Inr t1" "tq_rel t1 (us @ vs)" "tq_values t1 = tq_values t"
    by blast
  have "x \<notin> set (us @ vs)" "tq_values t x \<noteq> None" using assms(1) by (auto simp: tq_rel_def tq_values_def)
  with TAILQ_POSTREMOVE_ok [OF t1(2)] t1 QUEUEDEBUG_TAILQ_ok(3) [OF assms(1), of x] show ?thesis by simp
qed

lemma LIST_OP_DEBUG_ok:
  assumes rel: "le_rel t xs" and has: "list_has c xs" and ok: "op_ok (\<lambda>a. a \<noteq> 0 \<and> le_values t a \<noteq> None) c xs"
  shows "\<exists>t'. LIST_OP_DEBUG c t = Inr t' \<and> le_rel t' (apply_op c xs) \<and> le_values t' = le_values t"
proof (cases c)
  case (Remove x)
  with ok obtain us vs where "xs = us @ x # vs" "x \<notin> set us" by (auto dest: split_list_first)
  with LIST_REMOVE_debug_ok [of t us x vs] rel Remove show ?thesis by (auto simp: op_splits)
qed (use LIST_OP_ok [OF assms] QUEUEDEBUG_LIST_ok [OF rel] has ok in auto)

lemma TAILQ_OP_DEBUG_ok:
  assumes rel: "tq_rel t xs" and ok: "op_ok (\<lambda>a. a \<noteq> 0 \<and> tq_values t a \<noteq> None) c xs"
  shows "\<exists>t'. TAILQ_OP_DEBUG c t = Inr t' \<and> tq_rel t' (apply_op c xs) \<and> tq_values t' = tq_values t"
proof (cases c)
  case (Remove x)
  with ok obtain us vs where "xs = us @ x # vs" "x \<notin> set us" by (auto dest: split_list_first)
  with TAILQ_REMOVE_debug_ok [of t us x vs] rel Remove show ?thesis by (auto simp: op_splits)
qed (use TAILQ_OP_ok [OF assms] QUEUEDEBUG_TAILQ_ok [OF rel] ok in auto)

interpretation dlist_debug: linked le_rel le_values list_has LIST_OP_DEBUG LIST_FOREACH
  by unfold_locales (simp_all add: LIST_OP_DEBUG_ok LIST_FOREACH_ok)

interpretation tailq_debug: two_way tq_rel tq_values "\<lambda>c xs. True" TAILQ_OP_DEBUG TAILQ_FOREACH TAILQ_FOREACH_REVERSE
  by unfold_locales (simp_all add: TAILQ_OP_DEBUG_ok TAILQ_FOREACH_ok TAILQ_FOREACH_REVERSE_ok)

text \<open>An operation that names a removed element stops at its check.\<close>

lemma poisoned_TAILQ_OP:
  assumes "tq_cells t x = Some e" "tqe_next e = 1" "tq_cells t 1 = None"
  shows "QUEUEDEBUG_TAILQ_OP x t = Inl (Undef BadPointer)"
  using assms by (simp add: QUEUEDEBUG_TAILQ_OP_def tqe_prev_of_def fetch_def)

lemma poisoned_LIST_OP:
  assumes "le_cells t x = Some e" "le_next e = 1" "le_cells t 1 = None"
  shows "QUEUEDEBUG_LIST_OP x t = Inl (Undef BadPointer)"
  using assms by (simp add: QUEUEDEBUG_LIST_OP_def le_prev_of_def fetch_def)

section \<open>Both builds\<close>

text \<open>
  C40. The debugging build changes nothing for a correct program and traps a use
  of a removed element: any sequence of operations on a tail queue, each used as
  it should be, panics nowhere and gives the queue of the plain build in both
  directions; right after any element of that queue has been removed, removing it
  again and inserting after or before it stop.  (Inserting the removed element itself
  does not.)  No element lives at address 1, the mark of a removed one.
\<close>

theorem tailq_debug_build:
  assumes "ops_ok (op_ok (\<lambda>a. a \<noteq> 0 \<and> a \<in> dom (tq_cells t))) cs []" "tq_cells t 1 = None"
  shows "\<exists>t' u'. run_ops TAILQ_OP cs (TAILQ_INIT t) = Inr t' \<and> run_ops TAILQ_OP_DEBUG cs (TAILQ_INIT t) = Inr u' \<and>
    TAILQ_FOREACH u' = TAILQ_FOREACH t' \<and> TAILQ_FOREACH_REVERSE u' = TAILQ_FOREACH_REVERSE t' \<and>
    (\<forall>x\<in>set (apply_ops cs []). \<exists>v'. TAILQ_OP_DEBUG (Remove x) u' = Inr v' \<and>
      (\<forall>y. \<forall>c\<in>{Remove x, InsAfter x y, InsBefore x y}. TAILQ_OP_DEBUG c v' = Inl (Undef BadPointer)))"
proof -
  from tailq.run_two_way [OF tq_rel_INIT, of t cs, unfolded values_INIT simp_thms] assms(1) obtain t' where
    t': "run_ops TAILQ_OP cs (TAILQ_INIT t) = Inr t'" "TAILQ_FOREACH t' = Some (Inr (apply_ops cs []))"
      "TAILQ_FOREACH_REVERSE t' = Some (Inr (rev (apply_ops cs [])))" by auto
  from tailq_debug.run_two_way [OF tq_rel_INIT, of t cs, unfolded values_INIT simp_thms] assms(1) obtain u' where
    u': "run_ops TAILQ_OP_DEBUG cs (TAILQ_INIT t) = Inr u'" "TAILQ_FOREACH u' = Some (Inr (apply_ops cs []))"
      "TAILQ_FOREACH_REVERSE u' = Some (Inr (rev (apply_ops cs [])))" "tq_rel u' (apply_ops cs [])"
      "tq_values u' = tq_values (TAILQ_INIT t)" by auto
  have "\<exists>v'. TAILQ_OP_DEBUG (Remove x) u' = Inr v' \<and>
      (\<forall>y. \<forall>c\<in>{Remove x, InsAfter x y, InsBefore x y}. TAILQ_OP_DEBUG c v' = Inl (Undef BadPointer))"
    if "x \<in> set (apply_ops cs [])" for x
  proof -
    from that obtain us vs where "apply_ops cs [] = us @ x # vs" by (auto simp: in_set_conv_decomp)
    with TAILQ_REMOVE_debug_ok [of u' us x vs] u'(4) obtain v' e where v': "TAILQ_OP_DEBUG (Remove x) u' = Inr v'"
      "tq_values v' = tq_values u'" "tq_cells v' x = Some e" "tqe_next e = 1" by auto
    have "tq_values v' 1 = None" using v'(2) u'(5) assms(2) by (simp add: tq_values_def TAILQ_INIT_def)
    then have "tq_cells v' 1 = None" by (simp add: tq_values_def)
    from poisoned_TAILQ_OP [OF v'(3,4) this] v'(1) show ?thesis by (auto simp: checked_def)
  qed
  with t' u' show ?thesis by auto
qed

theorem tailq_debug_build_witness:
  "\<exists>u' v'. run_ops TAILQ_OP_DEBUG [InsTail 2, InsHead 3, Remove 2] (TAILQ_INIT (sample_tailq\<lparr>tq_cells := (tq_cells sample_tailq)(1 := None)\<rparr>)) = Inr u' \<and>
     TAILQ_OP_DEBUG (Remove 3) u' = Inr v' \<and> TAILQ_OP_DEBUG (Remove 3) v' = Inl (Undef BadPointer)"
  using tailq_debug_build [of "sample_tailq\<lparr>tq_cells := (tq_cells sample_tailq)(1 := None)\<rparr>" "[InsTail 2, InsHead 3, Remove 2]"]
  by (auto simp: sample_tailq_def)

theorem list_debug_build:
  assumes "ops_ok (\<lambda>c xs. list_has c xs \<and> op_ok (\<lambda>a. a \<noteq> 0 \<and> a \<in> dom (le_cells t)) c xs) cs []" "le_cells t 1 = None"
  shows "\<exists>u'. run_ops LIST_OP_DEBUG cs (LIST_INIT t) = Inr u' \<and> LIST_FOREACH u' = Some (Inr (apply_ops cs [])) \<and>
    (\<forall>x\<in>set (apply_ops cs []). \<exists>v'. LIST_OP_DEBUG (Remove x) u' = Inr v' \<and>
      LIST_OP_DEBUG (Remove x) v' = Inl (Undef BadPointer))"
proof -
  from dlist_debug.run_law [OF le_rel_INIT, of t cs, unfolded values_INIT] assms(1) obtain u' where
    u': "run_ops LIST_OP_DEBUG cs (LIST_INIT t) = Inr u'" "LIST_FOREACH u' = Some (Inr (apply_ops cs []))"
      "le_rel u' (apply_ops cs [])" "le_values u' = le_values (LIST_INIT t)" by auto
  have "\<exists>v'. LIST_OP_DEBUG (Remove x) u' = Inr v' \<and> LIST_OP_DEBUG (Remove x) v' = Inl (Undef BadPointer)"
    if "x \<in> set (apply_ops cs [])" for x
  proof -
    from that obtain us vs where "apply_ops cs [] = us @ x # vs" by (auto simp: in_set_conv_decomp)
    with LIST_REMOVE_debug_ok [of u' us x vs] u'(3) obtain v' e where v': "LIST_OP_DEBUG (Remove x) u' = Inr v'"
      "le_values v' = le_values u'" "le_cells v' x = Some e" "le_next e = 1" by auto
    have "le_values v' 1 = None" using v'(2) u'(4) assms(2) by (simp add: le_values_def LIST_INIT_def)
    then have "le_cells v' 1 = None" by (simp add: le_values_def)
    from poisoned_LIST_OP [OF v'(3,4) this] v'(1) show ?thesis by (auto simp: checked_def)
  qed
  with u' show ?thesis by auto
qed

end
