(* ===== verification/Common_Wrappers.thy ===== *)
theory Common_Wrappers
  imports Sys_Calls Socket_IO
begin

text \<open>
  The wrappers of \<open>inc/common.h\<close>, a second collection beside those of \<open>inc/sock.h\<close>
  and \<open>utils/utils.h\<close>; where it defines a function of the same name as these, the
  model's name ends in \<open>_c\<close>.  Each wrapper makes one call and ends the program with
  \<open>exit(0)\<close> when it fails; the interpretations say which result it takes for a
  success.
\<close>

section \<open>Leaving the program\<close>

text \<open>The macros \<open>err_exit\<close> and \<open>err_dump\<close> print a message and call \<open>exit(0)\<close>.\<close>

definition err_exit :: "'a exec" where
  "err_exit = Inl (Exited 0)"

definition err_dump :: "'a exec" where
  "err_dump = Inl (Exited 0)"

section \<open>The user and group databases\<close>

text \<open>What the library functions find is a parameter; \<open>None\<close> is \<open>NULL\<close>.\<close>

definition Getpwuid :: "(int \<Rightarrow> 'p option) \<Rightarrow> int \<Rightarrow> 'p exec" where
  "Getpwuid getpwuid uid = (case getpwuid uid of None \<Rightarrow> err_exit | Some pw_st \<Rightarrow> Inr pw_st)"

definition Getpwnam :: "(string \<Rightarrow> 'p option) \<Rightarrow> string \<Rightarrow> 'p exec" where
  "Getpwnam getpwnam name = (case getpwnam name of None \<Rightarrow> err_exit | Some pw_st \<Rightarrow> Inr pw_st)"

text \<open>\<open>getpwent\<close> and \<open>getgrent\<close> return the entries one by one, and \<open>NULL\<close> when there are no more.\<close>

definition Getpwent :: "'p list \<Rightarrow> ('p \<times> 'p list) exec" where
  "Getpwent entries = (case entries of [] \<Rightarrow> err_exit | pw_st # rest \<Rightarrow> Inr (pw_st, rest))"

definition Getgrent :: "'g list \<Rightarrow> ('g \<times> 'g list) exec" where
  "Getgrent entries = (case entries of [] \<Rightarrow> err_exit | pw_st # rest \<Rightarrow> Inr (pw_st, rest))"

section \<open>Searching a string\<close>

text \<open>
  \<open>skip\<close> on an array, with \<open>start\<close> and the result as offsets.  The condition of its
  loop calls \<open>strcpy\<close>, which writes \<open>op\<close> over the text and returns \<open>start\<close>, never
  \<open>NULL\<close>.
\<close>

definition skip_body :: "string \<Rightarrow> nat \<times> carray \<Rightarrow> ((nat \<times> carray) \<times> bool) exec" where
  "skip_body op = (\<lambda>(start, b).
     bindE (rd b start) (\<lambda>c.
     if c = NUL then Inr ((start, b), True)
     else bindE (put_str b start op) (\<lambda>b. Inr ((start + 1, b), False))))"

definition skip :: "carray \<Rightarrow> nat \<Rightarrow> string \<Rightarrow> (nat \<times> carray) run" where
  "skip b start op =
     bindR (c_loop (\<lambda>s. Some (skip_body op s)) (start, b)) (\<lambda>(start, b).
     bindR (Some (rd b start)) (\<lambda>c.
     Some (Inr (if c \<noteq> NUL then start + 1 else start, b))))"

section \<open>Processes and descriptors\<close>

definition Fork_c :: "world \<Rightarrow> (int \<times> world) exec" where
  "Fork_c w = bindE (sys CFork w) (\<lambda>(r, w). if sys_val r < 0 then err_dump else Inr (sys_val r, w))"

definition Close :: "int \<Rightarrow> world \<Rightarrow> (int \<times> world) exec" where
  "Close fd w = bindE (sys (CClose fd) w) (\<lambda>(r, w). if sys_val r \<noteq> 0 then err_dump else Inr (sys_val r, w))"

definition STDIN_FILENO :: int where "STDIN_FILENO = 0"
definition STDOUT_FILENO :: int where "STDOUT_FILENO = 1"

definition dup2_stdin :: "int \<Rightarrow> world \<Rightarrow> (int \<times> world) exec" where
  "dup2_stdin fd w =
     (if fd \<noteq> STDIN_FILENO then
        bindE (sys (CDup2 fd STDIN_FILENO) w) (\<lambda>(r, w).
        if sys_val r \<noteq> STDIN_FILENO then err_dump
        else bindE (sys (CClose fd) w) (\<lambda>(_, w). Inr (0, w)))
      else Inr (0, w))"

definition dup2_stdout :: "int \<Rightarrow> world \<Rightarrow> (int \<times> world) exec" where
  "dup2_stdout fd w =
     (if fd = STDOUT_FILENO then
        bindE (sys (CDup2 fd STDOUT_FILENO) w) (\<lambda>(r, w).
        if sys_val r \<noteq> STDOUT_FILENO then err_dump
        else bindE (sys (CClose fd) w) (\<lambda>(_, w). Inr (0, w)))
      else Inr (0, w))"

definition Pipe_c :: "world \<Rightarrow> (int \<times> world) exec" where
  "Pipe_c w = bindE (sys CPipe w) (\<lambda>(r, w). if sys_val r = - 1 then err_dump else Inr (sys_val r, w))"

definition Setsid :: "world \<Rightarrow> (int \<times> world) exec" where
  "Setsid w = bindE (sys CSetsid w) (\<lambda>(r, w). if sys_val r = - 1 then err_dump else Inr (sys_val r, w))"

definition Getrlimit :: "int \<Rightarrow> world \<Rightarrow> (int \<times> world) exec" where
  "Getrlimit res w = bindE (sys (CGetrlimit res) w) (\<lambda>(r, w). if sys_val r = - 1 then err_dump else Inr (sys_val r, w))"

definition Setrlimit :: "int \<Rightarrow> world \<Rightarrow> (int \<times> world) exec" where
  "Setrlimit res w = bindE (sys (CSetrlimit res) w) (\<lambda>(r, w). if sys_val r = - 1 then err_dump else Inr (sys_val r, w))"

section \<open>Sockets\<close>

definition Socket_c :: "int \<Rightarrow> int \<Rightarrow> int \<Rightarrow> world \<Rightarrow> (int \<times> world) exec" where
  "Socket_c domain type prot w =
     bindE (sys (CSocket domain type prot) w) (\<lambda>(r, w). if sys_val r < 0 then err_dump else Inr (sys_val r, w))"

definition Connect :: "int \<Rightarrow> nat \<Rightarrow> world \<Rightarrow> (int \<times> world) exec" where
  "Connect socketfd addr w =
     bindE (sys (CConnect socketfd addr) w) (\<lambda>(r, w). if sys_val r < 0 then err_dump else Inr (sys_val r, w))"

definition Bind_c :: "int \<Rightarrow> nat \<Rightarrow> world \<Rightarrow> (int \<times> world) exec" where
  "Bind_c socketfd addr w =
     bindE (sys (CBind socketfd addr) w) (\<lambda>(r, w). if sys_val r = - 1 then err_dump else Inr (sys_val r, w))"

definition Listen_c :: "int \<Rightarrow> int \<Rightarrow> world \<Rightarrow> (int \<times> world) exec" where
  "Listen_c fd backlog w =
     bindE (sys (CListen fd backlog) w) (\<lambda>(r, w). if sys_val r < 0 then err_dump else Inr (sys_val r, w))"

definition Ser_accept :: "int \<Rightarrow> world \<Rightarrow> (int \<times> world) exec" where
  "Ser_accept listfd w =
     bindE (sys (CAccept listfd) w) (\<lambda>(r, w). if sys_val r < 0 then err_dump else Inr (sys_val r, w))"

definition Accept_c :: "int \<Rightarrow> world \<Rightarrow> (int \<times> world) exec" where
  "Accept_c listenfd w =
     bindE (sys (CAccept listenfd) w) (\<lambda>(r, w). if sys_val r < 0 then err_dump else Inr (sys_val r, w))"

section \<open>Files\<close>

definition Open :: "string \<Rightarrow> int \<Rightarrow> int \<Rightarrow> world \<Rightarrow> (int \<times> world) exec" where
  "Open path type mode w =
     bindE (sys (COpenMode path type mode) w) (\<lambda>(r, w). if sys_val r < 0 then err_dump else Inr (sys_val r, w))"

definition Stat :: "string \<Rightarrow> world \<Rightarrow> (int \<times> world) exec" where
  "Stat filename w =
     bindE (sys (CStat filename) w) (\<lambda>(r, w). if sys_val r < 0 then err_dump else Inr (sys_val r, w))"

definition Fcntl :: "int \<Rightarrow> int \<Rightarrow> world \<Rightarrow> (int \<times> world) exec" where
  "Fcntl fd cmd w =
     bindE (sys (CFcntlLock fd cmd) w) (\<lambda>(r, w). if sys_val r = - 1 then err_dump else Inr (sys_val r, w))"

definition Ftruncate :: "int \<Rightarrow> int \<Rightarrow> world \<Rightarrow> (int \<times> world) exec" where
  "Ftruncate fd len w =
     bindE (sys (CFtruncate fd len) w) (\<lambda>(r, w). if sys_val r < 0 then err_dump else Inr (sys_val r, w))"

text \<open>\<open>Read_s\<close> and \<open>Write_s\<close> have the same text here as in \<open>inc/sock.h\<close>.\<close>

definition Read_s_c :: "rd_ret list \<Rightarrow> carray \<Rightarrow> int \<Rightarrow> (int \<times> carray \<times> rd_ret list) exec" where
  "Read_s_c script buf sz = Read_s_loop script buf 0 (to_size sz) sz"

definition Write_s_c :: "wr_ret list \<Rightarrow> carray \<Rightarrow> int \<Rightarrow> (int \<times> string \<times> wr_ret list) exec" where
  "Write_s_c script buf sz = Write_s_loop script buf 0 sz sz []"

section \<open>Memory\<close>

text \<open>What \<open>malloc\<close> and \<open>mmap\<close> return is a parameter; \<open>None\<close> is \<open>NULL\<close> or \<open>MAP_FAILED\<close>.\<close>

definition Malloc_c :: "(nat \<Rightarrow> 'p option) \<Rightarrow> nat \<Rightarrow> 'p exec" where
  "Malloc_c malloc sz = (case malloc sz of None \<Rightarrow> err_dump | Some prval \<Rightarrow> Inr prval)"

definition Mmap ::
  "(nat \<Rightarrow> nat \<Rightarrow> int \<Rightarrow> int \<Rightarrow> int \<Rightarrow> int \<Rightarrow> 'p option) \<Rightarrow> nat \<Rightarrow> nat \<Rightarrow> int \<Rightarrow> int \<Rightarrow> int \<Rightarrow> int \<Rightarrow> 'p exec" where
  "Mmap mmap addr len prot flag fd offset =
     (case mmap addr len prot flag fd offset of None \<Rightarrow> err_dump | Some pval \<Rightarrow> Inr pval)"

definition Munmap :: "nat \<Rightarrow> nat \<Rightarrow> world \<Rightarrow> (int \<times> world) exec" where
  "Munmap p sz w =
     bindE (sys (CMunmap p sz) w) (\<lambda>(r, w). if sys_val r \<noteq> 0 then err_dump else Inr (sys_val r, w))"

definition Msync :: "nat \<Rightarrow> nat \<Rightarrow> int \<Rightarrow> world \<Rightarrow> (int \<times> world) exec" where
  "Msync addr len flag w =
     bindE (sys (CMsync addr len flag) w) (\<lambda>(r, w). if sys_val r \<noteq> 0 then err_dump else Inr (sys_val r, w))"

definition Mprotect :: "nat \<Rightarrow> nat \<Rightarrow> int \<Rightarrow> world \<Rightarrow> (int \<times> world) exec" where
  "Mprotect addr len flag w =
     bindE (sys (CMprotect addr len flag) w) (\<lambda>(r, w). if sys_val r \<noteq> 0 then err_dump else Inr (sys_val r, w))"

definition Shm_open :: "string \<Rightarrow> int \<Rightarrow> int \<Rightarrow> world \<Rightarrow> (int \<times> world) exec" where
  "Shm_open name oflag mode w =
     bindE (sys (CShmOpen name oflag mode) w) (\<lambda>(r, w). if sys_val r < 0 then err_dump else Inr (sys_val r, w))"

definition Shm_unlink :: "string \<Rightarrow> world \<Rightarrow> (int \<times> world) exec" where
  "Shm_unlink name w =
     bindE (sys (CShmUnlink name) w) (\<lambda>(r, w). if sys_val r < 0 then err_dump else Inr (sys_val r, w))"

section \<open>The contract of a checked call\<close>

lemmas common_defs = Fork_c_def Close_def Pipe_c_def Setsid_def Getrlimit_def Setrlimit_def Socket_c_def Connect_def Bind_c_def
  Listen_c_def Ser_accept_def Accept_c_def Open_def Stat_def Fcntl_def Ftruncate_def Munmap_def Msync_def Mprotect_def
  Shm_open_def Shm_unlink_def err_dump_def

interpretation Fork_c: checked_call Fork_c CFork
  by unfold_locales (simp_all add: common_defs)

interpretation Pipe_c: checked_call Pipe_c CPipe
  by unfold_locales (simp_all add: common_defs)

interpretation Setsid: checked_call Setsid CSetsid
  by unfold_locales (simp_all add: common_defs)

interpretation Getrlimit: checked_call "Getrlimit res" "CGetrlimit res"
  by unfold_locales (simp_all add: common_defs)

interpretation Setrlimit: checked_call "Setrlimit res" "CSetrlimit res"
  by unfold_locales (simp_all add: common_defs)

interpretation Socket_c: checked_call "Socket_c d t p" "CSocket d t p"
  by unfold_locales (simp_all add: common_defs)

interpretation Connect: checked_call "Connect fd a" "CConnect fd a"
  by unfold_locales (simp_all add: common_defs)

interpretation Bind_c: checked_call "Bind_c fd a" "CBind fd a"
  by unfold_locales (simp_all add: common_defs)

interpretation Listen_c: checked_call "Listen_c fd n" "CListen fd n"
  by unfold_locales (simp_all add: common_defs)

interpretation Ser_accept: checked_call "Ser_accept fd" "CAccept fd"
  by unfold_locales (simp_all add: common_defs)

interpretation Accept_c: checked_call "Accept_c fd" "CAccept fd"
  by unfold_locales (simp_all add: common_defs)

interpretation Open: checked_call "Open path m n" "COpenMode path m n"
  by unfold_locales (simp_all add: common_defs)

interpretation Stat: checked_call "Stat path" "CStat path"
  by unfold_locales (simp_all add: common_defs)

interpretation Fcntl: checked_call "Fcntl fd cmd" "CFcntlLock fd cmd"
  by unfold_locales (simp_all add: common_defs)

interpretation Ftruncate: checked_call "Ftruncate fd n" "CFtruncate fd n"
  by unfold_locales (simp_all add: common_defs)

interpretation Shm_open: checked_call "Shm_open path f m" "CShmOpen path f m"
  by unfold_locales (simp_all add: common_defs)

interpretation Shm_unlink: checked_call "Shm_unlink path" "CShmUnlink path"
  by unfold_locales (simp_all add: common_defs)

interpretation Close: checked_result "Close fd" "CClose fd" "\<lambda>v. v = 0"
  by unfold_locales (simp_all add: common_defs)

interpretation Munmap: checked_result "Munmap p n" "CMunmap p n" "\<lambda>v. v = 0"
  by unfold_locales (simp_all add: common_defs)

interpretation Msync: checked_result "Msync p n f" "CMsync p n f" "\<lambda>v. v = 0"
  by unfold_locales (simp_all add: common_defs)

interpretation Mprotect: checked_result "Mprotect p n f" "CMprotect p n f" "\<lambda>v. v = 0"
  by unfold_locales (simp_all add: common_defs)

section \<open>Redirecting standard streams\<close>

text \<open>
  What successful calls do to the table of open descriptors of the process, which
  maps a descriptor to the file it stands for.
\<close>

fun table_step :: "call \<times> sys_ret \<Rightarrow> (int \<rightharpoonup> 'f) \<Rightarrow> (int \<rightharpoonup> 'f)" where
  "table_step (CDup2 old new, SysOk v) T = T(new := T old)"
| "table_step (CClose fd, SysOk v) T = T(fd := None)"
| "table_step _ T = T"

definition table_after :: "(call \<times> sys_ret) list \<Rightarrow> (int \<rightharpoonup> 'f) \<Rightarrow> (int \<rightharpoonup> 'f)" where
  "table_after calls T = fold table_step calls T"

section \<open>The loop of skip\<close>

lemma skip_loop_overflows:
  assumes op: "op = c # d # rest" "NUL \<notin> set op" and start: "p < length b" "b ! p \<noteq> NUL"
  shows "c_loop (\<lambda>s. Some (skip_body op s)) (p, b) = Some (Inl (Undef WriteOOB))"
  using start
proof (induction "length b - p" arbitrary: p b rule: less_induct)
  case less
  show ?case
  proof (cases "p + length op < length b")
    case False
    with less.prems show ?thesis by (simp add: c_loop.simps [of _ "(p, b)"] skip_body_def rd_def put_str_def)
  next
    case True
    let ?b = "take p b @ op @ NUL # drop (p + length op + 1) b"
    have len: "length ?b = length b" using True by simp
    have "?b ! (p + 1) = d" using True op(1) by (simp add: nth_append)
    then have "?b ! (p + 1) \<noteq> NUL" using op by auto
    with less.hyps [of ?b "p + 1"] len True op(1)
    have "c_loop (\<lambda>s. Some (skip_body op s)) (p + 1, ?b) = Some (Inl (Undef WriteOOB))" by simp
    moreover have "skip_body op (p, b) = Inr ((p + 1, ?b), False)"
      using less.prems True by (simp add: skip_body_def rd_def put_str_def)
    ultimately show ?thesis by (simp add: c_loop.simps [of _ "(p, b)"])
  qed
qed

section \<open>Properties\<close>

text \<open>
  C36. \<open>skip\<close> does not search: whatever the text, if it is not empty and the string
  to look for has two characters or more, the copies written over the text run past the
  end of the array; a string of one character replaces the first character of the
  text and cuts the text off behind it.
\<close>

theorem skip_overflows:
  assumes "str_at b p = Inr s" "s \<noteq> []" "NUL \<notin> set op"
  shows "(2 \<le> length op \<longrightarrow> skip b p op = Some (Inl (Undef WriteOOB))) \<and>
    (\<forall>c. op = [c] \<longrightarrow> skip b p op = Some (Inr (p + 1, take p b @ c # NUL # drop (p + 2) b)))"
proof -
  from assms(1,2) obtain y ys post where y: "drop p b = y # ys @ NUL # post" "y \<noteq> NUL"
    by (auto simp: str_at_def c_str_Some neq_Nil_conv split: option.splits)
  then have "length (drop p b) \<ge> 2" "hd (drop p b) = y" by simp_all
  then have p: "p + 1 < length b" "b ! p \<noteq> NUL" using y(2) hd_drop_conv_nth [of p b] by auto
  have "skip b p op = Some (Inl (Undef WriteOOB))" if "2 \<le> length op"
  proof -
    from that obtain c d rest where "op = c # d # rest" by (metis One_nat_def Suc_1 Suc_le_length_iff)
    with skip_loop_overflows [of op c d rest p b] p assms(3) show ?thesis by (simp add: skip_def)
  qed
  moreover have "skip b p [c] = Some (Inr (p + 1, take p b @ c # NUL # drop (p + 2) b))" for c
  proof -
    let ?b = "take p b @ c # NUL # drop (p + 2) b"
    have len: "length ?b = length b" and nul: "?b ! (p + 1) = NUL" using p by (auto simp: nth_append)
    have "skip_body [c] (p, b) = Inr ((p + 1, ?b), False)" using p by (simp add: skip_body_def rd_def put_str_def)
    moreover have "skip_body [c] (p + 1, ?b) = Inr ((p + 1, ?b), True)" using p len nul by (simp add: skip_body_def rd_def)
    moreover have "rd ?b (p + 1) = Inr NUL" using p len nul by (simp add: rd_def)
    ultimately show ?thesis by (simp add: skip_def c_loop.simps)
  qed
  ultimately show ?thesis by blast
qed

theorem skip_overflows_witness:
  "skip (''a=b'' @ [NUL, NUL, NUL]) 0 ''=='' = Some (Inl (Undef WriteOOB))"
  using skip_overflows [of "''a=b'' @ [NUL, NUL, NUL]" 0 "''a=b''" "''==''"] by (simp add: str_at_def)

text \<open>
  \<open>dup2_stdin\<close> makes its argument the standard input and closes the spare
  descriptor.  \<open>dup2_stdout\<close> has the opposite test: a descriptor other than 1 is not
  made the standard output, no call is made at all, and called with 1 it closes the
  standard output.
\<close>

theorem dup2_std_streams:
  assumes "trace w = []"
  shows "(fd \<noteq> 0 \<and> outcomes w = SysOk 0 # SysOk 0 # rs \<longrightarrow>
      (\<exists>w'. dup2_stdin fd w = Inr (0, w') \<and> table_after (trace w') T = T(0 := T fd, fd := None))) \<and>
    (fd \<noteq> 1 \<longrightarrow> dup2_stdout fd w = Inr (0, w)) \<and>
    (outcomes w = SysOk 1 # SysOk 0 # rs \<longrightarrow> (\<exists>w'. dup2_stdout 1 w = Inr (0, w') \<and> table_after (trace w') T = T(1 := None)))"
  using assms by (auto simp: dup2_stdin_def dup2_stdout_def STDIN_FILENO_def STDOUT_FILENO_def table_after_def)

theorem dup2_std_streams_witness:
  "\<exists>w'. dup2_stdin 5 \<lparr>outcomes = [SysOk 0, SysOk 0], trace = []\<rparr> = Inr (0, w') \<and>
     table_after (trace w') [0 \<mapsto> ''tty'', 5 \<mapsto> ''file''] = [0 \<mapsto> ''file'']"
proof -
  let ?T = "[0 \<mapsto> ''tty'', 5 \<mapsto> ''file''] :: int \<rightharpoonup> string"
  have eq: "?T(0 := ?T 5, 5 := None) = [0 \<mapsto> ''file'']" by (auto simp: fun_eq_iff)
  from dup2_std_streams [of "\<lparr>outcomes = [SysOk 0, SysOk 0], trace = []\<rparr>" 5 "[]" ?T, unfolded eq] show ?thesis by auto
qed

text \<open>
  In programs whose kernel reports failures by -1 the wrappers of this file can
  take the place of those of \<open>inc/sock.h\<close> and \<open>utils/utils.h\<close>: \<open>Bind\<close>, \<open>Listen\<close>,
  \<open>Connect\<close>, \<open>Fork\<close>, \<open>Pipe\<close> behave the same; \<open>Socket\<close> does for IPv4 streams only,
  where the other one ignores its arguments, and \<open>Accept\<close> if no call fails.
\<close>

theorem common_wrappers_agree:
  assumes "kernel_ok w"
  shows "Bind_c fd a w = Bind fd a w \<and> Listen_c fd n w = Listen fd n w \<and> Connect fd a w = Connnect fd a w \<and>
    Fork_c w = Fork w \<and> Pipe_c w = Pipe w \<and> Socket_c AF_INET SOCK_STREAM 0 w = Socket d t p w \<and>
    (\<forall>v rs. outcomes w = SysOk v # rs \<longrightarrow> Accept_c fd w = Accept fd w) \<and>
    (\<forall>e rs. outcomes w = SysErr e # rs \<longrightarrow> Accept_c fd w = Inl (Exited 0) \<and> (\<exists>v w'. Accept fd w = Inr (v, w')))"
proof (cases "outcomes w")
  case Nil
  then show ?thesis by (simp add: common_defs wrapper_defs)
next
  case (Cons r rs)
  with assms show ?thesis by (cases r) (auto simp: common_defs wrapper_defs Accept_def kernel_ok_def)
qed

theorem common_wrappers_agree_witness:
  "Bind_c 4 7 \<lparr>outcomes = [SysErr EAGAIN], trace = []\<rparr> = Bind 4 7 \<lparr>outcomes = [SysErr EAGAIN], trace = []\<rparr> \<and>
     Accept_c 4 \<lparr>outcomes = [SysErr EAGAIN], trace = []\<rparr> = Inl (Exited 0)"
  using common_wrappers_agree [of "\<lparr>outcomes = [SysErr EAGAIN], trace = []\<rparr>" 4 7] by (simp add: kernel_ok_def)

text \<open>
  Each wrapper makes exactly one call, its own, and has three outcomes: it returns
  the result of a call that succeeded, ends the program, with the exit status 0 of a
  success, when the call failed, or waits.  \<open>Close\<close>, \<open>Munmap\<close>, \<open>Msync\<close> and \<open>Mprotect\<close>
  return nothing but 0.
\<close>

theorem common_wrappers_checked:
  assumes "kernel_ok w"
    and "(wrap, c) \<in> set
      [(Fork_c, CFork), (Pipe_c, CPipe), (Setsid, CSetsid),
       (Getrlimit res, CGetrlimit res), (Setrlimit res, CSetrlimit res), (Socket_c d t p, CSocket d t p),
       (Connect fd a, CConnect fd a), (Bind_c fd a, CBind fd a), (Listen_c fd n, CListen fd n),
       (Ser_accept fd, CAccept fd), (Accept_c fd, CAccept fd), (Open path t m, COpenMode path t m),
       (Stat path, CStat path), (Fcntl fd cmd, CFcntlLock fd cmd), (Ftruncate fd n, CFtruncate fd n),
       (Shm_open path t m, CShmOpen path t m), (Shm_unlink path, CShmUnlink path)]"
    and "(wrap0, c0) \<in> set [(Close fd, CClose fd), (Munmap a l, CMunmap a l), (Msync a l f, CMsync a l f),
       (Mprotect a l f, CMprotect a l f)]"
  shows "(case outcomes w of
      [] \<Rightarrow> wrap w = Inl Blocked \<and> wrap0 w = Inl Blocked
    | SysErr e # rs \<Rightarrow> wrap w = Inl (Exited 0) \<and> wrap0 w = Inl (Exited 0)
    | SysOk v # rs \<Rightarrow> wrap w = Inr (v, \<lparr>outcomes = rs, trace = trace w @ [(c, SysOk v)]\<rparr>) \<and>
        wrap0 w = (if v = 0 then Inr (0, \<lparr>outcomes = rs, trace = trace w @ [(c0, SysOk 0)]\<rparr>) else Inl (Exited 0)))"
proof -
  let ?good = "\<lambda>wrap c good. wrap w = (case outcomes w of [] \<Rightarrow> Inl Blocked | SysErr e # rs \<Rightarrow> Inl (Exited 0)
     | SysOk v # rs \<Rightarrow> if good v then Inr (v, w\<lparr>outcomes := rs, trace := trace w @ [(c, SysOk v)]\<rparr>) else Inl (Exited 0))"
  have "?good wrap c (\<lambda>v. True)"
    using assms(2) unfolding list.set
    by (elim insertE emptyE)
      (simp_all only: prod.inject Fork_c.by_cases [OF assms(1)] Pipe_c.by_cases [OF assms(1)] Setsid.by_cases [OF assms(1)] Getrlimit.by_cases [OF assms(1)]
        Setrlimit.by_cases [OF assms(1)] Socket_c.by_cases [OF assms(1)] Connect.by_cases [OF assms(1)] Bind_c.by_cases [OF
        assms(1)] Listen_c.by_cases [OF assms(1)] Ser_accept.by_cases [OF assms(1)] Accept_c.by_cases [OF assms(1)] Open.by_cases
        [OF assms(1)] Stat.by_cases [OF assms(1)] Fcntl.by_cases [OF assms(1)] Ftruncate.by_cases [OF assms(1)] Shm_open.by_cases
        [OF assms(1)] Shm_unlink.by_cases [OF assms(1)])
  moreover have "?good wrap0 c0 (\<lambda>v. v = 0)"
    using assms(3) unfolding list.set
    by (elim insertE emptyE)
      (simp_all only: prod.inject Close.by_cases [OF assms(1)] Munmap.by_cases [OF assms(1)] Msync.by_cases [OF assms(1)] Mprotect.by_cases [OF assms(1)])
  ultimately show ?thesis by (simp split: list.split sys_ret.split)
qed

theorem common_wrappers_checked_witness:
  "Setsid \<lparr>outcomes = [SysErr (EOTHER 1)], trace = []\<rparr> = Inl (Exited 0) \<and>
     Close 3 \<lparr>outcomes = [SysErr (EOTHER 1)], trace = []\<rparr> = Inl (Exited 0)"
proof -
  let ?w = "\<lparr>outcomes = [SysErr (EOTHER 1)], trace = []\<rparr>"
  have "kernel_ok ?w" by (simp add: kernel_ok_def)
  from common_wrappers_checked [OF this, where wrap = Setsid and c = CSetsid and ?wrap0.0 = "Close 3" and ?c0.0 = "CClose 3" and fd = 3]
  show ?thesis by simp
qed

end
