(* ===== verification/Spec2Isabelle.thy ===== *)
theory Spec2Isabelle
  imports Server_Loops Message_Queues Server_Config Io_Base Ordered_Trees Debug_Queues Common_Wrappers
begin

text \<open>
  A verification development of the multi-process HTTP file server under
  \<open>src/\<close>.

  The program.  \<open>start\<close> (\<open>src/core/epoll_circle.h\<close>) creates a pair of connected
  sockets and a pool of ten worker processes (\<open>inc/http_task.h\<close>, whose records
  are kept in an \<open>SLIST\<close> of \<open>inc/list.h\<close>), opens a listening socket (\<open>inc/sock.h\<close>)
  and passes every accepted descriptor over the pair.  A worker
  (\<open>jump_task_pool_obj\<close>) receives descriptors, registers them with epoll, reads
  and parses requests through a callback (\<open>inc/http_types.h\<close>), and answers them
  with a local file or an error page (\<open>http_module/http_module.h\<close>, log in
  \<open>inc/log.h\<close>).  Beside these parts there are wrappers for system calls
  (\<open>inc/sock.h\<close>, \<open>inc/epoll_inc.h\<close>, \<open>utils/utils.h\<close>), loops that transfer bytes
  (\<open>http_module.h\<close>, \<open>sock.h\<close>, \<open>utils/rio_r_w.h\<close>), a configuration file
  (\<open>utils/utils.h\<close>), message queues (\<open>inc/http_ipc.h\<close>), and what the server has at
  hand but does not use: a second event loop (\<open>inc/http_io_base.h\<close>), the other list
  kinds of \<open>inc/list.h\<close>, splay trees and red-black trees (\<open>utils/tree.h\<close>) and a second
  set of wrappers (\<open>inc/common.h\<close>).

  Conventions.  An execution is a value of \<open>stop + 'a\<close>: a result, or the reason
  why there is none (the program exits, performs an access that is undefined
  in C, waits for ever, or enters the loop of a worker).  A character array is
  the list of its cells and every access is checked against its length.  C
  integers are HOL integers with the conversions of assignments written out
  (\<open>to_int\<close>, \<open>to_size\<close>, \<open>to_ssize\<close>); the union in an epoll event is a 64-bit
  word.  The kernel, the allocator, the file system, the clock and the contents
  of uninitialised variables are arguments; what the kernel does at the
  successive calls is a script (\<open>wr_ret list\<close>, \<open>rd_ret list\<close>, or the outcomes of
  a \<open>world\<close>), and the theorems hold for every script or name the scripts they
  speak about.  Loops recurse over the script, so no fuel is needed; a call that
  finds the script used up waits for ever (\<open>Blocked\<close>).  A script is finite, so
  what a loop does when the kernel answers for ever is stated on its own:
  \<open>http_send_on\<close> is \<open>http_send\<close> on an endless stream of answers.  The loops
  that may run for ever without a system call (\<open>SLIST_FOREACH\<close>, the search of
  \<open>SLIST_REMOVE\<close>, \<open>body_loop\<close>, \<open>error_loop\<close>, and \<open>c_loop\<close>, the loop of the trees, the other
  lists and \<open>skip\<close>) are partial functions into an option, with \<open>None\<close> for a run that
  does not end; \<open>c_loop_rule\<close> proves that one ends, with an invariant that carries a
  decreasing bound.  Four counters are integers without the bounds of \<open>int\<close>, which they
  could leave only after \<open>2 ^ 31\<close> operations: \<open>n_proc\<close> and \<open>nleft\<close> of the pool, the
  position in a line of \<open>readline_buf\<close>, and \<open>g_count\<close>.  Allocators that may fail are arguments;
  the request that \<open>analasy\<close> allocates without a test is one of \<open>analasy_in\<close>, and where
  the parser is used through the context (\<open>parse_req\<close>) its block is there; a worker
  without that memory stops with a NULL dereference, which in runs is the step \<open>leave\<close>.

  Theories, in the order of their dependence.

  \<^item> \<open>Http_Prelude\<close>: executions, loops, heaps, integer conversions, results of
    system calls.
  \<^item> \<open>C_Strings\<close>: arrays and the string functions of the C library; \<open>strtok\<close> on an
    array implements a tokenizer on texts.
  \<^item> \<open>Request_Parser\<close> (\<open>inc/http_types.h\<close>): \<open>readline_buf\<close>, \<open>analasy\<close>, \<open>onRecv\<close>,
    \<open>callback\<close>, the allocators.  The parser is equal to a reference parser on
    texts; round trip with printed requests, memory safety, when it returns NULL
    and when it crashes; what a receive does on every outcome of \<open>read\<close>.
  \<^item> \<open>Slist\<close> (\<open>inc/list.h\<close>): the \<open>SLIST\<close> macros on a heap; the locale \<open>elem_list\<close> is
    the contract of an intrusive list and is interpreted on the macros; a loop
    over a list is a recursion over its elements.
  \<^item> \<open>Process_Pool\<close> (\<open>inc/http_task.h\<close>): every operation on the worker records,
    each refined to an operation on the list of records; reachable pools as an
    inductive predicate with an invariant on their size.
  \<^item> \<open>Socket_IO\<close>: the transfer loops; the locale \<open>full_writer\<close> is the contract of a
    loop that writes a whole buffer and is interpreted on \<open>http_send\<close> and
    \<open>rio_write\<close>, both of which equal one reference function; when \<open>http_send\<close> ends
    and when it calls \<open>send\<close> for ever on a socket that is not blocking.
  \<^item> \<open>Sys_Calls\<close>: worlds and the wrappers; the locale \<open>checked_call\<close> says that a
    wrapper returns the result of its call or ends the program and is
    interpreted on sixteen wrappers.
  \<^item> \<open>Common_Wrappers\<close> (\<open>inc/common.h\<close>): its wrappers, seventeen interpretations of
    \<open>checked_call\<close> and four of \<open>checked_result\<close>; they agree with those of \<open>Sys_Calls\<close>;
    what \<open>skip\<close> and the redirections really do.
  \<^item> \<open>Connections\<close> (\<open>inc/sock.h\<close>): \<open>open_clientfd\<close> and \<open>open_listenfd\<close> with the
    descriptors a trace leaves open; passing a descriptor as a round trip between
    the descriptor tables of two processes.
  \<^item> \<open>Http_Module\<close> (\<open>http_module/http_module.h\<close>, \<open>inc/log.h\<close>): finding the file,
    the response, the error pages, the handlers; the transfer is \<open>http_send\<close> on
    the portions of the file, through the lemmas of \<open>full_writer\<close>.
  \<^item> \<open>Event_Loop\<close> (\<open>inc/http_task.h\<close>, \<open>inc/http_io_base.h\<close>): the worker, one
    definition per kind of event; reachable states of a worker as an inductive
    relation, in which the pointer of every event fetched is live; the loop comes
    back to waiting or stops, unless reading a file fails for ever (the scripts of
    the kernel being finite); a short read always stops it.  The loops over a batch
    of events return the state reached before the event that stops the process.
  \<^item> \<open>Io_Base\<close> (\<open>inc/http_io_base.h\<close>): the loop of \<open>do_epoll\<close>, which serves nothing,
    and the interface functions.
  \<^item> \<open>Linked_Spec\<close>: pointers to next pointers, chains in a heap, loops over them, the
    operations as functions on lists; the locales \<open>linked\<close> and, with loops in both
    directions, \<open>two_way\<close>.  \<open>Plain_Lists\<close> (\<open>LIST\<close>, \<open>SIMPLEQ\<close>), \<open>Tail_Queue\<close> (\<open>TAILQ\<close>) and
    \<open>Circle_Queue\<close> (\<open>CIRCLEQ\<close>) model the macros of \<open>inc/list.h\<close> and interpret them;
    \<open>Queues\<close> has their properties: refinement of lists by any sequence of
    operations, agreement of the two double-ended kinds, the debugging checks;
    \<open>Debug_Queues\<close> has the operations of a debugging build, which fulfil the same
    contracts and trap the use of removed elements.
  \<^item> \<open>Ordered_Elems\<close>: comparisons, ascending sequences, and the locale
    \<open>ordered_index\<close>, what a client expects of a tree.
  \<^item> \<open>Splay_Tree\<close> (\<open>utils/tree.h\<close>): the \<open>SPLAY\<close> macros on a heap; while the loop runs the
    tree is in three parts, whose sequence never changes.
  \<^item> \<open>Rb_Tree\<close> (\<open>utils/tree.h\<close>): the \<open>RB\<close> macros on a heap; \<open>Rb_Focus\<close> has trees with a
    path to a node in focus, rotations and recolouring, once for both sides;
    \<open>Rb_Insert\<close>, \<open>Rb_Remove\<close> and \<open>Rb_Index\<close> prove the operations and interpret
    \<open>ordered_index\<close>; \<open>Rb_History\<close> has the trees a client can reach as an inductive
    predicate, with their invariant, height and progress; \<open>Ordered_Trees\<close> compares
    the two kinds of trees.
  \<^item> \<open>Dispatcher\<close> (\<open>src/core/epoll_circle.h\<close>): start-up, the loop that hands over
    connections, the event loop of the main process, the signal handlers.
  \<^item> \<open>Dispatch_Spec\<close>: what the server promises about connections (numbered as they
    arrive, waiting in order, delivered from the front), with its invariant; the locale
    \<open>dispatching\<close> is the contract of a system whose steps are runs of it.
  \<^item> \<open>Pair_Kernel\<close>: the kernel between the processes: descriptors of the main process,
    messages in the pair, and what the calls in a trace of the main process do to
    them; every completed \<open>accept_loop\<close> is a sequence of accepted connections.
  \<^item> \<open>Server_System\<close>: the main process, the pair and the workers as one system.  In a
    step a worker fetches events with \<open>epoll_wait\<close> or ends, or a process handles one
    event, as \<open>master_event\<close> and \<open>handle_event\<close> define it, with any outcome of the
    system calls, within \<open>net_allows\<close>, \<open>deliver\<close> and \<open>honest\<close>; invariants of reachable
    systems and the interpretation of \<open>dispatching\<close>.
  \<^item> \<open>Server_Runs\<close>: the properties of all runs of the server: order and completeness of
    the connections, where a worker reads from, absence of faults in the main
    process, deliverability, the boot from \<open>start\<close> and \<open>jump_task_pool_obj\<close>, the
    shutdown, and the ways in which a worker is lost to its clients (a short
    request, a lost race for a message, a descriptor that the kernel drops, an error
    of a client).
  \<^item> \<open>Server_Loops\<close>: schedules, which say when a process wakes up and with which
    events; the endless loops of \<open>start\<close> and of every \<open>jump_task_pool_obj\<close>, each on its
    part of a schedule, together make a run of the system.
  \<^item> \<open>Message_Queues\<close> (\<open>inc/http_ipc.h\<close>) and \<open>Server_Config\<close> (\<open>utils/utils.h\<close>,
    \<open>inc/http_epoll.h\<close>): the life cycle of the queues; the round trip of the
    configuration line.
  \<^item> this theory: the properties that span the parser, the response module and the
    loop of a worker: a request is answered with its file, and where the answer goes.

  Bounds.  The hypotheses on lengths are the sizes of the arrays in the source
  (\<open>BUFSIZE\<close> 4096 in \<open>http_types.h\<close> and 1024 in \<open>utils.h\<close>, \<open>BUFFSIZE\<close> 1024,
  \<open>PARTSIZE\<close> 512, \<open>READ_COUNT\<close> 100) and the ranges of the C types.

  Composition.  A worker may handle an event long after it was reported, when
  the interest list has changed; the events fetched and not yet handled are part
  of the state.  A process handles an event in one step; as the main process
  only appends to the pair and a worker only takes the first message, finer
  interleavings differ in nothing but when a worker finds the pair empty, which it may
  at any time.  A connection is a number; a descriptor of a process is an entry of
  its table, and passing one installs it under a free number, as \<open>SCM_RIGHTS\<close> does;
  the kernel may also take the message and drop the descriptor, which is
  recorded as received under the number -1, or fail with any error, \<open>EAGAIN\<close> only when
  there is no message.
  What the kernel guarantees is spelled out in \<open>net_allows\<close>, \<open>deliver\<close> and \<open>honest\<close>:
  new descriptors are not in use, messages arrive in order, \<open>epoll_ctl\<close> adds
  only an open connection that is not registered (the control buffer of a failed
  \<open>recvmsg\<close>, which \<open>Sock_fd_read\<close> does not initialise, may still name one) and
  modifies and deletes only what is registered.

  Not modelled: what is printed; \<open>RB_AUGMENT\<close>, \<open>Freeaddrinfo\<close> and the macros of
  \<open>inc/common.h\<close> that are only text; the death of the main process in the middle of
  an event (the relation covers its completed events); what an event that stops a
  process did before it stopped; and the replacement of a dead
  worker in a run (\<open>handler_dead_processor\<close> has its own properties, but no
  part of the program calls it).
\<close>

section \<open>From the bytes of a request to the bytes of the response\<close>

text \<open>
  End to end through parser and response module: when a read completes the
  text of a request for a regular file, the callback parses it, and the response to the parsed
  request sends the headers with the exact length and then the content of the
  file \<open>local_prefix @ url\<close>, and logs the download.
\<close>

theorem request_to_response:
  assumes "0 < len" "len < READ_COUNT_BUF" "length d = len"
    and "t @ d = request_text m u v hs body" "NUL \<notin> set (t @ d)" "length (t @ d) < BUFSIZE" "request_ok m u v hs"
    and "length (t @ NUL # post) = BUFSIZE" "length (ctx_buf ctx) = BUFSIZE" "parse_req ctx = analasy"
    and "length g1 = BUFFSIZE" "length g2 = BUFFSIZE" "length m < 511" "length m + length u + 1 < BUFFSIZE"
    "word_ok m" "word_ok u" "overrun m u g2 < PARTSIZE"
    and "supported m" "path = indexed (local_prefix @ u)" "env_stat E path = Some (False, int (length c))"
    "env_fopen E path = Some (reading c)" "length c < 2 ^ 63" "after_last (CHR ''/'') path = Some name"
    and "length g3 = BUFFSIZE" "length ks = 5" "\<forall>k\<in>set ks. BUFFSIZE \<le> k"
    "progress_all again script (map length (portions c)) = Some rest" "logOut E ''010'' name = Inr entry"
  shows "\<exists>h ctx' b. callback ctx f_recv (RdData d # rs) (Some (t @ NUL # post)) len = Inr (Some h, ctx', b, rs) \<and>
    http_module_handler_response E g1 g2 g3 (map WrN ks @ script) h
      = Some (Inr (ok_text (int (length c)) name @ c, [entry], rest))"
proof -
  obtain h ctx' b where h: "callback ctx f_recv (RdData d # rs) (Some (t @ NUL # post)) len = Inr (Some h, ctx', b, rs)"
      "method_f h = Some m" "url h = Some u"
    using callback_request [OF assms(1-10)] by blast
  have "http_module_handler_response E g1 g2 g3 (map WrN ks @ script) h
      = Some (Inr (ok_text (int (length c)) name @ c, [entry], rest))"
    by (rule file_response [OF assms(11-17) h(2,3) assms(18-28)])
  with h(1) show ?thesis by blast
qed

theorem request_to_response_witness:
  "\<exists>h ctx' b entry. callback \<lparr>ctx_buf = replicate BUFSIZE NUL, parse_req = analasy\<rparr> onRecv
      [RdData (request_text ''GET'' ''/a.txt'' ''HTTP/1.1'' [] [])] (Some ([] @ NUL # replicate (BUFSIZE - 1) NUL)) 23
      = Inr (Some h, ctx', b, []) \<and>
    http_module_handler_response sample_env blanks blanks blanks
      (map WrN [1024, 1024, 1024, 1024, 1024] @ [WrErr EAGAIN, WrN 2, WrN 2000]) h
      = Some (Inr (ok_text (int (length ''hello'')) ''a.txt'' @ ''hello'', [entry], []))"
proof -
  obtain entry where log: "logOut sample_env ''010'' ''a.txt'' = Inr entry"
    by (auto simp: logOut_def sample_env_def log_path_def dec_int_def dec_nat.simps Let_def)
  note facts = blanks_facts sample_words BUFFSIZE_def PARTSIZE_def supported_def strcasecmp_eq_def
    request_witness_simps READ_COUNT_BUF_def
  have path: "''/home/jackwu/Desktop/test/a.txt'' = indexed (local_prefix @ ''/a.txt'')"
    "after_last (CHR ''/'') ''/home/jackwu/Desktop/test/a.txt'' = Some ''a.txt''"
    by (simp_all add: indexed_def local_prefix_def after_last_def)
  have content: "env_stat sample_env ''/home/jackwu/Desktop/test/a.txt'' = Some (False, int (length ''hello''))"
    "env_fopen sample_env ''/home/jackwu/Desktop/test/a.txt'' = Some (reading ''hello'')"
    by (simp_all add: sample_env_def)
  have "portions ''hello'' = [''hello'']" by (simp add: portions.simps BUFFER_SIZE_def)
  then have sent: "progress_all again [WrErr EAGAIN, WrN 2, WrN 2000] (map length (portions ''hello'')) = Some []"
    by (simp add: again_iff)
  have "\<exists>h ctx' b. callback \<lparr>ctx_buf = replicate BUFSIZE NUL, parse_req = analasy\<rparr> onRecv
      [RdData (request_text ''GET'' ''/a.txt'' ''HTTP/1.1'' [] [])] (Some ([] @ NUL # replicate (BUFSIZE - 1) NUL)) 23
      = Inr (Some h, ctx', b, []) \<and>
    http_module_handler_response sample_env blanks blanks blanks
      (map WrN [1024, 1024, 1024, 1024, 1024] @ [WrErr EAGAIN, WrN 2, WrN 2000]) h
      = Some (Inr (ok_text (int (length ''hello'')) ''a.txt'' @ ''hello'', [entry], []))"
    by (rule request_to_response [where m = "''GET''" and hs = "[]" and body = "[]" and v = "''HTTP/1.1''",
        OF _ _ _ _ _ _ _ _ _ _ _ _ _ _ _ _ _ _ path(1) content _ path(2) _ _ _ sent log])
      (simp_all add: facts)
  then show ?thesis by blast
qed

section \<open>From an input event to the response of the worker\<close>

text \<open>
  C3. The loop of a worker, end to end: when an input event delivers exactly
  \<open>READ_COUNT\<close> (100) bytes that complete the text of a request for a regular file
  and an output event for the request comes, the worker parses the request, asks
  for the output event, sends the headers with the exact length and then the
  content of the file, removes the event, closes, and waits again.  What it sends
  to, removes and closes is the low half of the address of the request; what it asks
  the event for is the client it received last.
  The hypotheses that decide: a first read of fewer bytes would end the worker
  (\<open>short_request_ends_worker\<close>); request, method and url fit the arrays; the
  uninitialised array of \<open>accept_request\<close> has a blank soon enough behind the url
  (\<open>overrun\<close>, else \<open>accept_request_overflow\<close>); the kernel takes the five header
  lines whole and the content in portions that are not empty; the log opens.
\<close>

theorem worker_answers_request:
  assumes "tcps W a = Some tcp" "tcp_callback tcp = callback" "tcp_buf tcp = Some (t @ NUL # post)"
    and "data_fd a \<noteq> fd0" "data_fd (in_req I) \<noteq> fd0" "in_reads I = RdData d # rs" "length d = READ_COUNT"
    and "t @ d = request_text m u v hs body" "NUL \<notin> set (t @ d)" "length (t @ d) < BUFSIZE" "request_ok m u v hs"
    and "length (t @ NUL # post) = BUFSIZE" "length (ctx_buf (http_contxt tcp)) = BUFSIZE" "parse_req (http_contxt tcp) = analasy"
    and "length (in_g1 J) = BUFFSIZE" "length (in_g2 J) = BUFFSIZE" "length m < 511" "length m + length u + 1 < BUFFSIZE"
    and "word_ok m" "word_ok u" "overrun m u (in_g2 J) < PARTSIZE"
    and "supported m" "path = indexed (local_prefix @ u)" "env_stat (in_env J) path = Some (False, int (length c))"
    and "env_fopen (in_env J) path = Some (reading c)" "length c < 2 ^ 63" "after_last (CHR ''/'') path = Some name"
    and "length (in_g3 J) = BUFFSIZE" "length ks = 5" "\<forall>k\<in>set ks. BUFFSIZE \<le> k" "in_writes J = map WrN ks @ script"
    and "progress_all again script (map length (portions c)) = Some rest" "logOut (in_env J) ''010'' name = Inr entry"
    and "outcomes (kworld W) = r0 # r1 # r2 # os" "f = data_fd (in_req I)"
  shows "\<exists>W'. worker_loop fd0 [Inr [(\<lparr>events = EPOLLIN, ev_data = a\<rparr>, I)],
        Inr [(\<lparr>events = EPOLLOUT, ev_data = in_req I\<rparr>, J)]] W = (W', Some Blocked) \<and>
      sent W' = sent W @ [(f, ok_text (int (length c)) name @ c)] \<and>
      trace (kworld W') = trace (kworld W) @ [(CEpollCtl (epfd W) EPOLL_CTL_MOD (clientfd W), r0),
        (CEpollCtl (epfd W) EPOLL_CTL_DEL f, r1), (CClose f, r2)]"
proof -
  have len: "0 < READ_COUNT" "READ_COUNT < READ_COUNT_BUF" by (simp_all add: READ_COUNT_def READ_COUNT_BUF_def)
  from request_to_response [OF len assms(7-30) assms(32,33)] obtain h ctx b where
    h: "callback (http_contxt tcp) onRecv (in_reads I) (tcp_buf tcp) READ_COUNT = Inr (Some h, ctx, b, rs)"
    and resp: "http_module_handler_response (in_env J) (in_g1 J) (in_g2 J) (in_g3 J) (in_writes J) h =
      Some (Inr (ok_text (int (length c)) name @ c, [entry], rest))"
    using assms(3,6,31) by metis
  let ?W1 = "W\<lparr>kworld := (kworld W)\<lparr>outcomes := r1 # r2 # os,
      trace := trace (kworld W) @ [(CEpollCtl (epfd W) EPOLL_CTL_MOD (clientfd W), r0)]\<rparr>,
    interest := epoll_apply EPOLL_CTL_MOD (clientfd W) \<lparr>events = EPOLLOUT, ev_data = in_req I\<rparr> (sys_val r0) (interest W),
    tcps := (tcps W)(a \<mapsto> tcp\<lparr>http_contxt := ctx, tcp_buf := Some b\<rparr>), reqs := (reqs W)(in_req I \<mapsto> h)\<rparr>"
  have "handle_event fd0 \<lparr>events = EPOLLIN, ev_data = a\<rparr> I W = Some (Inr (?W1, False))"
    using assms(1,2,4,34) h by (simp add: handle_event_def client_readable_def ctl_simps EPOLLIN_def)
  moreover obtain W' where "handle_event fd0 \<lparr>events = EPOLLOUT, ev_data = in_req I\<rparr> J ?W1 = Some (Inr (W', False))"
    and "sent W' = sent W @ [(f, ok_text (int (length c)) name @ c)]"
    "trace (kworld W') = trace (kworld W) @ [(CEpollCtl (epfd W) EPOLL_CTL_MOD (clientfd W), r0),
        (CEpollCtl (epfd W) EPOLL_CTL_DEL f, r1), (CClose f, r2)]"
    using assms(5,35) resp
    by (simp add: handle_event_def client_writable_def ctl_simps close_fd_simps EPOLLIN_def EPOLLOUT_def Let_def)
  ultimately show ?thesis by simp
qed


text \<open>A file whose name makes the request exactly \<open>READ_COUNT\<close> bytes long.\<close>

definition full_env :: env where
  "full_env = sample_env\<lparr>env_stat := (\<lambda>p. Some (False, 5)), env_fopen := (\<lambda>p. Some (reading ''hello''))\<rparr>"

lemma full_url_facts:
  "length full_url = 83" "word_ok full_url" "indexed (local_prefix @ full_url) = local_prefix @ full_url"
  "after_last (CHR ''/'') (local_prefix @ full_url) = Some (replicate 82 (CHR ''a''))"
  by (simp_all add: full_url_def word_ok_def indexed_def isspace_def after_last_def takeWhile_append)

lemma full_request_facts:
  "length (request_text ''GET'' full_url ''HTTP/1.1'' [] []) = READ_COUNT"
  "NUL \<notin> set (request_text ''GET'' full_url ''HTTP/1.1'' [] [])" "request_ok ''GET'' full_url ''HTTP/1.1'' []"
  by (simp_all add: request_witness_simps full_url_def READ_COUNT_def)

theorem worker_answers_request_witness:
  "\<exists>W'. worker_loop 6
      [Inr [(\<lparr>events = EPOLLIN, ev_data = 0x1000\<rparr>, sample_inputs\<lparr>in_reads := [RdData (request_text ''GET'' full_url ''HTTP/1.1'' [] [])]\<rparr>)],
       Inr [(\<lparr>events = EPOLLOUT, ev_data = 0x7F0000002000\<rparr>, sample_inputs\<lparr>in_env := full_env,
         in_writes := map WrN [1024, 1024, 1024, 1024, 1024] @ [WrErr EAGAIN, WrN 2, WrN 2000]\<rparr>)]]
      ((sample_worker [SysOk 0, SysErr (EOTHER 2), SysErr (EOTHER 9)])\<lparr>clientfd := 8, tcps := [0x1000 \<mapsto> client_8]\<rparr>)
      = (W', Some Blocked) \<and>
    sent W' = [(0x2000, ok_text 5 (replicate 82 (CHR ''a'')) @ ''hello'')]"
proof -
  let ?d = "request_text ''GET'' full_url ''HTTP/1.1'' [] []"
  let ?I = "sample_inputs\<lparr>in_reads := [RdData ?d]\<rparr>"
  let ?J = "sample_inputs\<lparr>in_env := full_env, in_writes := map WrN [1024, 1024, 1024, 1024, 1024] @ [WrErr EAGAIN, WrN 2, WrN 2000]\<rparr>"
  let ?W = "(sample_worker [SysOk 0, SysErr (EOTHER 2), SysErr (EOTHER 9)])\<lparr>clientfd := 8, tcps := [0x1000 \<mapsto> client_8]\<rparr>"
  obtain entry where log: "logOut (in_env ?J) ''010'' (replicate 82 (CHR ''a'')) = Inr entry"
    by (auto simp: logOut_def full_env_def sample_env_def log_path_def dec_int_def dec_nat.simps Let_def)
  have "portions ''hello'' = [''hello'']" by (simp add: portions.simps BUFFER_SIZE_def)
  then have sent: "progress_all again [WrErr EAGAIN, WrN 2, WrN 2000] (map length (portions ''hello'')) = Some []"
    by (simp add: again_iff)
  have f: "data_fd 0x1000 \<noteq> 6" "data_fd (in_req ?I) \<noteq> 6" "data_fd 0x7F0000002000 = 0x2000" "in_req ?I = 0x7F0000002000"
    by (simp_all add: data_fd_def sample_inputs_def)
  have tcp: "tcps ?W 0x1000 = Some client_8" "tcp_callback client_8 = callback"
    "tcp_buf client_8 = Some ([] @ NUL # replicate (BUFSIZE - 1) NUL)"
    "length (ctx_buf (http_contxt client_8)) = BUFSIZE" "parse_req (http_contxt client_8) = analasy"
    "outcomes (kworld ?W) = SysOk 0 # SysErr (EOTHER 2) # SysErr (EOTHER 9) # []" "sent ?W = []"
    by (simp_all add: client_8_def sample_worker_def)
  have env: "env_stat (in_env ?J) (local_prefix @ full_url) = Some (False, int (length ''hello''))"
    "env_fopen (in_env ?J) (local_prefix @ full_url) = Some (reading ''hello'')"
    by (simp_all add: full_env_def)
  from worker_answers_request [where W = ?W and a = "0x1000" and I = ?I and J = ?J and d = ?d and rs = "[]" and t = "[]"
      and hs = "[]" and body = "[]" and ks = "[1024, 1024, 1024, 1024, 1024]",
      OF tcp(1-3) f(1,2) _ full_request_facts(1) _ _ _ full_request_facts(3) _ tcp(4,5) _ _ _ _ _ full_url_facts(2) _ _
        full_url_facts(3) [symmetric] env _ full_url_facts(4) _ _ _ _ sent log tcp(6) refl]
    full_request_facts(2) f(3,4) tcp(7)
  show ?thesis
    by (auto simp: full_request_facts(1) full_url_facts(1) READ_COUNT_def BUFSIZE_def BUFFSIZE_def blanks_facts sample_words
      PARTSIZE_def supported_def strcasecmp_eq_def sample_inputs_def)
qed

section \<open>Where the responses go\<close>

text \<open>
  C8. In every run a response goes to an address, not to a client: every
  descriptor that a worker ever sent a response to is the low half of the
  address of a request, as the union that held the address is read as a
  descriptor.  The descriptor of the client that asked plays no part, so unless
  an allocated address happens to end in its number no client gets an answer.
\<close>

theorem responses_to_addresses:
  assumes "booted fd0 S" "sys_run fd0 S S'" "s_workers S' p = Some q" "(f, w) \<in> set (sent (prog q))"
  shows "\<exists>a h. reqs (prog q) a = Some h \<and> f = data_fd a \<and> f \<noteq> fd0"
proof -
  have "\<forall>q\<in>ran (s_workers S). responses_ok fd0 (prog q)"
    using assms(1) by (auto simp: booted_def ran_def responses_ok_def)
  from responses_ok_run [OF assms(2) this] assms(3,4) show ?thesis
    by (fastforce simp: ran_def responses_ok_def)
qed

lemma full_answer:
  obtains h ctx b entry where "callback (http_contxt client_8) onRecv [RdData (request_text ''GET'' full_url ''HTTP/1.1'' [] [])]
      (tcp_buf client_8) READ_COUNT = Inr (Some h, ctx, b, [])"
    "http_module_handler_response full_env blanks blanks blanks
      (map WrN [1024, 1024, 1024, 1024, 1024] @ [WrErr EAGAIN, WrN 2, WrN 2000]) h =
      Some (Inr (ok_text 5 (replicate 82 (CHR ''a'')) @ ''hello'', [entry], []))"
proof -
  let ?d = "request_text ''GET'' full_url ''HTTP/1.1'' [] []"
  obtain entry where log: "logOut full_env ''010'' (replicate 82 (CHR ''a'')) = Inr entry"
    by (auto simp: logOut_def full_env_def sample_env_def log_path_def dec_int_def dec_nat.simps Let_def)
  have "portions ''hello'' = [''hello'']" by (simp add: portions.simps BUFFER_SIZE_def)
  then have sent: "progress_all again [WrErr EAGAIN, WrN 2, WrN 2000] (map length (portions ''hello'')) = Some []"
    by (simp add: again_iff)
  have client: "tcp_buf client_8 = Some ([] @ NUL # replicate (BUFSIZE - 1) NUL)"
    "length (ctx_buf (http_contxt client_8)) = BUFSIZE" "parse_req (http_contxt client_8) = analasy"
    by (simp_all add: client_8_def)
  have env: "env_stat full_env (local_prefix @ full_url) = Some (False, int (length ''hello''))"
    "env_fopen full_env (local_prefix @ full_url) = Some (reading ''hello'')"
    by (simp_all add: full_env_def)
  from request_to_response [where d = ?d and t = "[]" and post = "replicate (BUFSIZE - 1) NUL" and len = READ_COUNT and rs = "[]" and f_recv = onRecv
      and hs = "[]" and body = "[]" and ?g1.0 = blanks and ?g2.0 = blanks and ?g3.0 = blanks and ks = "[1024, 1024, 1024, 1024, 1024]",
      OF _ _ full_request_facts(1) _ _ _ full_request_facts(3) _ client(2,3) _ _ _ _ _ full_url_facts(2) _ _
        full_url_facts(3) [symmetric] env _ full_url_facts(4) _ _ _ sent log]
    full_request_facts(2) client(1)
  have "\<exists>h ctx b. callback (http_contxt client_8) onRecv [RdData ?d] (tcp_buf client_8) READ_COUNT = Inr (Some h, ctx, b, []) \<and>
      http_module_handler_response full_env blanks blanks blanks
        (map WrN [1024, 1024, 1024, 1024, 1024] @ [WrErr EAGAIN, WrN 2, WrN 2000]) h =
      Some (Inr (ok_text 5 (replicate 82 (CHR ''a'')) @ ''hello'', [entry], []))"
    by (auto simp: full_request_facts(1) full_url_facts(1) READ_COUNT_def READ_COUNT_BUF_def BUFSIZE_def BUFFSIZE_def
      blanks_facts sample_words PARTSIZE_def supported_def strcasecmp_eq_def)
  then show ?thesis using that by blast
qed

lemma sample_request_read:
  assumes "callback (http_contxt client_8) onRecv [RdData (request_text ''GET'' full_url ''HTTP/1.1'' [] [])]
      (tcp_buf client_8) READ_COUNT = Inr (Some h, ctx, b, [])"
  shows "\<exists>S q. sys_run 6 sample_system S \<and> s_workers S 101 = Some q \<and> pending q = [] \<and>
    interest (prog q) 9 = Some \<lparr>events = EPOLLOUT, ev_data = 0x7F0000002000\<rparr> \<and>
    tcps (prog q) 0x1000 = None \<and> tcps (prog q) 0x3000 = None \<and> reqs (prog q) = [0x7F0000002000 \<mapsto> h] \<and> sent (prog q) = []"
proof -
  obtain S q where S: "sys_run 6 sample_system S" "s_workers S = [101 \<mapsto> q]" "pending q = []"
    and i: "interest (prog q) = [6 \<mapsto> sample_reg 6, 9 \<mapsto> \<lparr>events = EPOLLIN, ev_data = 0x55550010\<rparr>]"
    and q: "tcps (prog q) = [0x55550010 \<mapsto> client_8\<lparr>fd := 9\<rparr>]" "reqs (prog q) = Map.empty" "clientfd (prog q) = 9" "sent (prog q) = []"
    using sample_run by blast
  let ?ev = "\<lparr>events = EPOLLIN, ev_data = 0x55550010\<rparr>"
  let ?I = "sample_inputs\<lparr>in_reads := [RdData (request_text ''GET'' full_url ''HTTP/1.1'' [] [])], in_tcp := 0x1000\<rparr>"
  have fds: "data_fd 0x55550010 \<noteq> 6" "data_fd 0x7F0000002000 \<noteq> 6" "data_fd 0x1000 \<noteq> 6" by (simp_all add: data_fd_def)
  obtain W where run: "handle_event 6 ?ev ?I ((prog q)\<lparr>kworld := offer [SysOk 0] (kworld (prog q))\<rparr>) = Some (Inr (W, False))"
    and W: "trace (kworld W) = trace (kworld (prog q)) @ [(CEpollCtl (epfd (prog q)) EPOLL_CTL_MOD 9, SysOk 0)]"
      "interest W 9 = Some \<lparr>events = EPOLLOUT, ev_data = 0x7F0000002000\<rparr>"
      "tcps W 0x1000 = None" "tcps W 0x3000 = None" "reqs W = [0x7F0000002000 \<mapsto> h]" "sent W = []"
    using q assms fds by (simp add: handle_event_def client_readable_def ctl_simps epoll_apply_def EPOLLIN_def
        EPOLL_CTL_MOD_def EPOLL_CTL_DEL_def client_8_def sample_inputs_def)
  let ?q = "handled 6 q (tab q) W True"
  let ?S = "S\<lparr>s_net := s_net S, s_workers := (s_workers S)(101 \<mapsto> ?q), s_taken := s_taken S @ map (Pair 101) []\<rparr>"
  have "sys_run 6 S ?S"
  proof (rule fetch_and_serve [OF _ S(3) _ _ _ run])
    show "honest (interest (prog q)) (tab q) (new_calls (kworld (prog q)) (kworld W))"
      by (simp add: new_calls_append [OF W(1)] honest_def i EPOLL_CTL_MOD_def EPOLL_CTL_ADD_def)
    show "reported (prog q) ?ev" unfolding reported_def by (rule exI [of _ 9], rule exI [of _ ?ev]) (simp add: i)
  qed (use S q fds in \<open>simp_all add: new_addresses_def receives_def sample_inputs_def\<close>)
  with S(1) have "sys_run 6 sample_system ?S" by (rule rtranclp_trans)
  moreover have "s_workers ?S 101 = Some ?q" by simp
  ultimately show ?thesis using W by (intro exI [of _ ?S] exI [of _ ?q]) (simp add: handled_def Let_def)
qed

theorem responses_to_addresses_witness:
  "\<exists>S q a h. sys_run 6 sample_system S \<and> s_workers S 101 = Some q \<and>
    sent (prog q) = [(0x2000, ok_text 5 (replicate 82 (CHR ''a'')) @ ''hello'')] \<and> reqs (prog q) a = Some h \<and> data_fd a = 0x2000"
proof -
  let ?w = "ok_text 5 (replicate 82 (CHR ''a'')) @ ''hello''"
  obtain h ctx b entry where cb: "callback (http_contxt client_8) onRecv [RdData (request_text ''GET'' full_url ''HTTP/1.1'' [] [])]
      (tcp_buf client_8) READ_COUNT = Inr (Some h, ctx, b, [])"
    and resp: "http_module_handler_response full_env blanks blanks blanks
      (map WrN [1024, 1024, 1024, 1024, 1024] @ [WrErr EAGAIN, WrN 2, WrN 2000]) h = Some (Inr (?w, [entry], []))"
    by (rule full_answer)
  let ?ev = "\<lparr>events = EPOLLOUT, ev_data = 0x7F0000002000\<rparr>"
  let ?J = "sample_inputs\<lparr>in_env := full_env, in_writes := map WrN [1024, 1024, 1024, 1024, 1024] @ [WrErr EAGAIN, WrN 2, WrN 2000],
    in_tcp := 0x1000, in_req := 0x3000\<rparr>"
  obtain S q where S: "sys_run 6 sample_system S" "s_workers S 101 = Some q" "pending q = []" "interest (prog q) 9 = Some ?ev"
    and q: "tcps (prog q) 0x1000 = None" "tcps (prog q) 0x3000 = None" "reqs (prog q) = [0x7F0000002000 \<mapsto> h]" "sent (prog q) = []"
    using sample_request_read [OF cb] by blast
  have fds: "data_fd 0x7F0000002000 = 0x2000" "data_fd 0x1000 \<noteq> 6" "data_fd 0x3000 \<noteq> 6" by (simp_all add: data_fd_def)
  obtain W where run: "handle_event 6 ?ev ?J ((prog q)\<lparr>kworld := offer [SysErr (EOTHER 2), SysErr (EOTHER 9)] (kworld (prog q))\<rparr>)
      = Some (Inr (W, False))"
    and W: "trace (kworld W) = trace (kworld (prog q)) @ [(CEpollCtl (epfd (prog q)) EPOLL_CTL_DEL 0x2000, SysErr (EOTHER 2)),
        (CClose 0x2000, SysErr (EOTHER 9))]" "sent W = [(0x2000, ?w)]"
    using q resp fds by (simp add: handle_event_def client_writable_def ctl_simps close_fd_simps EPOLLIN_def EPOLLOUT_def
        Let_def sample_inputs_def)
  let ?q = "handled 6 q (tab q) W True"
  let ?S = "S\<lparr>s_net := s_net S, s_workers := (s_workers S)(101 \<mapsto> ?q), s_taken := s_taken S @ map (Pair 101) []\<rparr>"
  have "sys_run 6 S ?S"
  proof (rule fetch_and_serve [OF S(2,3) _ _ _ run])
    show "honest (interest (prog q)) (tab q) (new_calls (kworld (prog q)) (kworld W))"
      by (simp add: new_calls_append [OF W(1)] honest_def)
    show "reported (prog q) ?ev" unfolding reported_def by (rule exI [of _ 9], rule exI [of _ ?ev]) (simp add: S(4))
  qed (use q fds in \<open>simp_all add: new_addresses_def receives_def sample_inputs_def\<close>)
  with S(1) have run: "sys_run 6 sample_system ?S" by (rule rtranclp_trans)
  have w: "s_workers ?S 101 = Some ?q" "(0x2000, ?w) \<in> set (sent (prog ?q))" "sent (prog ?q) = [(0x2000, ?w)]"
    by (simp_all add: handled_def Let_def W)
  from responses_to_addresses [OF sample_booted run w(1,2)] obtain a h where "reqs (prog ?q) a = Some h" "data_fd a = 0x2000" by auto
  with run w(1,3) show ?thesis by blast
qed

end
